(* ===== verification/Prelude.thy ===== *)
theory Prelude
  imports Main "HOL-Library.AList"
begin

text \<open>
  What every component of the development shares: the model of JavaScript strings,
  characters and plain objects, the two failure values a JavaScript statement can have,
  and generic list lemmas.

  A JavaScript string is a \<^typ>\<open>string\<close>, read as the bytes of its UTF-8 encoding. The
  character classes \<open>\s\<close>, \<open>\w\<close>, \<open>\d\<close> and the case conversions of the source are
  modelled on the ASCII range; every other byte is left alone by them.
  A plain object is an association list in insertion order with one entry per key
  (\<open>for .. in\<close> walks it in that order).
\<close>

named_theorems js_simps \<open>unfolding rules of the JavaScript library model\<close>
named_theorems js_eval \<open>rules that evaluate the model on concrete inputs\<close>

text \<open>
  A statement that throws has the value \<open>Inl TypeError\<close>, or \<open>Inl DomError\<close> when a method of the
  document rejects its arguments. A recursion over linked objects that a cycle could keep
  running has a bound, and \<open>Inl OutOfFuel\<close> is the value of a run that reaches it.
\<close>

datatype js_error = TypeError | DomError | OutOfFuel

type_synonym 'a res = "js_error + 'a"

definition bind_res :: "'a res \<Rightarrow> ('a \<Rightarrow> 'b res) \<Rightarrow> 'b res" where
  "bind_res r f = (case r of Inl e \<Rightarrow> Inl e | Inr x \<Rightarrow> f x)"

lemma bind_res_simps [simp]: "bind_res (Inl e) f = Inl e" "bind_res (Inr x) f = f x"
  by (simp_all add: bind_res_def)

text \<open>Run \<open>f\<close> on every element in order and collect what it pushes.\<close>

fun seq_map :: "('a \<Rightarrow> 'b list res) \<Rightarrow> 'a list \<Rightarrow> 'b list res" where
  "seq_map f [] = Inr []"
| "seq_map f (x # xs) = bind_res (f x) (\<lambda>ys. bind_res (seq_map f xs) (\<lambda>zs. Inr (ys @ zs)))"

lemma seq_map_cong [fundef_cong]:
  "xs = ys \<Longrightarrow> (\<And>x. x \<in> set ys \<Longrightarrow> f x = g x) \<Longrightarrow> seq_map f xs = seq_map g ys"
proof (induction xs arbitrary: ys)
  case (Cons x xs)
  then show ?case by (cases ys) auto
qed simp

lemma seq_map_Inr: "(\<And>x. x \<in> set xs \<Longrightarrow> f x = Inr (g x)) \<Longrightarrow> seq_map f xs = Inr (concat (map g xs))"
  by (induction xs) auto

type_synonym 'v jsobj = "(string \<times> 'v) list"

abbreviation obj_get :: "'v jsobj \<Rightarrow> string \<Rightarrow> 'v option" where
  "obj_get ob k \<equiv> map_of ob k"

abbreviation obj_set :: "string \<Rightarrow> 'v \<Rightarrow> 'v jsobj \<Rightarrow> 'v jsobj" where
  "obj_set k v ob \<equiv> AList.update k v ob"

abbreviation obj_del :: "string \<Rightarrow> 'v jsobj \<Rightarrow> 'v jsobj" where
  "obj_del k ob \<equiv> AList.delete k ob"

abbreviation obj_keys :: "'v jsobj \<Rightarrow> string list" where
  "obj_keys ob \<equiv> map fst ob"

text \<open>
  A read \<open>o[k]\<close> on an object literal also finds the members of \<open>Object.prototype\<close>,
  which are functions and therefore truthy. \<open>in_table\<close> is the truthiness of such a read
  on a literal whose own values are all truthy.
\<close>

definition object_prototype_names :: "string list" where
  "object_prototype_names =
     [''constructor'', ''__proto__'', ''hasOwnProperty'', ''isPrototypeOf'',
      ''propertyIsEnumerable'', ''toString'', ''toLocaleString'', ''valueOf'',
      ''__defineGetter__'', ''__defineSetter__'', ''__lookupGetter__'', ''__lookupSetter__'']"

definition in_table :: "string list \<Rightarrow> string \<Rightarrow> bool" where
  "in_table keys k \<longleftrightarrow> k \<in> set keys \<or> k \<in> set object_prototype_names"

subsection \<open>Characters\<close>

definition newline :: char where "newline = CHR 0x0A"
definition tab :: char where "tab = CHR 0x09"
definition carriage :: char where "carriage = CHR 0x0D"

definition is_ws :: "char \<Rightarrow> bool" where
  "is_ws c \<longleftrightarrow> c \<in> {CHR '' '', CHR 0x09, CHR 0x0A, CHR 0x0B, CHR 0x0C, CHR 0x0D}"

definition code :: "char \<Rightarrow> nat" where
  "code c = of_char c"

definition is_digit :: "char \<Rightarrow> bool" where
  "is_digit c \<longleftrightarrow> 48 \<le> code c \<and> code c \<le> 57"

definition is_upper :: "char \<Rightarrow> bool" where
  "is_upper c \<longleftrightarrow> 65 \<le> code c \<and> code c \<le> 90"

definition is_lower :: "char \<Rightarrow> bool" where
  "is_lower c \<longleftrightarrow> 97 \<le> code c \<and> code c \<le> 122"

definition is_word :: "char \<Rightarrow> bool" where
  "is_word c \<longleftrightarrow> is_digit c \<or> is_upper c \<or> is_lower c \<or> c = CHR ''_''"

definition lower_char :: "char \<Rightarrow> char" where
  "lower_char c = (if is_upper c then char_of (code c + 32) else c)"

definition upper_char :: "char \<Rightarrow> char" where
  "upper_char c = (if is_lower c then char_of (code c - 32) else c)"

definition toLowerCase :: "string \<Rightarrow> string" where
  "toLowerCase s = map lower_char s"

definition toUpperCase :: "string \<Rightarrow> string" where
  "toUpperCase s = map upper_char s"

lemma lower_char_idem [simp]: "lower_char (lower_char c) = lower_char c"
  by (auto simp: lower_char_def is_upper_def code_def)

lemma toLowerCase_idem [simp]: "toLowerCase (toLowerCase s) = toLowerCase s"
  by (simp add: toLowerCase_def)

lemma toLowerCase_simps [simp]:
  "toLowerCase [] = []"
  "toLowerCase (c # s) = lower_char c # toLowerCase s"
  "toLowerCase (s @ t) = toLowerCase s @ toLowerCase t"
  by (simp_all add: toLowerCase_def)

lemma toUpperCase_simps [simp]:
  "toUpperCase [] = []"
  "toUpperCase (c # s) = upper_char c # toUpperCase s"
  by (simp_all add: toUpperCase_def)

lemmas char_defs [js_eval] = is_ws_def is_digit_def is_upper_def is_lower_def is_word_def
  code_def lower_char_def upper_char_def

subsection \<open>Strings: split, join, decimal printing\<close>

fun split_on :: "char \<Rightarrow> string \<Rightarrow> string list" where
  "split_on d [] = [[]]"
| "split_on d (c # s) =
     (if c = d then [] # split_on d s
      else (case split_on d s of [] \<Rightarrow> [[c]] | w # ws \<Rightarrow> (c # w) # ws))"

fun join :: "string \<Rightarrow> string list \<Rightarrow> string" where
  "join sep [] = []"
| "join sep [x] = x"
| "join sep (x # y # xs) = x @ sep @ join sep (y # xs)"

lemma split_on_not_Nil [simp]: "split_on d s \<noteq> []"
  by (induction s) (auto split: list.splits)

lemma join_Cons: "join sep (x # xs) = x @ (if xs = [] then [] else sep @ join sep xs)"
  by (cases xs) auto

lemma join_split_on: "join [d] (split_on d s) = s"
  by (induction s) (auto simp: join_Cons split: list.splits)

lemma split_on_no_sep: "w \<in> set (split_on d s) \<Longrightarrow> d \<notin> set w"
  by (induction s arbitrary: w) (auto split: if_splits list.splits)

definition digit_char :: "nat \<Rightarrow> char" where
  "digit_char d = char_of (48 + d)"

fun nat_str :: "nat \<Rightarrow> string" where
  "nat_str n = (if n < 10 then [digit_char n] else nat_str (n div 10) @ [digit_char (n mod 10)])"

declare nat_str.simps [simp del]

definition int_str :: "int \<Rightarrow> string" where
  "int_str i = (if i < 0 then CHR ''-'' # nat_str (nat (- i)) else nat_str (nat i))"

text \<open>\<open>Number.prototype.toString(16)\<close> on a non-negative integer.\<close>

definition hex_char :: "nat \<Rightarrow> char" where
  "hex_char d = (if d < 10 then char_of (48 + d) else char_of (87 + d))"

fun hex_str :: "nat \<Rightarrow> string" where
  "hex_str n = (if n < 16 then [hex_char n] else hex_str (n div 16) @ [hex_char (n mod 16)])"

declare hex_str.simps [simp del]

lemma nat_str_not_Nil [simp]: "nat_str n \<noteq> []"
  by (subst nat_str.simps) simp

subsection \<open>Arrays\<close>

text \<open>\<open>a.splice(i, n, items)\<close> on an index inside the array.\<close>

definition splice_at :: "nat \<Rightarrow> nat \<Rightarrow> 'a list \<Rightarrow> 'a list \<Rightarrow> 'a list" where
  "splice_at i n items xs = take i xs @ items @ drop (i + n) xs"

definition nth_opt :: "'a list \<Rightarrow> nat \<Rightarrow> 'a option" where
  "nth_opt xs i = (if i < length xs then Some (xs ! i) else None)"

text \<open>The first index that holds an element, as the source's scanning loops compute it.\<close>

fun index_of :: "'a \<Rightarrow> 'a list \<Rightarrow> nat option" where
  "index_of x [] = None"
| "index_of x (y # ys) = (if y = x then Some 0 else map_option Suc (index_of x ys))"

lemma index_of_None [simp]: "index_of x xs = None \<longleftrightarrow> x \<notin> set xs"
  by (induction xs) auto

lemma index_of_SomeD:
  "index_of x xs = Some i \<Longrightarrow> i < length xs \<and> xs ! i = x \<and> x \<notin> set (take i xs)"
  by (induction xs arbitrary: i) (auto split: if_splits)

lemma index_of_append_notin:
  "x \<notin> set xs \<Longrightarrow> index_of x (xs @ x # ys) = Some (length xs)"
  by (induction xs) auto

lemma nth_opt_Some [simp]: "nth_opt xs i = Some x \<longleftrightarrow> i < length xs \<and> xs ! i = x"
  by (auto simp: nth_opt_def)

lemma nth_opt_None [simp]: "nth_opt xs i = None \<longleftrightarrow> length xs \<le> i"
  by (auto simp: nth_opt_def)

lemma splice_at_remove:
  "splice_at (length xs) 1 items (xs @ x # ys) = xs @ items @ ys"
  by (simp add: splice_at_def)

lemma splice_at_insert:
  "splice_at (length xs) 0 items (xs @ ys) = xs @ items @ ys"
  by (simp add: splice_at_def)

lemma obj_set_new: "k \<notin> fst ` set ob \<Longrightarrow> obj_set k v ob = ob @ [(k, v)]"
  by (induction ob) auto

lemma obj_get_set: "obj_get (obj_set k v ob) j = (if j = k then Some v else obj_get ob j)"
  by (simp add: update_conv)

lemma obj_get_del: "obj_get (obj_del k ob) j = (if j = k then None else obj_get ob j)"
  by (simp add: delete_conv)

end
