(* ===== verification/JsRegExp.thy ===== *)
theory JsRegExp
  imports Prelude
begin

text \<open>
  The part of the JavaScript regular expressions that the modelled sources use, with the
  backtracking semantics of the language: a matcher returns every way to match at a
  position, in the order in which the language tries them, and the first one is the match.
  A repetition rejects an iteration that consumes nothing, as the language does.
  \<open>exec\<close> searches from a position, \<open>replace_all\<close> is \<open>String.replace\<close> with a
  global expression and a replacement function, \<open>exec_all\<close> the list of matches that a
  loop \<open>while (m = re.exec(s))\<close> visits. The sources' expressions are translated
  constructor by constructor with the names below.
\<close>

datatype re =
    Eps
  | Cls "char \<Rightarrow> bool"
  | Seq re re
  | Alt re re
  | Star bool re           \<comment> \<open>greedy flag\<close>
  | Cap nat re
  | Bol
  | Eol
  | Look re                \<comment> \<open>\<open>(?=r)\<close>\<close>
  | NLook re               \<comment> \<open>\<open>(?!r)\<close>\<close>
  | Wb                     \<comment> \<open>\<open>\b\<close>\<close>

type_synonym caps = "(nat \<times> string) list"

text \<open>A matcher state: the consumed part of the text (reversed), the rest, the captures.\<close>

type_synonym mstate = "string \<times> string \<times> caps"

abbreviation st_rest :: "mstate \<Rightarrow> string" where
  "st_rest s \<equiv> fst (snd s)"

fun star_iter :: "(mstate \<Rightarrow> mstate list) \<Rightarrow> bool \<Rightarrow> nat \<Rightarrow> mstate \<Rightarrow> mstate list" where
  "star_iter f greedy 0 s = [s]"
| "star_iter f greedy (Suc n) s =
     (let again = concat (map (\<lambda>t. if length (st_rest t) < length (st_rest s)
                                    then star_iter f greedy n t else []) (f s))
      in if greedy then again @ [s] else s # again)"

fun step_cls :: "(char \<Rightarrow> bool) \<Rightarrow> mstate \<Rightarrow> mstate list" where
  "step_cls P (pre, [], cs) = []"
| "step_cls P (pre, x # xs, cs) = (if P x then [(x # pre, xs, cs)] else [])"

definition set_cap :: "nat \<Rightarrow> string \<Rightarrow> mstate \<Rightarrow> mstate" where
  "set_cap n rest t = (case t of (pre, rest', cs) \<Rightarrow>
     (pre, rest', (n, take (length rest - length rest') rest) # cs))"

primrec m :: "re \<Rightarrow> mstate \<Rightarrow> mstate list" where
  "m Eps s = [s]"
| "m (Cls P) s = step_cls P s"
| "m (Seq a b) s = concat (map (m b) (m a s))"
| "m (Alt a b) s = m a s @ m b s"
| "m (Star g r) s = star_iter (m r) g (length (st_rest s)) s"
| "m (Cap n r) s = map (set_cap n (st_rest s)) (m r s)"
| "m Bol s = (if fst s = [] then [s] else [])"
| "m Eol s = (if st_rest s = [] then [s] else [])"
| "m (Look r) s = (case m r s of [] \<Rightarrow> [] | t # _ \<Rightarrow> [(fst s, st_rest s, snd (snd t))])"
| "m (NLook r) s = (if m r s = [] then [s] else [])"
| "m Wb s = (if (fst s \<noteq> [] \<and> is_word (hd (fst s))) \<noteq> (st_rest s \<noteq> [] \<and> is_word (hd (st_rest s))) then [s] else [])"

subsection \<open>Constructors for the notation of the sources\<close>

fun seqs :: "re list \<Rightarrow> re" where
  "seqs [] = Eps" | "seqs [r] = r" | "seqs (r # rs) = Seq r (seqs rs)"

fun alts :: "re list \<Rightarrow> re" where
  "alts [] = Eps" | "alts [r] = r" | "alts (r # rs) = Alt r (alts rs)"

definition chr :: "char \<Rightarrow> re" where "chr c = Cls (\<lambda>x. x = c)"
definition cls :: "string \<Rightarrow> re" where "cls s = Cls (\<lambda>x. x \<in> set s)"
definition ncls :: "string \<Rightarrow> re" where "ncls s = Cls (\<lambda>x. x \<notin> set s)"
definition lit :: "string \<Rightarrow> re" where "lit s = seqs (map chr s)"
definition lit_i :: "string \<Rightarrow> re" where
  "lit_i s = seqs (map (\<lambda>c. Cls (\<lambda>x. lower_char x = lower_char c)) s)"
definition many :: "re \<Rightarrow> re" where "many r = Star True r"
definition some :: "re \<Rightarrow> re" where "some r = Seq r (Star True r)"
definition opt :: "re \<Rightarrow> re" where "opt r = Alt r Eps"
definition lazy :: "re \<Rightarrow> re" where "lazy r = Star False r"
definition anychar :: re where "anychar = Cls (\<lambda>x. x \<noteq> newline \<and> x \<noteq> carriage)"
definition allchar :: re where "allchar = Cls (\<lambda>x. True)"
definition ws :: re where "ws = Cls is_ws"
definition digit :: re where "digit = Cls is_digit"
definition word :: re where "word = Cls is_word"

lemmas re_defs [js_eval] = chr_def cls_def ncls_def lit_def lit_i_def many_def some_def opt_def
  lazy_def anychar_def allchar_def ws_def digit_def word_def

subsection \<open>A match consumes a prefix of the rest\<close>

definition extends :: "mstate \<Rightarrow> mstate \<Rightarrow> bool" where
  "extends s t \<longleftrightarrow> (\<exists>w. st_rest s = w @ st_rest t \<and> fst t = rev w @ fst s)"

lemma extends_refl [simp]: "extends s s"
  by (simp add: extends_def)

lemma extends_trans: "extends s t \<Longrightarrow> extends t u \<Longrightarrow> extends s u"
  by (fastforce simp: extends_def)

lemma extends_length: "extends s t \<Longrightarrow> length (st_rest t) \<le> length (st_rest s)"
  by (auto simp: extends_def)

lemma extends_set_cap [simp]: "extends s (set_cap n r t) = extends s t"
  by (simp add: extends_def set_cap_def split: prod.splits)

lemma star_iter_extends:
  assumes f: "\<And>s t. t \<in> set (f s) \<Longrightarrow> extends s t"
  shows "t \<in> set (star_iter f g n s) \<Longrightarrow> extends s t"
proof (induction n arbitrary: s)
  case 0
  then show ?case by simp
next
  case (Suc n)
  then consider "t = s" | u where "u \<in> set (f s)" "t \<in> set (star_iter f g n u)"
    by (auto simp: Let_def split: if_splits)
  then show ?case
    by cases (auto intro: extends_trans f Suc.IH)
qed

lemma step_cls_extends: "t \<in> set (step_cls P s) \<Longrightarrow> extends s t"
  by (cases "(P, s)" rule: step_cls.cases) (auto simp: extends_def split: if_splits)

lemma m_extends: "t \<in> set (m r s) \<Longrightarrow> extends s t"
proof (induction r arbitrary: s t)
  case (Star g r)
  from Star.prems have "t \<in> set (star_iter (m r) g (length (st_rest s)) s)" by simp
  then show ?case by (rule star_iter_extends [rotated]) (rule Star.IH)
next
  case (Seq a b)
  then obtain u where "u \<in> set (m a s)" "t \<in> set (m b u)" by auto
  then show ?case by (blast intro: extends_trans Seq.IH)
next
  case (Look r)
  then show ?case by (auto simp: extends_def split: list.splits)
qed (auto simp: step_cls_extends split: if_splits)

subsection \<open>Searching and replacing\<close>

text \<open>
  \<open>exec\<close> returns the text skipped before the match, the matched text, the state after
  the match: its consumed text, its rest and its captures.
\<close>

fun exec :: "re \<Rightarrow> string \<Rightarrow> string \<Rightarrow> (string \<times> string \<times> string \<times> string \<times> caps) option" where
  "exec r pre rest = (case m r (pre, rest, []) of
     (pre', rest', cs) # _ \<Rightarrow>
       Some ([], take (length rest - length rest') rest, pre', rest', cs)
   | [] \<Rightarrow> (case rest of
       [] \<Rightarrow> None
     | x # xs \<Rightarrow> map_option (\<lambda>(b, t). (x # b, t)) (exec r (x # pre) xs)))"

declare exec.simps [simp del]

lemma exec_split:
  "exec r pre rest = Some (b, mt, pre', rest', cs) \<Longrightarrow>
     rest = b @ mt @ rest' \<and> pre' = rev mt @ rev b @ pre"
proof (induction r pre rest arbitrary: b rule: exec.induct)
  case (1 r pre rest)
  show ?case
  proof (cases "m r (pre, rest, [])")
    case Nil
    with "1.prems" "1.IH" show ?thesis
      by (subst (asm) exec.simps) (fastforce split: list.splits)
  next
    case (Cons t ts)
    then have "extends (pre, rest, []) t" by (simp add: m_extends [of _ r])
    with Cons "1.prems" show ?thesis
      by (subst (asm) exec.simps) (cases t, auto simp: extends_def)
  qed
qed

function replace_all :: "re \<Rightarrow> (string \<Rightarrow> caps \<Rightarrow> string) \<Rightarrow> string \<Rightarrow> string \<Rightarrow> string" where
  "replace_all r f pre rest = (case exec r pre rest of
     None \<Rightarrow> rest
   | Some (b, mt, pre', rest', cs) \<Rightarrow>
       b @ f mt cs @
       (if mt = []
        then (case rest' of [] \<Rightarrow> [] | y # ys \<Rightarrow> y # replace_all r f (y # pre') ys)
        else replace_all r f pre' rest'))"
  by pat_completeness auto
termination
  by (relation "measure (\<lambda>(r, f, pre, rest). length rest)")
    (auto dest!: exec_split sym [of "Some _"])

declare replace_all.simps [simp del]

function exec_all :: "re \<Rightarrow> string \<Rightarrow> string \<Rightarrow> (string \<times> string \<times> caps) list \<times> string" where
  "exec_all r pre rest = (case exec r pre rest of
     None \<Rightarrow> ([], rest)
   | Some (b, mt, pre', rest', cs) \<Rightarrow>
       if mt = [] then ([], rest)
       else (case exec_all r pre' rest' of (ms, rem) \<Rightarrow> ((b, mt, cs) # ms, rem)))"
  by pat_completeness auto
termination
  by (relation "measure (\<lambda>(r, pre, rest). length rest)")
    (auto dest!: exec_split sym [of "Some _"])

declare exec_all.simps [simp del]

definition replace :: "re \<Rightarrow> (string \<Rightarrow> caps \<Rightarrow> string) \<Rightarrow> string \<Rightarrow> string" where
  "replace r f s = replace_all r f [] s"

definition replace_first :: "re \<Rightarrow> (string \<Rightarrow> caps \<Rightarrow> string) \<Rightarrow> string \<Rightarrow> string" where
  "replace_first r f s = (case exec r [] s of
     None \<Rightarrow> s | Some (b, mt, pre', rest', cs) \<Rightarrow> b @ f mt cs @ rest')"

definition test :: "re \<Rightarrow> string \<Rightarrow> bool" where
  "test r s \<longleftrightarrow> exec r [] s \<noteq> None"

definition match_caps :: "re \<Rightarrow> string \<Rightarrow> caps option" where
  "match_caps r s = map_option (\<lambda>(b, mt, pre', rest', cs). (0, mt) # cs) (exec r [] s)"

text \<open>A capture that took no part in the match is \<open>undefined\<close>.\<close>

definition cap :: "nat \<Rightarrow> caps \<Rightarrow> string option" where
  "cap n cs = map_of cs n"

text \<open>
  \<open>s.split(re)\<close> for an expression without captures whose matches are not empty: the
  pieces between the matches.
\<close>

definition split_re :: "re \<Rightarrow> string \<Rightarrow> string list" where
  "split_re r s = (case exec_all r [] s of (ms, rem) \<Rightarrow> map fst ms @ [rem])"

subsection \<open>Unfolding lemmas\<close>

lemma exec_Cons_skip:
  "m r (pre, x # xs, []) = [] \<Longrightarrow>
     exec r pre (x # xs) = map_option (\<lambda>(b, t). (x # b, t)) (exec r (x # pre) xs)"
  by (subst exec.simps) simp

lemma exec_here:
  "m r (pre, rest, []) = (pre', rest', cs) # ts \<Longrightarrow>
     exec r pre rest = Some ([], take (length rest - length rest') rest, pre', rest', cs)"
  by (subst exec.simps) simp

lemma exec_Nil_none: "m r (pre, [], []) = [] \<Longrightarrow> exec r pre [] = None"
  by (subst exec.simps) simp

lemma replace_all_skip:
  assumes "m r (pre, x # xs, []) = []"
  shows "replace_all r f pre (x # xs) = x # replace_all r f (x # pre) xs"
proof (cases "exec r (x # pre) xs")
  case None
  then show ?thesis
    by (simp add: replace_all.simps [of r f pre] replace_all.simps [of r f "x # pre"]
        exec_Cons_skip [OF assms])
next
  case (Some t)
  then show ?thesis
    by (cases t) (simp add: replace_all.simps [of r f pre] replace_all.simps [of r f "x # pre"]
        exec_Cons_skip [OF assms])
qed

lemma replace_all_here:
  assumes "m r (pre, rest, []) = (pre', rest', cs) # ts" "length rest' < length rest"
  shows "replace_all r f pre rest =
    f (take (length rest - length rest') rest) cs @ replace_all r f pre' rest'"
proof -
  have "take (length rest - length rest') rest \<noteq> []" using assms(2) by auto
  with assms show ?thesis by (subst replace_all.simps) (simp add: exec_here)
qed

lemma replace_all_Nil:
  "m r (pre, [], []) = [] \<Longrightarrow> replace_all r f pre [] = []"
  by (subst replace_all.simps) (simp add: exec_Nil_none)

lemma exec_none_iff:
  "exec r pre rest = None \<longleftrightarrow>
     (\<forall>a b. rest = a @ b \<longrightarrow> m r (rev a @ pre, b, []) = [])"
proof (induction rest arbitrary: pre)
  case Nil
  then show ?case by (subst exec.simps) (auto split: list.splits)
next
  case (Cons x xs)
  show ?case
  proof (cases "m r (pre, x # xs, [])")
    case Nil
    have "exec r pre (x # xs) = None \<longleftrightarrow>
        (\<forall>a b. xs = a @ b \<longrightarrow> m r (rev (x # a) @ pre, b, []) = [])"
      using Nil Cons.IH [of "x # pre"] by (simp add: exec_Cons_skip)
    also have "\<dots> \<longleftrightarrow> (\<forall>a b. x # xs = a @ b \<longrightarrow> m r (rev a @ pre, b, []) = [])"
      (is "?L \<longleftrightarrow> ?R")
    proof
      assume L: ?L
      show ?R
      proof (intro allI impI)
        fix a b assume "x # xs = a @ b"
        with L Nil show "m r (rev a @ pre, b, []) = []" by (cases a) auto
      qed
    next
      assume R: ?R
      show ?L using R [rule_format, of "x # _"] by simp
    qed
    finally show ?thesis .
  next
    case (Cons t ts)
    then have "m r (rev [] @ pre, x # xs, []) \<noteq> []" "x # xs = [] @ x # xs" by simp_all
    then have "\<not> (\<forall>a b. x # xs = a @ b \<longrightarrow> m r (rev a @ pre, b, []) = [])" by blast
    with Cons show ?thesis by (cases t) (simp add: exec_here)
  qed
qed

lemma replace_none: "exec r [] s = None \<Longrightarrow> replace r f s = s"
  by (simp add: replace_def replace_all.simps [of r f "[]" s])

lemmas m_Star = m.simps(5)
declare m.simps(5) [simp del]

text \<open>A greedy repetition of a character class: every prefix of the run, the longest first.\<close>

lemma star_iter_cls:
  "star_iter (step_cls P) True (length rest) (pre, rest, cs) =
     map (\<lambda>k. (rev (take k rest) @ pre, drop k rest, cs))
       (rev [0..<Suc (length (takeWhile P rest))])"
proof (induction rest arbitrary: pre)
  case Nil
  then show ?case by simp
next
  case (Cons x xs)
  show ?case
  proof (cases "P x")
    case False
    then show ?thesis by simp
  next
    case True
    let ?n = "length (takeWhile P xs)"
    have "rev [0..<Suc (Suc ?n)] = map Suc (rev [0..<Suc ?n]) @ [0]"
      by (metis map_Suc_upt rev.simps(2) rev_map upt_rec zero_less_Suc)
    then show ?thesis using True Cons.IH [of "x # pre"]
      by (simp del: upt_Suc)
  qed
qed

lemma m_Cls: "m (Cls P) = step_cls P"
  by (rule ext) simp

lemma m_many_cls:
  "m (Star True (Cls P)) (pre, rest, cs) =
     map (\<lambda>k. (rev (take k rest) @ pre, drop k rest, cs))
       (rev [0..<Suc (length (takeWhile P rest))])"
  using star_iter_cls [of P rest pre cs] by (simp add: m_Star m_Cls del: upt_Suc)

lemma m_many_cls_hd:
  "\<exists>ts. m (Star True (Cls P)) (pre, rest, cs) =
     (rev (takeWhile P rest) @ pre, dropWhile P rest, cs) # ts"
proof -
  have "take (length (takeWhile P rest)) rest = takeWhile P rest"
    by (metis takeWhile_eq_take)
  then show ?thesis
    by (simp add: m_many_cls dropWhile_eq_drop)
qed

lemma m_seq_Nil: "m a s = [] \<Longrightarrow> m (Seq a b) s = []"
  by simp

lemma m_chr: "m (chr c) (pre, rest, cs) =
    (case rest of x # xs \<Rightarrow> if x = c then [(x # pre, xs, cs)] else [] | [] \<Rightarrow> [])"
  by (cases rest) (auto simp: chr_def)

lemma m_seqs_Cons: "m (seqs (r # rs)) s = concat (map (m (seqs rs)) (m r s))"
proof -
  have "concat (map (m Eps) xs) = xs" for xs by (induction xs) auto
  then show ?thesis by (cases rs) simp_all
qed

lemma m_lit:
  "m (lit w) (pre, rest, cs) =
     (if take (length w) rest = w then [(rev w @ pre, drop (length w) rest, cs)] else [])"
proof (induction w arbitrary: pre rest)
  case Nil
  then show ?case by (simp add: lit_def)
next
  case (Cons c w)
  then show ?case
    by (cases rest) (auto simp: lit_def m_seqs_Cons m_chr simp del: seqs.simps(3))
qed

lemma m_SeqE:
  assumes "t \<in> set (m (Seq a b) s)"
  obtains u where "u \<in> set (m a s)" "t \<in> set (m b u)"
  using assms by auto

text \<open>
  \<open>reads r w f\<close>: the expression matches exactly the word \<open>w\<close>, in one way, and changes the
  captures by \<open>f\<close>. Such expressions compose.
\<close>

definition reads :: "re \<Rightarrow> string \<Rightarrow> (caps \<Rightarrow> caps) \<Rightarrow> bool" where
  "reads r w f \<longleftrightarrow> (\<forall>pre s cs. m r (pre, s, cs) =
     (if take (length w) s = w then [(rev w @ pre, drop (length w) s, f cs)] else []))"

lemma reads_lit: "reads (lit w) w (\<lambda>cs. cs)"
  by (simp add: reads_def m_lit)

lemma reads_Cap: "reads r w f \<Longrightarrow> reads (Cap k r) w (\<lambda>cs. (k, w) # f cs)"
  unfolding reads_def
proof (intro allI)
  fix pre s cs
  assume r: "\<forall>pre s cs. m r (pre, s, cs) =
     (if take (length w) s = w then [(rev w @ pre, drop (length w) s, f cs)] else [])"
  show "m (Cap k r) (pre, s, cs) =
     (if take (length w) s = w then [(rev w @ pre, drop (length w) s, (k, w) # f cs)] else [])"
  proof (cases "take (length w) s = w")
    case True
    then have "length w \<le> length s" by (metis length_take min.cobounded2 min.commute)
    with True r show ?thesis by (simp add: set_cap_def)
  qed (simp add: r)
qed

lemma reads_Seq: "reads a v f \<Longrightarrow> reads b w g \<Longrightarrow> reads (Seq a b) (v @ w) (\<lambda>cs. g (f cs))"
  unfolding reads_def
proof (intro allI)
  fix pre s cs
  assume a: "\<forall>pre s cs. m a (pre, s, cs) =
     (if take (length v) s = v then [(rev v @ pre, drop (length v) s, f cs)] else [])"
    and b: "\<forall>pre s cs. m b (pre, s, cs) =
     (if take (length w) s = w then [(rev w @ pre, drop (length w) s, g cs)] else [])"
  have "take (length (v @ w)) s = v @ w \<longleftrightarrow>
      take (length v) s = v \<and> take (length w) (drop (length v) s) = w"
  proof -
    have "length (take (length v) s) = length v" if "take (length v) s @ u = v @ w" "length u \<le> length w" for u
      using arg_cong [OF that(1), of length] that(2) by simp
    from this [of "take (length w) (drop (length v) s)"] show ?thesis
      by (auto simp: take_add)
  qed
  then show "m (Seq a b) (pre, s, cs) = (if take (length (v @ w)) s = v @ w
      then [(rev (v @ w) @ pre, drop (length (v @ w)) s, g (f cs))] else [])"
    by (simp add: a b add.commute)
qed

end
