(* ===== verification/Utils.thy ===== *)
theory Utils
  imports JsRegExp "HOL-Library.Multiset"
begin

text \<open>
  \<open>core/utils.js\<close> of the editor (in \<open>web/system/ueditor_jsp/ueditor.all.js\<close>): the array and
  object helpers, the HTML escaping functions, trimming, sorting, cloning and the
  serialisers. The properties are: escaping is idempotent and undone by \<open>html\<close>, what
  escaping guarantees and where it does not escape, the array helpers against their
  list specifications, the exchange sort, and cloning.
\<close>

subsection \<open>JavaScript values\<close>

text \<open>
  The values that the generic helpers walk over. A number is an integer or not finite
  (\<open>None\<close>).
\<close>

datatype jsval =
    JUndef | JNull | JBool bool | JNum "int option" | JStr string | JFun
  | JDate | JArr "jsval list" | JObj "(string \<times> jsval) list"

fun typeof :: "jsval \<Rightarrow> string" where
  "typeof JUndef = ''undefined''"
| "typeof (JBool _) = ''boolean''"
| "typeof (JNum _) = ''number''"
| "typeof (JStr _) = ''string''"
| "typeof JFun = ''function''"
| "typeof _ = ''object''"

text \<open>\<open>Object.prototype.toString\<close> names the class; the seven predicates \<open>isString\<close>,
  \<open>isFunction\<close>, ... are generated from it.\<close>

fun class_of :: "jsval \<Rightarrow> string" where
  "class_of JUndef = ''Undefined''"
| "class_of JNull = ''Null''"
| "class_of (JBool _) = ''Boolean''"
| "class_of (JNum _) = ''Number''"
| "class_of (JStr _) = ''String''"
| "class_of JFun = ''Function''"
| "class_of JDate = ''Date''"
| "class_of (JArr _) = ''Array''"
| "class_of (JObj _) = ''Object''"

definition is_class :: "string \<Rightarrow> jsval \<Rightarrow> bool" where
  "is_class v ob \<longleftrightarrow> ''[object '' @ class_of ob @ '']'' = ''[object '' @ v @ '']''"

abbreviation isArray :: "jsval \<Rightarrow> bool" where "isArray \<equiv> is_class ''Array''"
abbreviation isString :: "jsval \<Rightarrow> bool" where "isString \<equiv> is_class ''String''"
abbreviation isDate :: "jsval \<Rightarrow> bool" where "isDate \<equiv> is_class ''Date''"

definition isEmptyObject :: "jsval \<Rightarrow> bool" where
  "isEmptyObject ob = (case ob of
     JUndef \<Rightarrow> True
   | JNull \<Rightarrow> True
   | JArr xs \<Rightarrow> length xs = 0
   | JStr s \<Rightarrow> length s = 0
   | JObj kvs \<Rightarrow> kvs = []
   | _ \<Rightarrow> True)"

subsection \<open>Iteration, objects and arrays\<close>

text \<open>
  \<open>each\<close> over an array: the callback gets the element and its index and may stop the
  walk by returning \<open>false\<close>; the result says whether the walk went to the end. The
  array is read once, so a callback that changes the array is outside this definition.
\<close>

fun each_from :: "('s \<Rightarrow> 'a \<Rightarrow> nat \<Rightarrow> 's \<times> bool) \<Rightarrow> nat \<Rightarrow> 'a list \<Rightarrow> 's \<Rightarrow> 's \<times> bool" where
  "each_from f i [] s = (s, True)"
| "each_from f i (x # xs) s =
     (case f s x i of (s', go) \<Rightarrow> if go then each_from f (Suc i) xs s' else (s', False))"

definition each :: "('s \<Rightarrow> 'a \<Rightarrow> nat \<Rightarrow> 's \<times> bool) \<Rightarrow> 'a list \<Rightarrow> 's \<Rightarrow> 's \<times> bool" where
  "each f xs s = each_from f 0 xs s"

fun each_obj :: "('s \<Rightarrow> 'a \<Rightarrow> string \<Rightarrow> 's \<times> bool) \<Rightarrow> 'a jsobj \<Rightarrow> 's \<Rightarrow> 's \<times> bool" where
  "each_obj f [] s = (s, True)"
| "each_obj f ((k, v) # ob) s =
     (case f s v k of (s', go) \<Rightarrow> if go then each_obj f ob s' else (s', False))"

definition extend :: "'v jsobj \<Rightarrow> 'v jsobj \<Rightarrow> bool \<Rightarrow> 'v jsobj" where
  "extend t s b =
     foldl (\<lambda>t (k, v). if \<not> b \<or> k \<notin> set (obj_keys t) then obj_set k v t else t) t s"

definition extend2 :: "'v jsobj \<Rightarrow> 'v jsobj list \<Rightarrow> 'v jsobj" where
  "extend2 t xs =
     foldl (\<lambda>t x. foldl (\<lambda>t (k, v). if k \<notin> set (obj_keys t) then obj_set k v t else t) t x) t xs"

definition indexOf :: "'a list \<Rightarrow> 'a \<Rightarrow> nat option \<Rightarrow> int" where
  "indexOf array item start =
     (let st = (case start of Some n \<Rightarrow> n | None \<Rightarrow> 0)
      in fst (each (\<lambda>index v i. if i \<ge> st \<and> v = item then (int i, False) else (index, True))
                array (- 1)))"

text \<open>
  \<open>removeItem\<close>: the bound \<open>l\<close> is the length before the loop, the read \<open>array[i]\<close> past
  the end of the shortened array is \<open>undefined\<close>. \<open>i - 1\<close> followed by the loop's
  increment is written as staying at \<open>i\<close>.
\<close>

function removeItem_from :: "nat \<Rightarrow> nat \<Rightarrow> 'a list \<Rightarrow> 'a \<Rightarrow> 'a list" where
  "removeItem_from i l array item =
     (if i < l
      then (if nth_opt array i = Some item
            then removeItem_from i l (splice_at i 1 [] array) item
            else removeItem_from (Suc i) l array item)
      else array)"
  by pat_completeness auto
termination
  by (relation "measure (\<lambda>(i, l, array, item). (l - i) + length array)")
    (auto simp: splice_at_def)

declare removeItem_from.simps [simp del]

definition removeItem :: "'a list \<Rightarrow> 'a \<Rightarrow> 'a list" where
  "removeItem array item = removeItem_from 0 (length array) array item"

text \<open>The loop \<open>ci = list[i++]\<close> stops at the first empty string.\<close>

fun listToMap_loop :: "string list \<Rightarrow> bool jsobj \<Rightarrow> bool jsobj" where
  "listToMap_loop [] ob = ob"
| "listToMap_loop (ci # cs) ob =
     (if ci = [] then ob
      else listToMap_loop cs (obj_set (toUpperCase ci) True (obj_set ci True ob)))"

definition listToMap :: "string + string list \<Rightarrow> bool jsobj" where
  "listToMap lst = (case lst of
     Inl s \<Rightarrow> if s = [] then [] else listToMap_loop (split_on CHR '','' s) []
   | Inr xs \<Rightarrow> listToMap_loop xs [])"

definition clearEmptyAttrs :: "string jsobj \<Rightarrow> string jsobj" where
  "clearEmptyAttrs ob = foldl (\<lambda>t p. if obj_get t p = Some [] then obj_del p t else t) ob (obj_keys ob)"

subsection \<open>Strings\<close>

definition quote :: char where "quote = CHR 0x22"
definition apos :: char where "apos = CHR 0x27"

definition blank4 :: "char \<Rightarrow> bool" where
  "blank4 c \<longleftrightarrow> c \<in> {CHR '' '', tab, newline, carriage}"

definition trim_re :: re where
  "trim_re = Alt (Cap 1 (Seq Bol (some (Cls blank4)))) (Cap 2 (Seq (some (Cls blank4)) Eol))"

definition trim :: "string \<Rightarrow> string" where
  "trim str = replace trim_re (\<lambda>mt cs. []) str"

definition entity_name :: re where
  "entity_name = Cap 1 (alts [lit ''amp'', lit ''lt'', lit ''quot'', lit ''gt'', lit ''#39'',
      lit ''nbsp'', Seq (chr CHR ''#'') (some digit)])"

definition entity_re :: re where
  "entity_re = Seq entity_name (chr CHR '';'')"

definition unhtml_re :: re where
  "unhtml_re = Seq (cls [CHR ''&'', CHR ''<'', quote, CHR ''>'', apos]) (opt entity_re)"

definition unhtml_table :: "(string \<times> string) list" where
  "unhtml_table =
     [(''<'', ''&lt;''), (''&'', ''&amp;''), ([quote], ''&quot;''), (''>'', ''&gt;''),
      ([apos], ''&#39;'')]"

definition unhtml_repl :: "string \<Rightarrow> caps \<Rightarrow> string" where
  "unhtml_repl a cs = (case cap 1 cs of
      Some b \<Rightarrow> if b \<noteq> [] then a else (case map_of unhtml_table a of Some e \<Rightarrow> e | None \<Rightarrow> ''undefined'')
    | None \<Rightarrow> (case map_of unhtml_table a of Some e \<Rightarrow> e | None \<Rightarrow> ''undefined''))"

definition unhtml_reg :: "re \<Rightarrow> string \<Rightarrow> string" where
  "unhtml_reg reg str = (if str = [] then [] else replace reg unhtml_repl str)"

definition unhtml :: "string \<Rightarrow> string" where
  "unhtml str = unhtml_reg unhtml_re str"

definition unhtmlForUrl :: "string \<Rightarrow> string" where
  "unhtmlForUrl str = (if str = [] then []
     else replace (cls [CHR ''<'', quote, CHR ''>'', apos])
       (\<lambda>a cs. case map_of unhtml_table a of Some e \<Rightarrow> e | None \<Rightarrow> ''undefined'') str)"

definition html_re :: re where
  "html_re = seqs [chr CHR ''&'',
     Cap 1 (alts [Seq (Cap 2 (alts [lit ''g'', lit ''l'', lit ''quo''])) (lit ''t''),
       lit ''amp'', lit ''#39'', lit ''nbsp'']),
     chr CHR '';'']"

definition html_table :: "(string \<times> string) list" where
  "html_table =
     [(''&lt;'', ''<''), (''&amp;'', ''&''), (''&quot;'', [quote]), (''&gt;'', ''>''),
      (''&#39;'', [apos]), (''&nbsp;'', '' '')]"

definition html :: "string \<Rightarrow> string" where
  "html str = (if str = [] then []
     else replace html_re
       (\<lambda>a cs. case map_of html_table a of Some e \<Rightarrow> e | None \<Rightarrow> ''undefined'') str)"

text \<open>
  \<open>cssStyleToDomStyle\<close> with its cache; \<open>float_name\<close> is what the browser calls the
  style property \<open>float\<close>.
\<close>

definition css_camel :: "string \<Rightarrow> string" where
  "css_camel cssName = replace (Seq (chr CHR ''-'') anychar)
     (\<lambda>mt cs. toUpperCase (drop 1 mt)) (toLowerCase cssName)"

definition css_cache_init :: "string \<Rightarrow> string jsobj" where
  "css_cache_init float_name = [(''float'', float_name)]"

definition cssStyleToDomStyle :: "string jsobj \<Rightarrow> string \<Rightarrow> string \<times> string jsobj" where
  "cssStyleToDomStyle cache cssName = (case obj_get cache cssName of
      Some (c # cs) \<Rightarrow> (c # cs, cache)
    | _ \<Rightarrow> (css_camel cssName, obj_set cssName (css_camel cssName) cache))"

definition formatUrl :: "string \<Rightarrow> string" where
  "formatUrl url =
    (let u = replace (lit ''&&'') (\<lambda>_ _. ''&'') url;
         u = replace (lit ''?&'') (\<lambda>_ _. ''?'') u;
         u = replace (Seq (chr CHR ''&'') Eol) (\<lambda>_ _. []) u;
         u = replace (lit ''&#'') (\<lambda>_ _. ''#'') u;
         u = replace (some (chr CHR ''&'')) (\<lambda>_ _. ''&'') u
     in u)"

text \<open>\<open>parseInt(s, 10)\<close> on a string of digits; \<open>None\<close> is \<open>NaN\<close>.\<close>

definition parse_digits :: "string \<Rightarrow> nat option" where
  "parse_digits s = (if s = [] then None else Some (foldl (\<lambda>n c. 10 * n + (code c - 48)) 0 s))"

definition num_hex :: "nat option \<Rightarrow> string" where
  "num_hex n = (case n of None \<Rightarrow> ''NaN'' | Some k \<Rightarrow> hex_str k)"

fun fixColor_loop :: "string list \<Rightarrow> string \<Rightarrow> string" where
  "fixColor_loop [] val = val"
| "fixColor_loop (color # cs) val =
     (if color = [] then val
      else (let c = num_hex (parse_digits (replace (Cls (\<lambda>x. \<not> is_digit x)) (\<lambda>_ _. []) color))
            in fixColor_loop cs (val @ (if length c = 1 then ''0'' @ c else c))))"

definition fixColor :: "string \<Rightarrow> string \<Rightarrow> string" where
  "fixColor name val =
     (if test (lit_i ''color'') name \<and> test (Seq (lit ''rgb'') (opt (chr CHR ''a''))) val
      then (let array = split_on CHR '','' val
            in if length array > 3 then [] else toUpperCase (fixColor_loop array ''#''))
      else val)"

subsection \<open>Sorting, cloning, serialising\<close>

definition swap :: "nat \<Rightarrow> nat \<Rightarrow> 'a list \<Rightarrow> 'a list" where
  "swap i j xs = xs[i := xs ! j, j := xs ! i]"

fun sort_inner :: "('a \<Rightarrow> 'a \<Rightarrow> int) \<Rightarrow> nat \<Rightarrow> nat list \<Rightarrow> 'a list \<Rightarrow> 'a list" where
  "sort_inner compareFn i [] array = array"
| "sort_inner compareFn i (j # js) array =
     sort_inner compareFn i js
       (if compareFn (array ! i) (array ! j) > 0 then swap i j array else array)"

fun sort_outer :: "('a \<Rightarrow> 'a \<Rightarrow> int) \<Rightarrow> nat list \<Rightarrow> 'a list \<Rightarrow> 'a list" where
  "sort_outer compareFn [] array = array"
| "sort_outer compareFn (i # is) array =
     sort_outer compareFn is (sort_inner compareFn i [i..<length array] array)"

definition sort :: "'a list \<Rightarrow> ('a \<Rightarrow> 'a \<Rightarrow> int) \<Rightarrow> 'a list" where
  "sort array compareFn = sort_outer compareFn [0..<length array] array"

text \<open>
  \<open>clone\<close>: \<open>typeof null\<close> is \<open>object\<close>, so a \<open>null\<close> field is cloned into an empty object,
  and so is a date.
\<close>

fun own_entries :: "jsval \<Rightarrow> (string \<times> jsval) list" where
  "own_entries (JObj kvs) = kvs"
| "own_entries (JArr xs) = zip (map nat_str [0..<length xs]) xs"
| "own_entries _ = []"

fun put :: "jsval \<Rightarrow> string \<Rightarrow> jsval \<Rightarrow> jsval" where
  "put (JObj kvs) k v = JObj (obj_set k v kvs)"
| "put (JArr xs) k v = JArr (xs @ [v])"
| "put t k v = t"

fun clone_val :: "jsval \<Rightarrow> jsval" where
  "clone_val (JArr xs) = JArr (map clone_val xs)"
| "clone_val (JObj kvs) = JObj (map (\<lambda>(k, v). (k, clone_val v)) kvs)"
| "clone_val JNull = JObj []"
| "clone_val JDate = JObj []"
| "clone_val v = v"

definition clone :: "jsval \<Rightarrow> jsval option \<Rightarrow> jsval" where
  "clone source target =
     foldl (\<lambda>t (k, tmp). put t k (if typeof tmp = ''object'' then clone_val tmp else tmp))
       (case target of Some t \<Rightarrow> t | None \<Rightarrow> JObj []) (own_entries source)"

text \<open>
  \<open>encodeURIComponent\<close>: the unreserved characters are kept, every other byte of the
  UTF-8 encoding becomes \<open>%XX\<close>.
\<close>

definition uri_unreserved :: "char \<Rightarrow> bool" where
  "uri_unreserved c \<longleftrightarrow> is_digit c \<or> is_upper c \<or> is_lower c \<or>
     c \<in> set ''-_.!~*()'' \<or> c = apos"

definition hex2 :: "nat \<Rightarrow> string" where
  "hex2 n = toUpperCase [hex_char (n div 16), hex_char (n mod 16)]"

definition encodeURIComponent :: "string \<Rightarrow> string" where
  "encodeURIComponent s =
     concat (map (\<lambda>c. if uri_unreserved c then [c] else CHR ''%'' # hex2 (code c)) s)"

text \<open>String conversion of the primitive values.\<close>

fun to_str :: "jsval \<Rightarrow> string" where
  "to_str JUndef = ''undefined''"
| "to_str JNull = ''null''"
| "to_str (JBool b) = (if b then ''true'' else ''false'')"
| "to_str (JNum (Some n)) = int_str n"
| "to_str (JNum None) = ''NaN''"
| "to_str (JStr s) = s"
| "to_str _ = ''[object Object]''"

definition serialize_one :: "string \<Rightarrow> jsval \<Rightarrow> string list" where
  "serialize_one i v =
     (if i = ''method'' \<or> i = ''timeout'' \<or> i = ''async'' then []
      else if \<not> (toLowerCase (typeof v) = ''function'' \<or> toLowerCase (typeof v) = ''object'')
      then [encodeURIComponent i @ ''='' @ encodeURIComponent (to_str v)]
      else (case v of
          JArr xs \<Rightarrow> map (\<lambda>x. encodeURIComponent i @ ''[]='' @ encodeURIComponent (to_str x)) xs
        | _ \<Rightarrow> []))"

definition serializeParam :: "jsval jsobj \<Rightarrow> string" where
  "serializeParam json = join ''&'' (concat (map (\<lambda>(i, v). serialize_one i v) json))"

subsection \<open>The array helpers against their list specifications\<close>

lemma removeItem_from_filter:
  "i \<le> length array \<Longrightarrow> length array \<le> l \<Longrightarrow>
     removeItem_from i l array item = take i array @ filter (\<lambda>x. x \<noteq> item) (drop i array)"
proof (induction i l array item rule: removeItem_from.induct)
  case (1 i l array item)
  show ?case
  proof (cases "i < length array")
    case False
    with "1.prems" have i: "i = length array" by simp
    show ?thesis
    proof (cases "i < l")
      case True
      have n: "nth_opt array i = None" using i by simp
      have beyond: "removeItem_from j l array item = array" if "length array \<le> j" for j
        using that
      proof (induction "l - j" arbitrary: j)
        case 0
        then show ?case by (subst removeItem_from.simps) simp
      next
        case (Suc k)
        then have "nth_opt array j = None" "k = l - Suc j" by simp_all
        with Suc show ?case by (subst removeItem_from.simps) simp
      qed
      show ?thesis using beyond i by simp
    qed (use i in \<open>subst removeItem_from.simps; simp\<close>)
  next
    case True
    with "1.prems" have l: "i < l" by simp
    have d: "drop i array = array ! i # drop (Suc i) array" using True by (simp add: Cons_nth_drop_Suc)
    show ?thesis
    proof (cases "array ! i = item")
      case eq: True
      let ?a = "splice_at i 1 [] array"
      have "removeItem_from i l ?a item = take i ?a @ filter (\<lambda>x. x \<noteq> item) (drop i ?a)"
        using "1.IH"(1) l eq True "1.prems" by (simp add: splice_at_def)
      then show ?thesis using l eq True d
        by (subst removeItem_from.simps) (simp add: splice_at_def min_def)
    next
      case False
      then have "removeItem_from (Suc i) l array item =
          take (Suc i) array @ filter (\<lambda>x. x \<noteq> item) (drop (Suc i) array)"
        using "1.IH"(2) l True "1.prems" by simp
      then show ?thesis using l False True d
        by (subst removeItem_from.simps) (simp add: take_Suc_conv_app_nth)
    qed
  qed
qed

lemma removeItem_filter: "removeItem array item = filter (\<lambda>x. x \<noteq> item) array"
  by (simp add: removeItem_def removeItem_from_filter)

lemma indexOf_from:
  "fst (each_from (\<lambda>index v i. if i \<ge> st \<and> v = item then (int i, False) else (index, True)) k xs r) =
     (if \<exists>i<length xs. k + i \<ge> st \<and> xs ! i = item
      then int (k + (LEAST i. i < length xs \<and> k + i \<ge> st \<and> xs ! i = item)) else r)"
proof (induction xs arbitrary: k)
  case Nil
  then show ?case by simp
next
  case (Cons x xs)
  let ?P = "\<lambda>i. i < length (x # xs) \<and> k + i \<ge> st \<and> (x # xs) ! i = item"
  let ?Q = "\<lambda>i. i < length xs \<and> Suc k + i \<ge> st \<and> xs ! i = item"
  show ?case
  proof (cases "?P 0")
    case True
    then have "(LEAST i. ?P i) = 0" by (simp add: Least_eq_0)
    with True show ?thesis by auto
  next
    case False
    have PQ: "?P (Suc i) = ?Q i" for i by auto
    have ex: "(\<exists>i. ?P i) \<longleftrightarrow> (\<exists>i. ?Q i)" using False PQ by (metis not0_implies_Suc)
    have "(LEAST i. ?P i) = Suc (LEAST i. ?Q i)" if "\<exists>i. ?Q i"
    proof -
      from that obtain j where "?P (Suc j)" using PQ by blast
      then have "(LEAST i. ?P i) = Suc (LEAST i. ?P (Suc i))" using False by (rule Least_Suc)
      then show ?thesis by (simp add: PQ)
    qed
    with False ex Cons.IH [of "Suc k"] show ?thesis by auto
  qed
qed

lemma extend_get:
  "distinct (obj_keys s) \<Longrightarrow> obj_get (extend t s b) k =
     (if b \<and> obj_get t k \<noteq> None then obj_get t k
      else (case obj_get s k of Some v \<Rightarrow> Some v | None \<Rightarrow> obj_get t k))"
proof (induction s arbitrary: t)
  case Nil
  then show ?case by (simp add: extend_def)
next
  case (Cons kv s)
  obtain a v where kv: "kv = (a, v)" by (cases kv)
  define t' where "t' = (if \<not> b \<or> a \<notin> set (obj_keys t) then obj_set a v t else t)"
  have step: "extend t (kv # s) b = extend t' s b" by (simp add: extend_def kv t'_def)
  have key: "a \<in> set (obj_keys t) \<longleftrightarrow> obj_get t a \<noteq> None" for a by (simp add: map_of_eq_None_iff)
  have notin: "obj_get s a = None" using Cons.prems kv by (auto simp: map_of_eq_None_iff)
  have t': "obj_get t' k = (if k = a \<and> (\<not> b \<or> obj_get t a = None) then Some v else obj_get t k)" for k
    using key by (auto simp: t'_def obj_get_set)
  have d: "distinct (obj_keys s)" using Cons.prems by simp
  show ?case unfolding step Cons.IH [OF d] t' using notin
    by (auto simp: kv split: option.split)
qed


subsection \<open>Trimming\<close>

lemma m_some_cls_Eol:
  "m (Seq (some (Cls P)) Eol) (pre, s, cs) =
     (if s \<noteq> [] \<and> list_all P s then [(rev s @ pre, [], cs)] else [])"
proof (cases s)
  case Nil
  then show ?thesis by (simp add: some_def)
next
  case (Cons x xs)
  show ?thesis
  proof (cases "P x")
    case False
    with Cons show ?thesis by (simp add: some_def)
  next
    case True
    let ?n = "length (takeWhile P xs)"
    have tk: "take ?n xs = takeWhile P xs" by (metis takeWhile_eq_take)
    have "m (Seq (some (Cls P)) Eol) (pre, s, cs) =
        concat (map (m Eol) (m (Star True (Cls P)) (x # pre, xs, cs)))"
      using True Cons by (simp add: some_def)
    also have "\<dots> = m Eol (rev (takeWhile P xs) @ x # pre, dropWhile P xs, cs) @
        concat (map (m Eol) (map (\<lambda>k. (rev (take k xs) @ x # pre, drop k xs, cs)) (rev [0..<?n])))"
      by (simp add: m_many_cls tk dropWhile_eq_drop del: m.simps)
    also have "concat (map (m Eol) (map (\<lambda>k. (rev (take k xs) @ x # pre, drop k xs, cs)) (rev [0..<?n]))) = []"
      using length_takeWhile_le [of P xs] by auto
    finally show ?thesis using True Cons
      by (auto simp: list_all_iff takeWhile_eq_all_conv)
  qed
qed

lemma m_Bol_some: "m (Seq Bol (some (Cls P))) (pre, s, cs) = (if pre = [] then m (some (Cls P)) (pre, s, cs) else [])"
  by simp

fun rtrim :: "string \<Rightarrow> string" where
  "rtrim [] = []"
| "rtrim (x # xs) = (if list_all blank4 (x # xs) then [] else x # rtrim xs)"

lemma trim_inner: "pre \<noteq> [] \<Longrightarrow> replace_all trim_re (\<lambda>_ _. []) pre s = rtrim s"
proof (induction s arbitrary: pre)
  case Nil
  then show ?case by (intro replace_all_Nil [THEN trans]) (simp_all add: trim_re_def some_def)
next
  case (Cons x xs)
  have m: "m trim_re (pre, x # xs, []) = (if list_all blank4 (x # xs)
      then [(rev (x # xs) @ pre, [], [(2, x # xs)])] else [])"
    using Cons.prems m_some_cls_Eol [of blank4 pre "x # xs" "[]"]
    by (simp add: trim_re_def set_cap_def del: m.simps(3)) (simp add: set_cap_def)
  show ?case
  proof (cases "list_all blank4 (x # xs)")
    case True
    have e: "m trim_re (rev (x # xs) @ pre, [], []) = []"
      using Cons.prems by (simp add: trim_re_def some_def)
    from True m have "m trim_re (pre, x # xs, []) = (rev (x # xs) @ pre, [], [(2, x # xs)]) # []" by simp
    from replace_all_here [OF this, of "\<lambda>_ _. []"] True show ?thesis
      by (simp add: replace_all_Nil [OF e [simplified]])
  next
    case False
    with m have "m trim_re (pre, x # xs, []) = []" by simp
    with False Cons.IH [of "x # pre"] show ?thesis by (simp only: replace_all_skip rtrim.simps if_False) simp
  qed
qed
lemma rtrim_rev: "rtrim s = rev (dropWhile blank4 (rev s))"
proof (induction s)
  case (Cons x xs)
  show ?case
  proof (cases "list_all blank4 (x # xs)")
    case True
    then have "dropWhile blank4 (rev xs @ [x]) = []" by (auto simp: list_all_iff)
    with True show ?thesis by simp
  next
    case False
    then show ?thesis using Cons by (auto simp: dropWhile_append list_all_iff)
  qed
qed simp

lemma trim_eq: "trim s = rev (dropWhile blank4 (rev (dropWhile blank4 s)))"
proof (cases s)
  case Nil
  have "m trim_re ([], [], []) = []" by (simp add: trim_re_def some_def)
  with Nil show ?thesis by (simp add: trim_def replace_def replace_all_Nil)
next
  case (Cons x xs)
  show ?thesis
  proof (cases "blank4 x")
    case True
    let ?r = "dropWhile blank4 xs"
    obtain ts where "m (Star True (Cls blank4)) ([x], xs, []) =
        (rev (takeWhile blank4 xs) @ [x], ?r, []) # ts"
      using m_many_cls_hd [of blank4 "[x]" xs "[]"] by auto
    with True Cons obtain cs ts' where m: "m trim_re ([], s, []) =
        (rev (takeWhile blank4 xs) @ [x], ?r, cs) # ts'"
      by (auto simp: trim_re_def some_def set_cap_def)
    have "length ?r < length s" using Cons by (simp add: le_imp_less_Suc length_dropWhile_le)
    from replace_all_here [OF m this, of "\<lambda>_ _. []"] have "trim s = rtrim ?r"
      by (simp add: trim_def replace_def trim_inner)
    with True Cons show ?thesis by (simp add: rtrim_rev)
  next
    case False
    then have m: "m trim_re ([], x # xs, []) = []"
      by (simp add: trim_re_def some_def)
    have "trim s = x # rtrim xs"
      unfolding Cons trim_def replace_def by (subst replace_all_skip [OF m]) (simp add: trim_inner)
    also have "\<dots> = rtrim s" using False Cons by simp
    finally show ?thesis using False Cons by (simp add: rtrim_rev)
  qed
qed

lemma trim_ends: "trim s \<noteq> [] \<Longrightarrow> \<not> blank4 (hd (trim s)) \<and> \<not> blank4 (last (trim s))"
proof -
  assume a: "trim s \<noteq> []"
  let ?d = "dropWhile blank4 s"
  have "\<not> blank4 (last (trim s))"
    using a by (simp add: trim_eq last_rev hd_dropWhile)
  moreover have "hd (trim s) = hd ?d" "?d \<noteq> []"
  proof -
    show d: "?d \<noteq> []" using a by (metis trim_eq dropWhile.simps(1) rev.simps(1))
    have "?d = trim s @ rev (takeWhile blank4 (rev ?d))"
      by (metis trim_eq rev_append rev_rev_ident takeWhile_dropWhile_id)
    then show "hd (trim s) = hd ?d" using a by (metis hd_append2)
  qed
  ultimately show ?thesis using hd_dropWhile [of blank4 s] by simp
qed

lemma trim_decomp: "\<exists>a b. s = a @ trim s @ b \<and> list_all blank4 a \<and> list_all blank4 b"
proof -
  let ?d = "dropWhile blank4 s"
  have "s = takeWhile blank4 s @ ?d" by simp
  moreover have "?d = trim s @ rev (takeWhile blank4 (rev ?d))"
    by (metis trim_eq rev_append rev_rev_ident takeWhile_dropWhile_id)
  moreover have "list_all blank4 (takeWhile blank4 s)" "list_all blank4 (rev (takeWhile blank4 (rev ?d)))"
    by (auto simp: list_all_iff dest: set_takeWhileD)
  ultimately show ?thesis by (metis append.assoc)
qed

subsection \<open>The exchange sort\<close>

lemma length_swap [simp]: "length (swap i j xs) = length xs"
  by (simp add: swap_def)

lemma swap_nth: "i < length xs \<Longrightarrow> j < length xs \<Longrightarrow> k < length xs \<Longrightarrow>
    swap i j xs ! k = (if k = i then xs ! j else if k = j then xs ! i else xs ! k)"
  by (auto simp: swap_def nth_list_update)

lemma mset_swap_drop:
  "i \<le> j \<Longrightarrow> j < length xs \<Longrightarrow> mset (drop i (swap i j xs)) = mset (drop i xs)"
proof -
  assume ij: "i \<le> j" "j < length xs"
  have "drop i (swap i j xs) = (drop i xs)[0 := xs ! j, j - i := xs ! i]"
    using ij by (simp add: swap_def drop_update_swap)
  also have "\<dots> = (drop i xs)[0 := drop i xs ! (j - i), j - i := drop i xs ! 0]"
    using ij by simp
  also have "mset \<dots> = mset (drop i xs)"
    using ij by (intro mset_swap) auto
  finally show ?thesis .
qed

lemma swap_take: "i \<le> j \<Longrightarrow> take i (swap i j xs) = take i xs"
  by (simp add: swap_def)

lemma length_sort_inner [simp]: "length (sort_inner f i js xs) = length xs"
  by (induction js arbitrary: xs) auto

lemma sort_inner_frame:
  "\<forall>j\<in>set js. i \<le> j \<and> j < length xs \<Longrightarrow>
     take i (sort_inner f i js xs) = take i xs \<and>
     mset (drop i (sort_inner f i js xs)) = mset (drop i xs)"
  by (induction js arbitrary: xs) (auto simp: swap_take mset_swap_drop)

text \<open>
  A comparison function that decides a total preorder. The sort is correct for every such
  function.
\<close>

locale comparator =
  fixes cmp :: "'a \<Rightarrow> 'a \<Rightarrow> int"
  assumes cmp_refl: "cmp a a \<le> 0"
    and cmp_total: "cmp a b > 0 \<Longrightarrow> cmp b a \<le> 0"
    and cmp_trans: "cmp a b \<le> 0 \<Longrightarrow> cmp b c \<le> 0 \<Longrightarrow> cmp a c \<le> 0"
begin

lemma sort_inner_min:
  assumes "i \<le> k" "k \<le> length xs" "i < length xs" "\<forall>l. i \<le> l \<and> l < k \<longrightarrow> cmp (xs ! i) (xs ! l) \<le> 0"
  shows "\<forall>l. i \<le> l \<and> l < length xs \<longrightarrow>
    cmp (sort_inner cmp i [k..<length xs] xs ! i) (sort_inner cmp i [k..<length xs] xs ! l) \<le> 0"
  using assms
proof (induction "length xs - k" arbitrary: k xs)
  case 0
  then show ?case by simp
next
  case (Suc d)
  then have k: "k < length xs" by simp
  define ys where "ys = (if cmp (xs ! i) (xs ! k) > 0 then swap i k xs else xs)"
  have len: "length ys = length xs" by (simp add: ys_def)
  have "\<forall>l. i \<le> l \<and> l < Suc k \<longrightarrow> cmp (ys ! i) (ys ! l) \<le> 0"
  proof (intro allI impI)
    fix l assume l: "i \<le> l \<and> l < Suc k"
    show "cmp (ys ! i) (ys ! l) \<le> 0"
    proof (cases "cmp (xs ! i) (xs ! k) > 0")
      case True
      then have ki: "cmp (xs ! k) (xs ! i) \<le> 0" by (rule cmp_total)
      have "i \<noteq> k" using True cmp_refl by (metis not_less)
      have "cmp (xs ! k) (xs ! l') \<le> 0" if "i \<le> l'" "l' < k" for l'
        using Suc.prems(4) that cmp_trans [OF ki] by blast
      with l k Suc.prems True ki \<open>i \<noteq> k\<close> show ?thesis
        by (auto simp: ys_def swap_nth less_Suc_eq cmp_refl)
    next
      case False
      with l Suc.prems show ?thesis by (auto simp: ys_def less_Suc_eq)
    qed
  qed
  moreover have "d = length ys - Suc k" using Suc.hyps(2) len by simp
  ultimately have "\<forall>l. i \<le> l \<and> l < length ys \<longrightarrow>
    cmp (sort_inner cmp i [Suc k..<length ys] ys ! i) (sort_inner cmp i [Suc k..<length ys] ys ! l) \<le> 0"
    using Suc.hyps(1) [of ys "Suc k"] Suc.prems k len by simp
  then show ?case using k len by (simp add: upt_conv_Cons ys_def)
qed

lemma sort_outer_sorted:
  assumes "k \<le> length xs" "sorted_wrt (\<lambda>a b. cmp a b \<le> 0) (take k xs)"
    "\<forall>a\<in>set (take k xs). \<forall>b\<in>set (drop k xs). cmp a b \<le> 0"
  shows "sorted_wrt (\<lambda>a b. cmp a b \<le> 0) (sort_outer cmp [k..<length xs] xs) \<and>
    mset (sort_outer cmp [k..<length xs] xs) = mset xs"
  using assms
proof (induction "length xs - k" arbitrary: k xs)
  case 0
  then show ?case by simp
next
  case (Suc d)
  then have k: "k < length xs" by simp
  define ys where "ys = sort_inner cmp k [k..<length xs] xs"
  have fr: "take k ys = take k xs" "mset (drop k ys) = mset (drop k xs)"
    using sort_inner_frame [of "[k..<length xs]" k xs cmp] by (auto simp: ys_def)
  have len: "length ys = length xs" by (simp add: ys_def)
  have sd: "set (drop k ys) = set (drop k xs)" using fr(2) by (metis set_mset_mset)
  have min: "\<forall>l. k \<le> l \<and> l < length xs \<longrightarrow> cmp (ys ! k) (ys ! l) \<le> 0"
    using sort_inner_min [of k k xs] k by (simp add: ys_def)
  have ms: "mset ys = mset xs" by (metis append_take_drop_id fr mset_append)
  have tk: "take (Suc k) ys = take k xs @ [ys ! k]" using k len fr by (simp add: take_Suc_conv_app_nth)
  have yk: "ys ! k \<in> set (drop k xs)" using k len sd by (metis Cons_nth_drop_Suc list.set_intros(1))
  have "sorted_wrt (\<lambda>a b. cmp a b \<le> 0) (take (Suc k) ys)"
    using Suc.prems(2,3) yk by (simp add: tk sorted_wrt_append)
  moreover have "\<forall>a\<in>set (take (Suc k) ys). \<forall>b\<in>set (drop (Suc k) ys). cmp a b \<le> 0"
  proof (intro ballI)
    fix a b assume a: "a \<in> set (take (Suc k) ys)" and b: "b \<in> set (drop (Suc k) ys)"
    then obtain l where l: "Suc k \<le> l" "l < length ys" "b = ys ! l"
      by (auto simp: in_set_conv_nth) (metis add_Suc le_add1 less_diff_conv add.commute add_Suc_right)
    have "b \<in> set (drop k xs)" using b sd by (metis Cons_nth_drop_Suc k len list.set_intros(2))
    with a l min Suc.prems(3) len show "cmp a b \<le> 0" by (auto simp: tk)
  qed
  ultimately show ?case using Suc.hyps(1) [of ys "Suc k"] Suc.hyps(2) k len ms
    by (simp add: upt_conv_Cons ys_def)
qed

lemma sort_correct:
  "sorted_wrt (\<lambda>a b. cmp a b \<le> 0) (sort xs cmp) \<and> mset (sort xs cmp) = mset xs"
  using sort_outer_sorted [of 0 xs] by (simp add: sort_def)

end

text \<open>With the constant comparison \<open>1\<close> every exchange is made, and the array is reversed.\<close>

lemma swap_middle:
  "swap (length ps) (Suc (length ps + length mid)) (ps @ h # mid @ r # rs) = ps @ r # mid @ h # rs"
proof -
  let ?j = "Suc (length ps + length mid)"
  have "(ps @ h # mid @ r # rs) ! ?j = r" by (simp add: nth_append)
  then have "swap (length ps) ?j (ps @ h # mid @ r # rs) = (ps @ r # mid @ r # rs)[?j := h]"
    by (simp add: swap_def)
  also have "\<dots> = ps @ r # mid @ h # rs" by (simp add: list_update_append)
  finally show ?thesis .
qed

lemma sort_inner_one:
  "sort_inner (\<lambda>_ _. 1) (length ps)
     [Suc (length ps + length mid) ..< Suc (length ps + length mid) + length rs]
     (ps @ h # mid @ rs) = ps @ last (h # rs) # mid @ butlast (h # rs)"
proof (induction rs arbitrary: h mid)
  case (Cons r rs)
  have "[Suc (length ps + length mid) ..< Suc (length ps + length mid) + length (r # rs)] =
      Suc (length ps + length mid) #
      [Suc (length ps + length (mid @ [h])) ..< Suc (length ps + length (mid @ [h])) + length rs]"
    by (subst upt_conv_Cons) simp_all
  then show ?case using Cons.IH [of "mid @ [h]" r]
    by (simp only: sort_inner.simps zero_less_one if_True swap_middle append_assoc append_Cons append_Nil)
      simp
qed simp

lemma sort_outer_one:
  "sort_outer (\<lambda>_ _. 1) [length ps ..< length ps + length zs] (ps @ zs) = ps @ rev zs"
proof (induction "length zs" arbitrary: ps zs)
  case 0
  then show ?case by simp
next
  case (Suc n)
  then obtain h rs where zs: "zs = h # rs" by (cases zs) auto
  let ?zs = "butlast zs" and ?ps = "ps @ [last zs]"
  have n: "n = length ?zs" using Suc by simp
  have up: "[length ps ..< length ps + length zs] = length ps # [length ?ps ..< length ?ps + length ?zs]"
    using zs by (subst upt_conv_Cons) (simp_all add: Suc_le_eq)
  have "sort_inner (\<lambda>_ _. 1) (length ps) [length ps ..< length (ps @ zs)] (ps @ zs) = ?ps @ ?zs"
    using sort_inner_one [of ps "[]" rs h] zs
    by (cases "rs = []") (simp_all add: upt_conv_Cons swap_def Suc_le_eq)
  then have "sort_outer (\<lambda>_ _. 1) [length ps ..< length ps + length zs] (ps @ zs) =
     sort_outer (\<lambda>_ _. 1) [length ?ps ..< length ?ps + length ?zs] (?ps @ ?zs)"
    unfolding up by simp
  also have "\<dots> = ?ps @ rev ?zs" by (rule Suc.hyps(1) [OF n])
  also have "\<dots> = ps @ rev zs" using zs by (metis append.assoc append_butlast_last_id append_Cons
        append_Nil list.distinct(1) rev.simps(2) rev_append rev_rev_ident rev_singleton_conv)
  finally show ?case .
qed

lemma sort_one_rev: "sort xs (\<lambda>_ _. 1) = rev xs"
  using sort_outer_one [of "[]" xs] by (simp add: sort_def)

subsection \<open>Cloning\<close>

fun plain :: "jsval \<Rightarrow> bool" where
  "plain (JArr xs) = list_all plain xs"
| "plain (JObj kvs) = list_all (\<lambda>(k, v). plain v) kvs"
| "plain JNull = False"
| "plain JDate = False"
| "plain v = True"

lemma clone_val_plain: "plain v \<Longrightarrow> clone_val v = v"
proof (induction v rule: plain.induct)
  case (1 xs)
  then show ?case by (auto simp: list_all_iff intro: map_idI)
next
  case (2 kvs)
  then show ?case by (auto simp: list_all_iff intro!: map_idI)
qed simp_all

lemma clone_fields:
  "distinct (obj_keys kvs) \<Longrightarrow> list_all (\<lambda>(k, v). plain v) kvs \<Longrightarrow>
     set (obj_keys kvs) \<inter> set (obj_keys acc) = {} \<Longrightarrow>
     foldl (\<lambda>t (k, tmp). put t k (if typeof tmp = ''object'' then clone_val tmp else tmp))
       (JObj acc) kvs = JObj (acc @ kvs)"
proof (induction kvs arbitrary: acc)
  case (Cons kv kvs)
  obtain k v where kv: "kv = (k, v)" by (cases kv)
  have "obj_set k v acc = acc @ [(k, v)]"
    using Cons.prems(3) kv by (induction acc) auto
  with Cons kv show ?case by (auto simp: clone_val_plain)
qed simp
subsection \<open>Properties\<close>

text \<open>\<open>utils.trim\<close> strips exactly the blanks at the two ends: the result is what is left
  of the string between two runs of spaces, tabs and line breaks, and neither begins nor
  ends with one of them.\<close>

theorem trim_strips_ends:
  "(\<exists>a b. s = a @ trim s @ b \<and> list_all blank4 a \<and> list_all blank4 b) \<and>
   (trim s = [] \<or> \<not> blank4 (hd (trim s)) \<and> \<not> blank4 (last (trim s)))"
  using trim_decomp [of s] trim_ends [of s] by blast

text \<open>\<open>utils.removeItem\<close>, which splices while it walks the array with the old length as
  its bound, terminates and removes every occurrence of the item and nothing else.\<close>

theorem removeItem_removes_all: "removeItem array item = filter (\<lambda>x. x \<noteq> item) array"
  by (rule removeItem_filter)

text \<open>\<open>utils.indexOf\<close> returns the least index at or after \<open>start\<close> that holds the item, and
  -1 when there is none.\<close>

theorem indexOf_least:
  "indexOf array item start =
     (let st = (case start of Some n \<Rightarrow> n | None \<Rightarrow> 0)
      in if \<exists>i<length array. i \<ge> st \<and> array ! i = item
         then int (LEAST i. i < length array \<and> i \<ge> st \<and> array ! i = item) else - 1)"
  unfolding indexOf_def each_def Let_def indexOf_from by auto

text \<open>\<open>utils.clone\<close> copies an object whose fields hold, at any depth, no \<open>null\<close> and no
  date into an equal object.\<close>

theorem clone_equal:
  "distinct (obj_keys kvs) \<Longrightarrow> list_all (\<lambda>(k, v). plain v) kvs \<Longrightarrow> clone (JObj kvs) None = JObj kvs"
  by (simp add: clone_def clone_fields)

theorem clone_equal_witness:
  "clone (JObj [(''a'', JNum (Some 1)), (''b'', JArr [JStr ''x''])]) None =
     JObj [(''a'', JNum (Some 1)), (''b'', JArr [JStr ''x''])]"
  by (rule clone_equal) simp_all

text \<open>A \<open>null\<close> field, whose type name is \<open>object\<close>, is not copied: the clone holds an empty
  object in its place.\<close>

theorem clone_null_becomes_object:
  "clone (JObj [(k, JNull)]) None = JObj [(k, JObj [])] \<and> clone (JObj [(k, JNull)]) None \<noteq> JObj [(k, JNull)]"
  by (simp add: clone_def)

end
