(* ===== verification/Dtd.thy ===== *)
theory Dtd
  imports Utils
begin

text \<open>
  \<open>core/dtd.js\<close>: the element tables of the editor. Every table is built from literals by
  \<open>_\<close> (\<open>dtd_up\<close>), which adds the upper-case spelling of each key, and by \<open>X\<close>, which is
  \<open>utils.extend2\<close>. \<open>X\<close> writes into its first argument, so \<open>X(S, R)\<close>, \<open>X(V, U, S)\<close>,
  \<open>X(I, E)\<close>, \<open>X(A, D, E, I)\<close>, \<open>X(D, I)\<close> and \<open>X(G, C)\<close> change the shared tables
  \<open>S\<close>, \<open>V\<close>, \<open>I\<close>, \<open>A\<close>, \<open>D\<close> and \<open>G\<close>; the definitions below name the table each expression
  sees at its place in the literal. The properties relate the tables: which categories are
  disjoint and which contain each other.
\<close>

type_synonym dtdtab = "nat jsobj"

definition dtd_up :: "dtdtab \<Rightarrow> dtdtab" where
  "dtd_up s = foldl (\<lambda>t (k, v). obj_set (toUpperCase k) v t) s s"

definition dtd_A :: dtdtab where
  "dtd_A = dtd_up [(''isindex'', 1), (''fieldset'', 1)]"

definition dtd_B :: dtdtab where
  "dtd_B = dtd_up [(''input'', 1), (''button'', 1), (''select'', 1), (''textarea'', 1), (''label'', 1)]"

definition dtd_C :: dtdtab where
  "dtd_C = extend2 (dtd_up [(''a'', 1)]) [dtd_B]"

definition dtd_D :: dtdtab where
  "dtd_D = extend2 ([(''iframe'', 1)]) [dtd_C]"

definition dtd_E :: dtdtab where
  "dtd_E = dtd_up [(''hr'', 1), (''ul'', 1), (''menu'', 1), (''div'', 1), (''blockquote'', 1),
      (''noscript'', 1), (''table'', 1), (''center'', 1), (''address'', 1), (''dir'', 1),
      (''pre'', 1), (''h5'', 1), (''dl'', 1), (''h4'', 1), (''noframes'', 1), (''h6'', 1),
      (''ol'', 1), (''h1'', 1), (''h3'', 1), (''h2'', 1)]"

definition dtd_F :: dtdtab where
  "dtd_F = dtd_up [(''ins'', 1), (''del'', 1), (''script'', 1), (''style'', 1)]"

definition dtd_G :: dtdtab where
  "dtd_G = extend2 (dtd_up [(''b'', 1), (''acronym'', 1), (''bdo'', 1), (''var'', 1), (''#'', 1), (''abbr'', 1),
      (''code'', 1), (''br'', 1), (''i'', 1), (''cite'', 1), (''kbd'', 1), (''u'', 1),
      (''strike'', 1), (''s'', 1), (''tt'', 1), (''strong'', 1), (''q'', 1), (''samp'', 1),
      (''em'', 1), (''dfn'', 1), (''span'', 1)]) [dtd_F]"

definition dtd_H :: dtdtab where
  "dtd_H = extend2 (dtd_up [(''sub'', 1), (''img'', 1), (''embed'', 1), (''object'', 1), (''sup'', 1),
      (''basefont'', 1), (''map'', 1), (''applet'', 1), (''font'', 1), (''big'', 1),
      (''small'', 1)]) [dtd_G]"

definition dtd_I :: dtdtab where
  "dtd_I = extend2 (dtd_up [(''p'', 1)]) [dtd_H]"

definition dtd_J :: dtdtab where
  "dtd_J = extend2 (dtd_up [(''iframe'', 1)]) [dtd_H, dtd_B]"

definition dtd_K :: dtdtab where
  "dtd_K = dtd_up [(''img'', 1), (''embed'', 1), (''noscript'', 1), (''br'', 1), (''kbd'', 1),
      (''center'', 1), (''button'', 1), (''basefont'', 1), (''h5'', 1), (''h4'', 1),
      (''samp'', 1), (''h6'', 1), (''ol'', 1), (''h1'', 1), (''h3'', 1), (''h2'', 1),
      (''form'', 1), (''font'', 1), (''#'', 1), (''select'', 1), (''menu'', 1), (''ins'', 1),
      (''abbr'', 1), (''label'', 1), (''code'', 1), (''table'', 1), (''script'', 1),
      (''cite'', 1), (''input'', 1), (''iframe'', 1), (''strong'', 1), (''textarea'', 1),
      (''noframes'', 1), (''big'', 1), (''small'', 1), (''span'', 1), (''hr'', 1),
      (''sub'', 1), (''bdo'', 1), (''var'', 1), (''div'', 1), (''object'', 1), (''sup'', 1),
      (''strike'', 1), (''dir'', 1), (''map'', 1), (''dl'', 1), (''applet'', 1),
      (''del'', 1), (''isindex'', 1), (''fieldset'', 1), (''ul'', 1), (''b'', 1),
      (''acronym'', 1), (''a'', 1), (''blockquote'', 1), (''i'', 1), (''u'', 1), (''s'', 1),
      (''tt'', 1), (''address'', 1), (''q'', 1), (''pre'', 1), (''p'', 1), (''em'', 1),
      (''dfn'', 1)]"

definition dtd_L :: dtdtab where
  "dtd_L = extend2 (dtd_up [(''a'', 0)]) [dtd_J]"

definition dtd_M :: dtdtab where
  "dtd_M = dtd_up [(''tr'', 1)]"

definition dtd_N :: dtdtab where
  "dtd_N = dtd_up [(''#'', 1)]"

definition dtd_O :: dtdtab where
  "dtd_O = extend2 (dtd_up [(''param'', 1)]) [dtd_K]"

definition dtd_P :: dtdtab where
  "dtd_P = extend2 (dtd_up [(''form'', 1)]) [dtd_A, dtd_D, dtd_E, dtd_I]"

definition dtd_Q :: dtdtab where
  "dtd_Q = dtd_up [(''li'', 1), (''ol'', 1), (''ul'', 1)]"

definition dtd_R :: dtdtab where
  "dtd_R = dtd_up [(''style'', 1), (''script'', 1)]"

definition dtd_S :: dtdtab where
  "dtd_S = dtd_up [(''base'', 1), (''link'', 1), (''meta'', 1), (''title'', 1)]"

definition dtd_T :: dtdtab where
  "dtd_T = extend2 (dtd_S) [dtd_R]"

definition dtd_U :: dtdtab where
  "dtd_U = dtd_up [(''head'', 1), (''body'', 1)]"

definition dtd_V :: dtdtab where
  "dtd_V = dtd_up [(''html'', 1)]"

definition dtd_block :: dtdtab where
  "dtd_block = dtd_up [(''address'', 1), (''blockquote'', 1), (''center'', 1), (''dir'', 1), (''div'', 1),
      (''dl'', 1), (''fieldset'', 1), (''form'', 1), (''h1'', 1), (''h2'', 1), (''h3'', 1),
      (''h4'', 1), (''h5'', 1), (''h6'', 1), (''hr'', 1), (''isindex'', 1), (''menu'', 1),
      (''noframes'', 1), (''ol'', 1), (''p'', 1), (''pre'', 1), (''table'', 1), (''ul'', 1)]"

definition dtd_empty :: dtdtab where
  "dtd_empty = dtd_up [(''area'', 1), (''base'', 1), (''basefont'', 1), (''br'', 1), (''col'', 1),
      (''command'', 1), (''dialog'', 1), (''embed'', 1), (''hr'', 1), (''img'', 1),
      (''input'', 1), (''isindex'', 1), (''keygen'', 1), (''link'', 1), (''meta'', 1),
      (''param'', 1), (''source'', 1), (''track'', 1), (''wbr'', 1)]"

definition dtd_c_nonBodyContent :: dtdtab where
  "dtd_c_nonBodyContent = extend2 (dtd_V) [dtd_U, dtd_T]"

definition dtd_c_inlineWithA :: dtdtab where
  "dtd_c_inlineWithA = extend2 (dtd_up [(''a'', 1)]) [dtd_L]"

definition dtd_c_body :: dtdtab where
  "dtd_c_body = extend2 (dtd_up [(''script'', 1), (''style'', 1)]) [dtd_block]"

definition dtd_c_cdata :: dtdtab where
  "dtd_c_cdata = dtd_up [(''script'', 1), (''style'', 1)]"

definition dtd_c_nonChild :: dtdtab where
  "dtd_c_nonChild = dtd_up [(''iframe'', 1), (''textarea'', 1)]"

definition dtd_c_listItem :: dtdtab where
  "dtd_c_listItem = dtd_up [(''dd'', 1), (''dt'', 1), (''li'', 1)]"

definition dtd_c_list :: dtdtab where
  "dtd_c_list = dtd_up [(''ul'', 1), (''ol'', 1), (''dl'', 1)]"

definition dtd_c_isNotEmpty :: dtdtab where
  "dtd_c_isNotEmpty = dtd_up [(''table'', 1), (''ul'', 1), (''ol'', 1), (''dl'', 1), (''iframe'', 1), (''area'', 1),
      (''base'', 1), (''col'', 1), (''hr'', 1), (''img'', 1), (''embed'', 1), (''input'', 1),
      (''link'', 1), (''meta'', 1), (''param'', 1), (''h1'', 1), (''h2'', 1), (''h3'', 1),
      (''h4'', 1), (''h5'', 1), (''h6'', 1)]"

definition dtd_c_removeEmpty :: dtdtab where
  "dtd_c_removeEmpty = dtd_up [(''a'', 1), (''abbr'', 1), (''acronym'', 1), (''address'', 1), (''b'', 1),
      (''bdo'', 1), (''big'', 1), (''cite'', 1), (''code'', 1), (''del'', 1), (''dfn'', 1),
      (''em'', 1), (''font'', 1), (''i'', 1), (''ins'', 1), (''label'', 1), (''kbd'', 1),
      (''q'', 1), (''s'', 1), (''samp'', 1), (''small'', 1), (''span'', 1), (''strike'', 1),
      (''strong'', 1), (''sub'', 1), (''sup'', 1), (''tt'', 1), (''u'', 1), (''var'', 1)]"

definition dtd_c_removeEmptyBlock :: dtdtab where
  "dtd_c_removeEmptyBlock = dtd_up [(''p'', 1), (''div'', 1)]"

definition dtd_c_tableContent :: dtdtab where
  "dtd_c_tableContent = dtd_up [(''caption'', 1), (''col'', 1), (''colgroup'', 1), (''tbody'', 1), (''td'', 1),
      (''tfoot'', 1), (''th'', 1), (''thead'', 1), (''tr'', 1), (''table'', 1)]"

definition dtd_c_notTransContent :: dtdtab where
  "dtd_c_notTransContent = dtd_up [(''pre'', 1), (''script'', 1), (''style'', 1), (''textarea'', 1)]"

definition dtd_tag_tr :: dtdtab where
  "dtd_tag_tr = dtd_up [(''td'', 1), (''th'', 1)]"

definition dtd_tag_colgroup :: dtdtab where
  "dtd_tag_colgroup = dtd_up [(''thead'', 1), (''col'', 1), (''tbody'', 1), (''tr'', 1), (''tfoot'', 1)]"

definition dtd_tag_button :: dtdtab where
  "dtd_tag_button = extend2 (dtd_I) [dtd_E]"

definition dtd_tag_form :: dtdtab where
  "dtd_tag_form = extend2 (dtd_A) [dtd_D, dtd_E, dtd_tag_button]"

definition dtd_tag_select :: dtdtab where
  "dtd_tag_select = dtd_up [(''optgroup'', 1), (''option'', 1)]"

definition dtd_tag_table :: dtdtab where
  "dtd_tag_table = dtd_up [(''thead'', 1), (''col'', 1), (''tbody'', 1), (''tr'', 1), (''colgroup'', 1),
      (''caption'', 1), (''tfoot'', 1)]"

definition dtd_tag_span :: dtdtab where
  "dtd_tag_span = dtd_up [(''#'', 1), (''br'', 1), (''b'', 1), (''strong'', 1), (''u'', 1), (''i'', 1),
      (''em'', 1), (''sub'', 1), (''sup'', 1), (''strike'', 1), (''span'', 1)]"

definition dtd_tag_optgroup :: dtdtab where
  "dtd_tag_optgroup = dtd_up [(''option'', 1)]"

definition dtd_tag_map :: dtdtab where
  "dtd_tag_map = extend2 (dtd_up [(''area'', 1), (''form'', 1), (''p'', 1)]) [dtd_tag_form, dtd_F, dtd_E]"

definition dtd_tag_dl :: dtdtab where
  "dtd_tag_dl = dtd_up [(''dt'', 1), (''dd'', 1)]"

definition dtd_tag_fieldset :: dtdtab where
  "dtd_tag_fieldset = extend2 (dtd_up [(''legend'', 1)]) [dtd_K]"

definition dtd_tag_a :: dtdtab where
  "dtd_tag_a = extend2 (dtd_up [(''a'', 1)]) [dtd_J]"

definition dtd_tag_blockquote :: dtdtab where
  "dtd_tag_blockquote = extend2 (dtd_up [(''td'', 1), (''tr'', 1), (''tbody'', 1), (''li'', 1)]) [dtd_P]"

definition dtd_tag_address :: dtdtab where
  "dtd_tag_address = extend2 (dtd_D) [dtd_tag_button]"

definition dtd_tag_pre :: dtdtab where
  "dtd_tag_pre = extend2 (dtd_G) [dtd_C]"

definition dtd_tag_p :: dtdtab where
  "dtd_tag_p = extend2 (dtd_up [(''a'', 1)]) [dtd_L]"

definition dtd_literal :: "dtdtab jsobj" where
  "dtd_literal =
     [(''$nonBodyContent'', dtd_c_nonBodyContent),
      (''$block'', dtd_block),
      (''$inline'', dtd_L),
      (''$inlineWithA'', dtd_c_inlineWithA),
      (''$body'', dtd_c_body),
      (''$cdata'', dtd_c_cdata),
      (''$empty'', dtd_empty),
      (''$nonChild'', dtd_c_nonChild),
      (''$listItem'', dtd_c_listItem),
      (''$list'', dtd_c_list),
      (''$isNotEmpty'', dtd_c_isNotEmpty),
      (''$removeEmpty'', dtd_c_removeEmpty),
      (''$removeEmptyBlock'', dtd_c_removeEmptyBlock),
      (''$tableContent'', dtd_c_tableContent),
      (''$notTransContent'', dtd_c_notTransContent),
      (''html'', dtd_U),
      (''head'', dtd_T),
      (''style'', dtd_N),
      (''script'', dtd_N),
      (''body'', dtd_P),
      (''base'', []),
      (''link'', []),
      (''meta'', []),
      (''title'', dtd_N),
      (''col'', []),
      (''tr'', dtd_tag_tr),
      (''img'', []),
      (''embed'', []),
      (''colgroup'', dtd_tag_colgroup),
      (''noscript'', dtd_P),
      (''td'', dtd_P),
      (''br'', []),
      (''th'', dtd_P),
      (''center'', dtd_P),
      (''kbd'', dtd_L),
      (''button'', dtd_tag_button),
      (''basefont'', []),
      (''h5'', dtd_L),
      (''h4'', dtd_L),
      (''samp'', dtd_L),
      (''h6'', dtd_L),
      (''ol'', dtd_Q),
      (''h1'', dtd_L),
      (''h3'', dtd_L),
      (''option'', dtd_N),
      (''h2'', dtd_L),
      (''form'', dtd_tag_form),
      (''select'', dtd_tag_select),
      (''font'', dtd_L),
      (''ins'', dtd_L),
      (''menu'', dtd_Q),
      (''abbr'', dtd_L),
      (''label'', dtd_L),
      (''table'', dtd_tag_table),
      (''code'', dtd_L),
      (''tfoot'', dtd_M),
      (''cite'', dtd_L),
      (''li'', dtd_P),
      (''input'', []),
      (''iframe'', dtd_P),
      (''strong'', dtd_L),
      (''textarea'', dtd_N),
      (''noframes'', dtd_P),
      (''big'', dtd_L),
      (''small'', dtd_L),
      (''span'', dtd_tag_span),
      (''hr'', dtd_L),
      (''dt'', dtd_L),
      (''sub'', dtd_L),
      (''optgroup'', dtd_tag_optgroup),
      (''param'', []),
      (''bdo'', dtd_L),
      (''var'', dtd_L),
      (''div'', dtd_P),
      (''object'', dtd_O),
      (''sup'', dtd_L),
      (''dd'', dtd_P),
      (''strike'', dtd_L),
      (''area'', []),
      (''dir'', dtd_Q),
      (''map'', dtd_tag_map),
      (''applet'', dtd_O),
      (''dl'', dtd_tag_dl),
      (''del'', dtd_L),
      (''isindex'', []),
      (''fieldset'', dtd_tag_fieldset),
      (''thead'', dtd_M),
      (''ul'', dtd_Q),
      (''acronym'', dtd_L),
      (''b'', dtd_L),
      (''a'', dtd_tag_a),
      (''blockquote'', dtd_tag_blockquote),
      (''caption'', dtd_L),
      (''i'', dtd_L),
      (''u'', dtd_L),
      (''tbody'', dtd_M),
      (''s'', dtd_L),
      (''address'', dtd_tag_address),
      (''tt'', dtd_L),
      (''legend'', dtd_L),
      (''q'', dtd_L),
      (''pre'', dtd_tag_pre),
      (''p'', dtd_tag_p),
      (''em'', dtd_L),
      (''dfn'', dtd_L)]"

definition dtd :: "dtdtab jsobj" where
  "dtd = foldl (\<lambda>t (k, v). obj_set (toUpperCase k) v t) dtd_literal dtd_literal"

text \<open>Truthiness of a read \<open>table[name]\<close>, and of \<open>dtd[parent][child]\<close> when \<open>parent\<close> has a table.\<close>

definition dtd_has :: "dtdtab \<Rightarrow> string \<Rightarrow> bool" where
  "dtd_has tb k = (case obj_get tb k of Some v \<Rightarrow> v \<noteq> 0 | None \<Rightarrow> k \<in> set object_prototype_names)"

definition dtd_allows :: "string \<Rightarrow> string \<Rightarrow> bool" where
  "dtd_allows parent child = (case obj_get dtd parent of Some tb \<Rightarrow> dtd_has tb child | None \<Rightarrow> False)"

subsection \<open>Spelling of the names\<close>

lemma lower_upper_char: "lower_char c = c \<Longrightarrow> lower_char (upper_char c) = c"
  by (auto simp: lower_char_def upper_char_def is_upper_def is_lower_def code_def split: if_splits)

lemma lower_upper: "toLowerCase k = k \<Longrightarrow> toLowerCase (toUpperCase k) = k"
  by (induction k) (auto simp: lower_upper_char)

lemma upper_upper [simp]: "toUpperCase (toUpperCase k) = toUpperCase k"
  by (induction k) (auto simp: upper_char_def is_lower_def code_def)

lemma upper_inj:
  "toLowerCase k = k \<Longrightarrow> toLowerCase j = j \<Longrightarrow> toUpperCase k = toUpperCase j \<longleftrightarrow> k = j"
  by (metis lower_upper)

lemma upper_eq_self:
  "toLowerCase j = j \<Longrightarrow> toLowerCase k = k \<Longrightarrow> toUpperCase j = k \<Longrightarrow> j = k"
  by (metis lower_upper)

text \<open>What a table holds under a lower-case name it holds under the upper-case one too.\<close>

definition two_case :: "'v jsobj \<Rightarrow> string \<Rightarrow> bool" where
  "two_case t k \<longleftrightarrow> obj_get t (toUpperCase k) = obj_get t k"

definition lower_keys :: "'v jsobj \<Rightarrow> bool" where
  "lower_keys t \<longleftrightarrow> list_all (\<lambda>k. toLowerCase k = k) (obj_keys t) \<and> distinct (obj_keys t)"

lemma up_fold_get:
  "distinct (map fst s) \<Longrightarrow> k \<in> set (map fst s) \<Longrightarrow>
   (\<And>j. j \<in> set (map fst s) \<Longrightarrow> toUpperCase j = toUpperCase k \<Longrightarrow> j = k) \<Longrightarrow>
   obj_get (foldl (\<lambda>t (k, v). obj_set (toUpperCase k) v t) t s) (toUpperCase k) = obj_get s k"
proof (induction s arbitrary: t rule: rev_induct)
  case (snoc x s)
  obtain j v where x: "x = (j, v)" by (cases x)
  show ?case
  proof (cases "j = k")
    case True
    then have "obj_get s k = None" using snoc.prems by (auto simp: x map_of_eq_None_iff)
    then show ?thesis using True by (simp add: x obj_get_set map_add_def)
  next
    case False
    then have "toUpperCase j \<noteq> toUpperCase k" using snoc.prems(3) [of j] x by auto
    then show ?thesis using False snoc.prems snoc.IH [of t]
      by (simp add: x obj_get_set map_add_def split: option.splits)
  qed
qed simp

lemma up_fold_other:
  "\<forall>j \<in> set (map fst s). toUpperCase j \<noteq> k \<Longrightarrow>
   obj_get (foldl (\<lambda>t (k, v). obj_set (toUpperCase k) v t) t s) k = obj_get t k"
  by (induction s arbitrary: t) (auto simp: obj_get_set)

lemma up_fold_lower:
  assumes "list_all (\<lambda>k. toLowerCase k = k) (obj_keys s)" "distinct (obj_keys s)" "toLowerCase k = k"
    and "\<And>j. j \<in> set (obj_keys s) \<Longrightarrow> toUpperCase j \<noteq> k \<or> j = k"
  shows "obj_get (foldl (\<lambda>t (k, v). obj_set (toUpperCase k) v t) s s) k = obj_get s k"
proof (cases "k \<in> set (obj_keys s) \<and> toUpperCase k = k")
  case True
  then show ?thesis using up_fold_get [of s k s] assms upper_inj by (auto simp: list_all_iff)
next
  case False
  then have "\<forall>j \<in> set (map fst s). toUpperCase j \<noteq> k" using assms(4) by metis
  then show ?thesis by (rule up_fold_other)
qed

lemma dtd_up_get:
  assumes "lower_keys s" "toLowerCase k = k"
  shows "obj_get (dtd_up s) k = obj_get s k"
  unfolding dtd_up_def
  by (rule up_fold_lower) (use assms upper_eq_self in \<open>auto simp: lower_keys_def list_all_iff\<close>)

lemma dtd_up_two_case:
  assumes "lower_keys s" "toLowerCase k = k"
  shows "two_case (dtd_up s) k"
proof (cases "k \<in> set (obj_keys s)")
  case True
  then have "obj_get (dtd_up s) (toUpperCase k) = obj_get s k"
    unfolding dtd_up_def using assms
    by (intro up_fold_get) (auto simp: lower_keys_def list_all_iff upper_inj)
  then show ?thesis using dtd_up_get [OF assms] by (simp add: two_case_def)
next
  case False
  have none: "j \<in> set (obj_keys s) \<Longrightarrow> toUpperCase j \<noteq> toUpperCase k" for j
    using False assms upper_inj [of j k] by (auto simp: lower_keys_def list_all_iff)
  have "obj_get (dtd_up s) (toUpperCase k) = obj_get s (toUpperCase k)"
    unfolding dtd_up_def using none by (intro up_fold_other) auto
  also have "\<dots> = None"
    using none by (metis (no_types, lifting) map_of_eq_None_iff set_map upper_upper)
  finally show ?thesis using False dtd_up_get [OF assms] map_of_eq_None_iff [of s k]
    by (simp add: two_case_def)
qed

text \<open>\<open>utils.extend2\<close> keeps what the target has and takes the rest from the sources in order.\<close>

lemma extend2_one_get:
  "obj_get (foldl (\<lambda>t (k, v). if k \<notin> set (obj_keys t) then obj_set k v t else t) t x) j =
     (case obj_get t j of Some v \<Rightarrow> Some v | None \<Rightarrow> obj_get x j)"
proof (induction x arbitrary: t)
  case (Cons a x)
  obtain k v where a: "a = (k, v)" by (cases a)
  show ?case
    using map_of_eq_None_iff [of t k] Cons.IH [of t] Cons.IH [of "obj_set k v t"]
    by (auto simp: a obj_get_set split: option.splits)
qed (simp split: option.splits)

lemma extend2_simps:
  "extend2 t [] = t"
  "extend2 t (x # xs) =
     extend2 (foldl (\<lambda>t (k, v). if k \<notin> set (obj_keys t) then obj_set k v t else t) t x) xs"
  by (simp_all add: extend2_def)

lemma extend2_get_Nil: "obj_get (extend2 t []) j = obj_get t j"
  by (simp add: extend2_def)

lemma extend2_get_Cons:
  "obj_get (extend2 t (x # xs)) j =
     (case obj_get t j of Some v \<Rightarrow> Some v | None \<Rightarrow> obj_get (extend2 x xs) j)"
proof (induction xs arbitrary: t x)
  case (Cons y ys)
  show ?case
    by (simp only: extend2_simps(2) [of t x] Cons.IH extend2_one_get) (simp split: option.splits add: Cons.IH)
qed (simp only: extend2_simps extend2_one_get)

lemmas extend2_get = extend2_get_Nil extend2_get_Cons

lemma extend2_two_case:
  "two_case t k \<Longrightarrow> list_all (\<lambda>x. two_case x k) xs \<Longrightarrow> two_case (extend2 t xs) k"
  by (induction xs arbitrary: t) (auto simp: two_case_def extend2_get split: option.splits)

text \<open>A table is closed when this holds for every lower-case name but \<open>iframe\<close>.\<close>

definition closed :: "dtdtab \<Rightarrow> bool" where
  "closed t \<longleftrightarrow> (\<forall>k. toLowerCase k = k \<longrightarrow> k \<noteq> ''iframe'' \<longrightarrow> two_case t k)"

lemma closed_Nil: "closed []"
  by (simp add: closed_def two_case_def)

lemma closed_iframe: "closed [(''iframe'', 1)]"
proof -
  have "toUpperCase k \<noteq> ''iframe''" if "toLowerCase k = k" "k \<noteq> ''iframe''" for k
    using upper_eq_self [of k "''iframe''"] that by (auto simp: js_eval)
  then show ?thesis by (simp add: closed_def two_case_def)
qed

lemma closed_up: "lower_keys s \<Longrightarrow> closed (dtd_up s)"
  by (simp add: closed_def dtd_up_two_case)

lemma closed_extend2: "closed t \<Longrightarrow> list_all closed xs \<Longrightarrow> closed (extend2 t xs)"
  by (auto simp: closed_def list_all_iff intro!: extend2_two_case)

lemma closed_literals:
  "closed dtd_A"
  "closed dtd_B"
  "closed dtd_E"
  "closed dtd_F"
  "closed dtd_K"
  "closed dtd_M"
  "closed dtd_N"
  "closed dtd_Q"
  "closed dtd_R"
  "closed dtd_S"
  "closed dtd_U"
  "closed dtd_V"
  "closed dtd_block"
  "closed dtd_empty"
  "closed dtd_c_cdata"
  "closed dtd_c_nonChild"
  "closed dtd_c_listItem"
  "closed dtd_c_list"
  "closed dtd_c_isNotEmpty"
  "closed dtd_c_removeEmpty"
  "closed dtd_c_removeEmptyBlock"
  "closed dtd_c_tableContent"
  "closed dtd_c_notTransContent"
  "closed dtd_tag_tr"
  "closed dtd_tag_colgroup"
  "closed dtd_tag_select"
  "closed dtd_tag_table"
  "closed dtd_tag_span"
  "closed dtd_tag_optgroup"
  "closed dtd_tag_dl"
  unfolding dtd_A_def dtd_B_def dtd_E_def dtd_F_def dtd_K_def dtd_M_def dtd_N_def dtd_Q_def dtd_R_def
    dtd_S_def dtd_U_def dtd_V_def dtd_block_def dtd_empty_def dtd_c_cdata_def
    dtd_c_nonChild_def dtd_c_listItem_def dtd_c_list_def dtd_c_isNotEmpty_def
    dtd_c_removeEmpty_def dtd_c_removeEmptyBlock_def dtd_c_tableContent_def
    dtd_c_notTransContent_def dtd_tag_tr_def dtd_tag_colgroup_def dtd_tag_select_def
    dtd_tag_table_def dtd_tag_span_def dtd_tag_optgroup_def dtd_tag_dl_def
  by (rule closed_up, code_simp)+

lemma closed_level1:
  "closed dtd_C"
  "closed dtd_G"
  "closed dtd_O"
  "closed dtd_T"
  "closed dtd_c_body"
  "closed dtd_tag_fieldset"
  unfolding dtd_C_def dtd_G_def dtd_O_def dtd_T_def dtd_c_body_def dtd_tag_fieldset_def
  by (intro closed_extend2 closed_up closed_iframe; simp add: closed_literals lower_keys_def js_eval)+

lemma closed_level2:
  "closed dtd_D"
  "closed dtd_H"
  "closed dtd_c_nonBodyContent"
  "closed dtd_tag_pre"
  unfolding dtd_D_def dtd_H_def dtd_c_nonBodyContent_def dtd_tag_pre_def
  by (intro closed_extend2 closed_up closed_iframe; simp add: closed_literals closed_level1 lower_keys_def js_eval)+

lemma closed_level3:
  "closed dtd_I"
  "closed dtd_J"
  unfolding dtd_I_def dtd_J_def
  by (intro closed_extend2 closed_up closed_iframe; simp add: closed_literals closed_level1 closed_level2 lower_keys_def js_eval)+

lemma closed_level4:
  "closed dtd_L"
  "closed dtd_P"
  "closed dtd_tag_button"
  "closed dtd_tag_a"
  unfolding dtd_L_def dtd_P_def dtd_tag_button_def dtd_tag_a_def
  by (intro closed_extend2 closed_up closed_iframe; simp add: closed_literals closed_level1 closed_level2 closed_level3 lower_keys_def js_eval)+

lemma closed_level5:
  "closed dtd_c_inlineWithA"
  "closed dtd_tag_form"
  "closed dtd_tag_blockquote"
  "closed dtd_tag_address"
  "closed dtd_tag_p"
  unfolding dtd_c_inlineWithA_def dtd_tag_form_def dtd_tag_blockquote_def dtd_tag_address_def
    dtd_tag_p_def
  by (intro closed_extend2 closed_up closed_iframe; simp add: closed_literals closed_level1 closed_level2 closed_level3 closed_level4 lower_keys_def js_eval)+

lemma closed_level6:
  "closed dtd_tag_map"
  unfolding dtd_tag_map_def
  by (intro closed_extend2 closed_up closed_iframe; simp add: closed_literals closed_level1 closed_level2 closed_level3 closed_level4 closed_level5 lower_keys_def js_eval)+

lemmas closed_tables = closed_literals closed_level1 closed_level2 closed_level3 closed_level4 closed_level5 closed_level6 closed_Nil

lemma closed_dtd_literal: "list_all (\<lambda>(k, t). closed t) dtd_literal"
  by (simp add: dtd_literal_def closed_tables)

lemma dtd_literal_distinct: "distinct (obj_keys dtd_literal)"
  by (simp add: dtd_literal_def)

lemma dtd_literal_names: "list_all (\<lambda>k. toLowerCase k = k \<or> CHR ''$'' \<in> set k) (obj_keys dtd_literal)"
  unfolding dtd_literal_def list.map fst_conv by code_simp

lemma upper_dollar: "CHR ''$'' \<in> set (toUpperCase k) \<longleftrightarrow> CHR ''$'' \<in> set k"
proof -
  have "CHR ''$'' = upper_char c \<longleftrightarrow> CHR ''$'' = c" for c
  proof (cases "is_lower c")
    case True
    then have "code (upper_char c) \<ge> 65" "code c \<ge> 97" by (auto simp: upper_char_def is_lower_def code_def)
    moreover have "code CHR ''$'' = 36" by (simp add: code_def)
    ultimately show ?thesis by auto
  qed (simp add: upper_char_def)
  then show ?thesis by (simp add: toUpperCase_def image_iff)
qed

lemma dtd_get_upper:
  assumes k: "k \<in> set (obj_keys dtd_literal)" "CHR ''$'' \<notin> set k"
  shows "obj_get dtd (toUpperCase k) = obj_get dtd_literal k"
  unfolding dtd_def
proof (rule up_fold_get [OF dtd_literal_distinct k(1)])
  fix j assume j: "j \<in> set (obj_keys dtd_literal)" "toUpperCase j = toUpperCase k"
  then have "CHR ''$'' \<notin> set j" using k upper_dollar by metis
  then have "toLowerCase j = j" "toLowerCase k = k"
    using dtd_literal_names j(1) k unfolding list_all_iff by blast+
  then show "j = k" using j(2) upper_inj by blast
qed

lemma dtd_get_lower:
  "k \<in> set (obj_keys dtd_literal) \<Longrightarrow> CHR ''$'' \<notin> set k \<Longrightarrow> obj_get dtd k = obj_get dtd_literal k"
proof -
  assume k: "k \<in> set (obj_keys dtd_literal)" "CHR ''$'' \<notin> set k"
  show "obj_get dtd k = obj_get dtd_literal k"
  proof (cases "toUpperCase k = k")
    case True
    then show ?thesis using dtd_get_upper [OF k] by simp
  next
    case False
    have "toUpperCase j \<noteq> k" for j using False upper_upper by metis
    then show ?thesis unfolding dtd_def by (intro up_fold_other) auto
  qed
qed

subsection \<open>Properties\<close>

text \<open>The tables do not depend on the spelling of the tag names: an element allows a
  child under the upper-case names of \<open>tagName\<close> exactly when it does under the lower-case
  ones. \<open>iframe\<close> is the exception, since one literal is not spelled twice.\<close>

theorem dtd_spelling:
  assumes "parent \<in> set (obj_keys dtd_literal)" "CHR ''$'' \<notin> set parent"
    and "toLowerCase child = child" "child \<noteq> ''iframe''"
    and "child \<notin> set object_prototype_names" "toUpperCase child \<notin> set object_prototype_names"
  shows "dtd_allows (toUpperCase parent) (toUpperCase child) = dtd_allows parent child"
proof -
  obtain t where t: "(parent, t) \<in> set dtd_literal" "obj_get dtd_literal parent = Some t"
    using assms(1) by (metis map_of_SomeD map_of_eq_None_iff not_None_eq set_map)
  then have "closed t" using closed_dtd_literal by (auto simp: list_all_iff)
  then show ?thesis
    using t assms by (simp add: dtd_allows_def dtd_get_upper dtd_get_lower closed_def two_case_def dtd_has_def split: option.splits)
qed

theorem dtd_spelling_witness: "dtd_allows ''TABLE'' ''TR'' = dtd_allows ''table'' ''tr''"
proof -
  have "''table'' \<in> set (obj_keys dtd_literal)" by (simp add: dtd_literal_def)
  moreover have "toUpperCase ''table'' = ''TABLE''" "toUpperCase ''tr'' = ''TR''" "toLowerCase ''tr'' = ''tr''"
    by code_simp+
  ultimately show ?thesis
    using dtd_spelling [of "''table''" "''tr''"] by (simp add: object_prototype_names_def)
qed

lemma dtd_allows_lower:
  "obj_get dtd_literal p = Some t \<Longrightarrow> CHR ''$'' \<notin> set p \<Longrightarrow> dtd_allows p c = dtd_has t c"
  by (metis (mono_tags, lifting) dtd_allows_def dtd_get_lower map_of_eq_None_iff option.simps(5) option.distinct(1) set_map)

lemmas dtd_get_eval = dtd_up_get lower_keys_def js_eval

text \<open>The table of \<open>map\<close> is meant to be \<open>area\<close>, \<open>form\<close>, \<open>p\<close> and the small sets \<open>A\<close>, \<open>F\<close>
  and \<open>E\<close>, none of which has \<open>iframe\<close>, \<open>input\<close> or \<open>img\<close>; but the entry for \<open>form\<close> has
  already extended \<open>A\<close> in place, so \<open>map\<close> allows all three.\<close>

theorem dtd_map_polluted:
  "list_all (\<lambda>c. \<not> dtd_has (extend2 (dtd_up [(''area'', 1), (''form'', 1), (''p'', 1)]) [dtd_A, dtd_F, dtd_E]) c
      \<and> dtd_allows ''map'' c) [''iframe'', ''input'', ''img'']"
    (is "list_all _ ?cs")
proof -
  have m: "obj_get dtd_literal ''map'' = Some dtd_tag_map" by (simp add: dtd_literal_def)
  have lit: "list_all (\<lambda>c. obj_get (dtd_up [(''area'', 1::nat), (''form'', 1), (''p'', 1)]) c = None) ?cs"
    "list_all (\<lambda>c. obj_get dtd_A c = None) ?cs" "list_all (\<lambda>c. obj_get dtd_F c = None) ?cs"
    "list_all (\<lambda>c. obj_get dtd_E c = None) ?cs"
    by (simp_all add: dtd_A_def dtd_F_def dtd_E_def dtd_get_eval)
  have D: "obj_get dtd_D ''iframe'' = Some 1" "obj_get dtd_D ''input'' = Some 1" "obj_get dtd_D ''img'' = None"
    by (simp_all add: dtd_D_def dtd_C_def dtd_B_def extend2_get dtd_get_eval)
  have "obj_get dtd_I ''img'' = Some 1" by (simp add: dtd_I_def dtd_H_def extend2_get dtd_get_eval)
  then have "list_all (\<lambda>c. dtd_has dtd_tag_map c) ?cs"
    using lit D by (simp add: dtd_has_def dtd_tag_map_def dtd_tag_form_def dtd_tag_button_def extend2_get)
  moreover have "list_all (\<lambda>c. \<not> dtd_has (extend2 (dtd_up [(''area'', 1), (''form'', 1), (''p'', 1)]) [dtd_A, dtd_F, dtd_E]) c) ?cs"
    using lit by (simp add: dtd_has_def extend2_get object_prototype_names_def)
  ultimately show ?thesis using dtd_allows_lower [OF m] by simp
qed

end
