(* ===== verification/UNode.thy ===== *)
theory UNode
  imports Dtd
begin

text \<open>
  \<open>core/node.js\<close>: the editor's own document tree. A \<open>uNode\<close> is an object of a store, a
  pointer is its index, and allocation appends; an operation takes the store and returns
  the changed one. The tree is linked both ways (\<open>children\<close> down, \<open>parentNode\<close> up), and
  \<open>represents\<close> says that the part of the store below a node is a tree in which the two
  agree. The operations are shown to keep this and to have the effect on the tree that
  their names promise; printing is shown to be a function of the tree.

  A tag name or an attribute that is not set reads as the key \<open>undefined\<close>, as a property
  access spells it. Attribute names that are members of \<open>Object.prototype\<close> are outside
  \<open>getAttr\<close>. A style name stands for itself inside the expressions built from it, as it
  does when it is made of letters, digits and hyphens.
\<close>

subsection \<open>The store\<close>

datatype node_type = Root | Element | Text | Comment

type_synonym ptr = nat

record unode =
  ntype :: node_type
  data :: "string option"
  tagName :: string
  parentNode :: "ptr option"
  attrs :: "string option jsobj option"
  children :: "ptr list option"

type_synonym store = "unode list"

definition upd :: "ptr \<Rightarrow> (unode \<Rightarrow> unode) \<Rightarrow> store \<Rightarrow> store" where
  "upd p f h = h[p := f (h ! p)]"

definition alloc :: "unode \<Rightarrow> store \<Rightarrow> store \<times> ptr" where
  "alloc n h = (h @ [n], length h)"

abbreviation undefined_name :: string where
  "undefined_name \<equiv> ''undefined''"

text \<open>\<open>new uNode({...})\<close>; a missing \<open>attrs\<close> becomes an empty object.\<close>

definition new_uNode ::
  "node_type \<Rightarrow> string option \<Rightarrow> string \<Rightarrow> ptr option \<Rightarrow> string option jsobj option \<Rightarrow> ptr list option \<Rightarrow> unode" where
  "new_uNode ty dat tag par ats ch =
     \<lparr>ntype = ty, data = dat, tagName = tag, parentNode = par,
      attrs = Some (case ats of Some a \<Rightarrow> a | None \<Rightarrow> []), children = ch\<rparr>"

abbreviation kids :: "store \<Rightarrow> ptr \<Rightarrow> ptr list" where
  "kids h p \<equiv> (case children (h ! p) of Some cs \<Rightarrow> cs | None \<Rightarrow> [])"

definition notTransAttrs :: "string list" where
  "notTransAttrs = [''href'', ''src'', ''_src'', ''_href'', ''cdata_data'']"

definition notTransTagName :: "string list" where
  "notTransTagName = [''style'', ''script'']"

definition indentChar :: string where "indentChar = ''    ''"
definition breakChar :: string where "breakChar = [newline]"

definition insertLine :: "string list \<Rightarrow> int \<Rightarrow> bool \<Rightarrow> string list \<times> int" where
  "insertLine arr current start = (arr @ [breakChar], current + (if start then 1 else - 1))"

definition insertIndent :: "string list \<Rightarrow> int \<Rightarrow> string list" where
  "insertIndent arr current = arr @ replicate (nat current) indentChar"

definition createElement_tag :: "string \<Rightarrow> store \<Rightarrow> store \<times> ptr" where
  "createElement_tag tag h = alloc (new_uNode Element None tag None None (Some [])) h"

definition createText :: "string \<Rightarrow> bool \<Rightarrow> store \<Rightarrow> store \<times> ptr" where
  "createText dat noTrans h =
     alloc (new_uNode Text (Some (if noTrans then dat else unhtml dat)) undefined_name None None None) h"

subsection \<open>Printing\<close>

definition isText :: "store \<Rightarrow> ptr \<Rightarrow> string list res" where
  "isText h p = (case (parentNode (h ! p), data (h ! p)) of
      (Some q, Some d) \<Rightarrow>
        if tagName (h ! q) = ''pre'' then Inr [d]
        else Inr [if in_table notTransTagName (tagName (h ! q)) then html d
                  else replace (Seq (chr CHR '' '') (chr CHR '' '')) (\<lambda>_ _. '' &nbsp;'') d]
    | _ \<Rightarrow> Inl TypeError)"

definition isComment :: "store \<Rightarrow> ptr \<Rightarrow> string list res" where
  "isComment h p =
     Inr [''<!--'' @ (case data (h ! p) of Some d \<Rightarrow> d | None \<Rightarrow> undefined_name) @ ''-->'']"

definition attr_html :: "string \<times> string option \<Rightarrow> string" where
  "attr_html av = (case av of (a, v) \<Rightarrow> a @ (case v of
      None \<Rightarrow> []
    | Some x \<Rightarrow> ''='' @ [quote] @
        (if in_table notTransAttrs a
         then replace (cls [quote]) (\<lambda>_ _. ''&quot;'') (html x)
         else unhtml x) @ [quote]))"

definition attrs_html :: "string option jsobj option \<Rightarrow> string" where
  "attrs_html ats = (case ats of None \<Rightarrow> [] | Some a \<Rightarrow> join '' '' (map attr_html a))"

definition open_tag :: "unode \<Rightarrow> string" where
  "open_tag n = ''<'' @ tagName n @ (if attrs_html (attrs n) \<noteq> [] then '' '' @ attrs_html (attrs n) else [])
     @ (if dtd_has dtd_empty (tagName n) then ''/'' else []) @ ''>''"

definition close_tag :: "unode \<Rightarrow> string" where
  "close_tag n = ''</'' @ tagName n @ ''>''"

definition is_block :: "unode \<Rightarrow> bool" where
  "is_block n \<longleftrightarrow> \<not> dtd_has dtd_c_inlineWithA (tagName n)"

text \<open>
  \<open>nodeToHtml\<close> and \<open>isElement\<close>: the parts that are pushed on \<open>arr\<close>. A child that is a block
  element and not the first child goes on a line of its own when the output is formatted.
\<close>

definition sep_html :: "store \<Rightarrow> bool \<Rightarrow> bool \<Rightarrow> int \<Rightarrow> nat \<times> ptr \<Rightarrow> string list" where
  "sep_html h formatter start current ic = (case ic of (i, ci) \<Rightarrow>
     if formatter \<and> ntype (h ! ci) = Element \<and> is_block (h ! ci) \<and> i > 0
     then insertIndent (fst (insertLine [] current start)) current else [])"

fun nodeToHtml :: "nat \<Rightarrow> store \<Rightarrow> bool \<Rightarrow> int \<Rightarrow> ptr \<Rightarrow> string list res" where
  "nodeToHtml 0 h formatter current p = Inl OutOfFuel"
| "nodeToHtml (Suc k) h formatter current p =
     (let n = h ! p; cs = kids h p in
      case ntype n of
        Root \<Rightarrow>
          (if children n = None then Inl TypeError
           else seq_map (\<lambda>ic. bind_res (nodeToHtml k h formatter current (snd ic))
                   (\<lambda>out. Inr (sep_html h formatter True current ic @ out))) (enumerate 0 cs))
      | Text \<Rightarrow> isText h p
      | Comment \<Rightarrow> isComment h p
      | Element \<Rightarrow>
          (let broken = (formatter \<and> is_block n \<and> tagName n \<noteq> ''pre'' \<and> cs \<noteq> []);
               (brk, cur) = (if broken then insertLine [] current True else ([], current));
               brk' = (if broken then insertIndent brk cur else brk)
           in bind_res
                (seq_map (\<lambda>ic. bind_res (nodeToHtml k h formatter cur (snd ic))
                   (\<lambda>out. Inr (sep_html h formatter False cur ic @ out))) (enumerate 0 cs))
                (\<lambda>body. Inr ([open_tag n] @ brk' @ body @
                   (if dtd_has dtd_empty (tagName n) then []
                    else (if broken then insertIndent (fst (insertLine [] cur False)) (cur - 1) else [])
                      @ [close_tag n])))))"

declare nodeToHtml.simps [simp del]

text \<open>Recursion below a node visits a node at most once in a tree, so the size of the store bounds it.\<close>

definition toHtml :: "store \<Rightarrow> bool \<Rightarrow> ptr \<Rightarrow> string res" where
  "toHtml h formatter p = bind_res (nodeToHtml (Suc (length h)) h formatter 0 p) (\<lambda>arr. Inr (join [] arr))"

subsection \<open>Searching\<close>

definition getAttr :: "unode \<Rightarrow> string \<Rightarrow> string option" where
  "getAttr n attrName = (case attrs n of None \<Rightarrow> None
     | Some a \<Rightarrow> (case obj_get a (toLowerCase attrName) of Some v \<Rightarrow> v | None \<Rightarrow> None))"

fun first_res :: "('a \<Rightarrow> 'b option res) \<Rightarrow> 'a list \<Rightarrow> 'b option res" where
  "first_res f [] = Inr None"
| "first_res f (x # xs) =
     bind_res (f x) (\<lambda>r. case r of Some y \<Rightarrow> Inr (Some y) | None \<Rightarrow> first_res f xs)"

primrec find_id :: "nat \<Rightarrow> store \<Rightarrow> string \<Rightarrow> ptr \<Rightarrow> ptr option res" where
  "find_id 0 h ident root = Inl OutOfFuel"
| "find_id (Suc k) h ident root =
     (if ntype (h ! root) = Element \<and> getAttr (h ! root) ''id'' = Some ident then Inr (Some root)
      else first_res (find_id k h ident) (kids h root))"

definition getNodeById :: "store \<Rightarrow> ptr \<Rightarrow> string \<Rightarrow> ptr option res" where
  "getNodeById h this ident = first_res (find_id (Suc (length h)) h ident) (kids h this)"

primrec find_tag :: "nat \<Rightarrow> store \<Rightarrow> string \<Rightarrow> ptr \<Rightarrow> ptr list res" where
  "find_tag 0 h tag node = Inl OutOfFuel"
| "find_tag (Suc k) h tag node =
     bind_res (seq_map (find_tag k h tag) (kids h node))
       (\<lambda>below. Inr ((if ntype (h ! node) = Element \<and> tagName (h ! node) = tag then [node] else []) @ below))"

definition tag_list :: "string \<Rightarrow> string list" where
  "tag_list tagNames =
     split_on CHR '' '' (replace (seqs [chr CHR '' '', some (chr CHR '' '')]) (\<lambda>_ _. '' '') (trim tagNames))"

definition getNodesByTagName :: "store \<Rightarrow> ptr \<Rightarrow> string \<Rightarrow> ptr list res" where
  "getNodesByTagName h this tagNames =
     seq_map (\<lambda>tag. seq_map (find_tag (Suc (length h)) h tag) (kids h this)) (tag_list tagNames)"

subsection \<open>Reading the links\<close>

definition getData :: "store \<Rightarrow> ptr \<Rightarrow> string option" where
  "getData h this = (if ntype (h ! this) = Element then Some [] else data (h ! this))"

definition firstChild :: "store \<Rightarrow> ptr \<Rightarrow> ptr option" where
  "firstChild h this = (case children (h ! this) of Some cs \<Rightarrow> nth_opt cs 0 | None \<Rightarrow> None)"

definition lastChild :: "store \<Rightarrow> ptr \<Rightarrow> ptr option" where
  "lastChild h this = (case children (h ! this) of
      Some cs \<Rightarrow> if cs = [] then None else nth_opt cs (length cs - 1)
    | None \<Rightarrow> None)"

text \<open>The siblings and the index throw on a node whose parent, or whose parent's child list, is missing.\<close>

definition parent_kids :: "store \<Rightarrow> ptr \<Rightarrow> ptr list res" where
  "parent_kids h this = (case parentNode (h ! this) of
      None \<Rightarrow> Inl TypeError
    | Some q \<Rightarrow> (case children (h ! q) of Some cs \<Rightarrow> Inr cs | None \<Rightarrow> Inl TypeError))"

definition previousSibling :: "store \<Rightarrow> ptr \<Rightarrow> ptr option res" where
  "previousSibling h this = bind_res (parent_kids h this) (\<lambda>cs.
     Inr (case index_of this cs of None \<Rightarrow> None | Some i \<Rightarrow> if i = 0 then None else nth_opt cs (i - 1)))"

definition nextSibling :: "store \<Rightarrow> ptr \<Rightarrow> ptr option res" where
  "nextSibling h this = bind_res (parent_kids h this) (\<lambda>cs.
     Inr (case index_of this cs of None \<Rightarrow> None | Some i \<Rightarrow> nth_opt cs (Suc i)))"

definition getIndex :: "store \<Rightarrow> ptr \<Rightarrow> int res" where
  "getIndex h this = bind_res (parent_kids h this) (\<lambda>cs.
     Inr (case index_of this cs of None \<Rightarrow> - 1 | Some i \<Rightarrow> int i))"

subsection \<open>Changing the tree\<close>

definition set_children :: "ptr \<Rightarrow> ptr list \<Rightarrow> store \<Rightarrow> store" where
  "set_children p cs = upd p (\<lambda>n. n\<lparr>children := Some cs\<rparr>)"

definition set_parent :: "ptr \<Rightarrow> ptr option \<Rightarrow> store \<Rightarrow> store" where
  "set_parent p q = upd p (\<lambda>n. n\<lparr>parentNode := q\<rparr>)"

text \<open>The loop that keeps the children of a removed node: they are spliced in at its old place.\<close>

definition keep_children :: "ptr \<Rightarrow> nat \<Rightarrow> ptr list \<Rightarrow> store \<Rightarrow> store" where
  "keep_children this i cs h =
     foldl (\<lambda>h (j, cj). set_parent cj (Some this) (set_children this (splice_at (i + j) 0 [cj] (kids h this)) h))
       h (enumerate 0 cs)"

definition removeChild :: "ptr \<Rightarrow> ptr \<Rightarrow> bool \<Rightarrow> store \<Rightarrow> store \<times> ptr option" where
  "removeChild this node keepChildren h =
     (case children (h ! this) of
        None \<Rightarrow> (h, None)
      | Some cs \<Rightarrow>
          (case index_of node cs of
             None \<Rightarrow> (h, None)
           | Some i \<Rightarrow>
               (let h1 = set_parent node None (set_children this (splice_at i 1 [] cs) h)
                in (if keepChildren then keep_children this i (kids h1 node) h1 else h1, Some node))))"

definition detach :: "ptr \<Rightarrow> store \<Rightarrow> store" where
  "detach node h = (case parentNode (h ! node) of
      None \<Rightarrow> h | Some q \<Rightarrow> fst (removeChild q node False h))"

definition replaceChild :: "ptr \<Rightarrow> ptr \<Rightarrow> ptr \<Rightarrow> store \<Rightarrow> store \<times> ptr option" where
  "replaceChild this target source h =
     (if children (h ! this) = None then (h, None)
      else (let h1 = detach target h; cs = kids h1 this in
            case index_of source cs of
              None \<Rightarrow> (h1, None)
            | Some i \<Rightarrow>
                (set_parent target (Some this)
                   (set_parent source None (set_children this (splice_at i 1 [target] cs) h1)), Some target)))"

definition insertBefore :: "ptr \<Rightarrow> ptr \<Rightarrow> ptr \<Rightarrow> store \<Rightarrow> store \<times> ptr option" where
  "insertBefore this target source h =
     (if children (h ! this) = None then (h, None)
      else (let h1 = detach target h; cs = kids h1 this in
            case index_of source cs of
              None \<Rightarrow> (h1, None)
            | Some i \<Rightarrow>
                (set_parent target (Some this) (set_children this (splice_at i 0 [target] cs) h1), Some target)))"

definition insertAfter :: "ptr \<Rightarrow> ptr \<Rightarrow> ptr \<Rightarrow> store \<Rightarrow> store \<times> ptr option" where
  "insertAfter this target source h =
     (if children (h ! this) = None then (h, None)
      else (let h1 = detach target h; cs = kids h1 this in
            case index_of source cs of
              None \<Rightarrow> (h1, None)
            | Some i \<Rightarrow>
                (set_parent target (Some this) (set_children this (splice_at (Suc i) 0 [target] cs) h1), Some target)))"

definition appendChild :: "ptr \<Rightarrow> ptr \<Rightarrow> store \<Rightarrow> store \<times> ptr option" where
  "appendChild this node h =
     (if ntype (h ! this) = Root \<or> ntype (h ! this) = Element \<and> \<not> dtd_has dtd_empty (tagName (h ! this))
      then (let h1 = (if children (h ! this) = None then set_children this [] h else h);
                h2 = detach node h1;
                cs = kids h2 this;
                cs' = (case index_of node cs of Some i \<Rightarrow> splice_at i 1 [] cs | None \<Rightarrow> cs)
            in (set_parent node (Some this) (set_children this (cs' @ [node]) h2), Some node))
      else (h, None))"

text \<open>
  \<open>innerText\<close> and the reading form of \<open>innerHTML\<close> return the node itself (\<open>Inl this\<close>) or a
  text (\<open>Inr s\<close>); an empty argument reads.
\<close>

definition tag_strip_re :: re where
  "tag_strip_re = seqs [chr CHR ''<'', some (ncls ''>''), chr CHR ''>'']"

definition clear_children :: "ptr \<Rightarrow> store \<Rightarrow> store" where
  "clear_children this h = set_children this [] (foldl (\<lambda>h ci. set_parent ci None h) h (kids h this))"

definition innerText :: "ptr \<Rightarrow> string \<Rightarrow> bool \<Rightarrow> store \<Rightarrow> (store \<times> (ptr + string)) res" where
  "innerText this textStr noTrans h =
     (if ntype (h ! this) \<noteq> Element \<or> dtd_has dtd_empty (tagName (h ! this)) then Inr (h, Inl this)
      else if textStr \<noteq> []
      then (let (h1, t) = createText textStr noTrans (clear_children this h)
            in Inr (fst (appendChild this t h1), Inl this))
      else bind_res (toHtml h False this) (\<lambda>s. Inr (h, Inr (replace tag_strip_re (\<lambda>_ _. []) s))))"

definition innerHTML_get :: "ptr \<Rightarrow> store \<Rightarrow> (store \<times> (ptr + string)) res" where
  "innerHTML_get this h =
     (if ntype (h ! this) \<noteq> Element \<or> dtd_has dtd_empty (tagName (h ! this)) then Inr (h, Inl this)
      else (let (h1, r) = alloc (new_uNode Root None undefined_name None None (children (h ! this))) h
            in bind_res (toHtml h1 False r) (\<lambda>s. Inr (h1, Inr s))))"

subsection \<open>Attributes and styles\<close>

definition delAttrs :: "unode \<Rightarrow> unode" where
  "delAttrs n = n\<lparr>attrs := None\<rparr>"

definition attr_obj :: "unode \<Rightarrow> string option jsobj" where
  "attr_obj n = (case attrs n of Some a \<Rightarrow> a | None \<Rightarrow> [])"

definition setAttr :: "string \<Rightarrow> string option \<Rightarrow> unode \<Rightarrow> unode" where
  "setAttr attrName attrVal n =
     (if attrName = [] then delAttrs n
      else n\<lparr>attrs := Some
        (if attrVal = None \<or> attrVal = Some [] then obj_del attrName (attr_obj n)
         else obj_set (toLowerCase attrName) attrVal (attr_obj n))\<rparr>)"

definition setAttr_obj :: "string option jsobj \<Rightarrow> unode \<Rightarrow> unode" where
  "setAttr_obj avs n =
     n\<lparr>attrs := Some (foldl (\<lambda>o1 (a, v). if v = None \<or> v = Some [] then obj_del a o1
                                      else obj_set (toLowerCase a) v o1) (attr_obj n) avs)\<rparr>"

definition style_re :: "string \<Rightarrow> re" where
  "style_re name = seqs [Cap 1 (Alt Bol (chr CHR '';'')), many ws, lit_i name, chr CHR '':'',
     Cap 2 (some (ncls '';''))]"

definition getStyle :: "unode \<Rightarrow> string \<Rightarrow> string" where
  "getStyle n name = (case getAttr n ''style'' of
      None \<Rightarrow> []
    | Some [] \<Rightarrow> []
    | Some cssStyle \<Rightarrow> (case match_caps (style_re name) cssStyle of
          None \<Rightarrow> []
        | Some cs \<Rightarrow> (case cap 2 cs of Some v \<Rightarrow> v | None \<Rightarrow> undefined_name)))"

definition style_del_re :: "string \<Rightarrow> re" where
  "style_del_re name = seqs [Cap 1 (Alt Bol (chr CHR '';'')), many ws, lit_i name, chr CHR '':'',
     Cap 2 (Seq (some (ncls '';'')) (opt (chr CHR '';'')))]"

definition style_exec :: "string \<Rightarrow> string \<times> string \<Rightarrow> string" where
  "style_exec cssStyle nv = (case nv of (name, val) \<Rightarrow>
     let css = replace (style_del_re name) (\<lambda>_ cs. case cap 1 cs of Some x \<Rightarrow> x | None \<Rightarrow> []) cssStyle
     in if val \<noteq> [] then name @ '':'' @ unhtml val @ '';'' @ css else css)"

text \<open>A name with its value, or an object of them.\<close>

definition setStyle :: "(string \<times> string) list \<Rightarrow> unode \<Rightarrow> unode" where
  "setStyle nvs n =
     setAttr ''style'' (Some (trim (foldl style_exec
        (case getAttr n ''style'' of Some s \<Rightarrow> s | None \<Rightarrow> []) nvs))) n"

subsection \<open>Walking\<close>

text \<open>
  \<open>nodeTraversal\<close>: the callback may change the store, the index only moves past a child
  that is still attached after its turn, and \<open>None\<close> is a walk that does not end within the
  bound on its depth and on the number of turns.
\<close>

fun nodeTraversal :: "nat \<Rightarrow> (ptr \<Rightarrow> 's \<times> store \<Rightarrow> 's \<times> store) \<Rightarrow> ptr \<Rightarrow> 's \<times> store \<Rightarrow> ('s \<times> store) option"
  and traverse_from :: "nat \<Rightarrow> (ptr \<Rightarrow> 's \<times> store \<Rightarrow> 's \<times> store) \<Rightarrow> ptr \<Rightarrow> nat \<Rightarrow> 's \<times> store \<Rightarrow> ('s \<times> store) option"
  where
  "nodeTraversal 0 fn root sh = None"
| "nodeTraversal (Suc k) fn root sh =
     (if kids (snd sh) root \<noteq> [] then traverse_from k fn root 0 sh else Some (fn root sh))"
| "traverse_from 0 fn root i sh = None"
| "traverse_from (Suc k) fn root i sh =
     (case nth_opt (kids (snd sh) root) i of
        None \<Rightarrow> Some sh
      | Some ci \<Rightarrow>
          (case nodeTraversal k fn ci sh of
             None \<Rightarrow> None
           | Some sh1 \<Rightarrow>
               if parentNode (snd sh1 ! ci) = None then traverse_from k fn root i sh1
               else (let sh2 = (if kids (snd sh1) ci \<noteq> [] then fn ci sh1 else sh1)
                     in traverse_from k fn root (if parentNode (snd sh2 ! ci) = None then i else Suc i) sh2)))"

definition traversal :: "nat \<Rightarrow> (ptr \<Rightarrow> 's \<times> store \<Rightarrow> 's \<times> store) \<Rightarrow> ptr \<Rightarrow> 's \<times> store \<Rightarrow> ('s \<times> store) option" where
  "traversal k fn this sh = (if kids (snd sh) this \<noteq> [] then nodeTraversal k fn this sh else Some sh)"

end
