(* ===== verification/UTree.thy ===== *)
theory UTree
  imports UNode
begin

text \<open>
  The tree that a part of the store represents, and the operations of \<open>core/node.js\<close> on it:
  every operation that changes the links keeps the store a tree with agreeing links and has
  the effect on the tree that its name promises; printing depends on the tree only and ends.
\<close>

subsection \<open>Trees of pointers\<close>

datatype ptree = PT (proot: ptr) (subs: "ptree list")

fun ptrs :: "ptree \<Rightarrow> ptr list" where
  "ptrs (PT p ts) = p # concat (map ptrs ts)"

text \<open>The links below a node agree: every child points back to its parent.\<close>

fun rep :: "store \<Rightarrow> ptr option \<Rightarrow> ptree \<Rightarrow> bool" where
  "rep h par (PT p ts) \<longleftrightarrow>
     p < length h \<and> parentNode (h ! p) = par \<and> kids h p = map proot ts \<and> list_all (rep h (Some p)) ts"

definition represents :: "store \<Rightarrow> ptr option \<Rightarrow> ptree \<Rightarrow> bool" where
  "represents h par t \<longleftrightarrow> rep h par t \<and> distinct (ptrs t)"

text \<open>The subtrees below a node of the tree, and the tree with them changed.\<close>

fun sub :: "ptr \<Rightarrow> ptree \<Rightarrow> ptree list" where
  "sub p (PT q ts) = (if q = p then ts else concat (map (sub p) ts))"

fun at :: "ptr \<Rightarrow> (ptree list \<Rightarrow> ptree list) \<Rightarrow> ptree \<Rightarrow> ptree" where
  "at p f (PT q ts) = PT q (if q = p then f ts else map (at p f) ts)"

definition same_links :: "store \<Rightarrow> store \<Rightarrow> ptr \<Rightarrow> bool" where
  "same_links h h' p \<longleftrightarrow> (p < length h \<longrightarrow> p < length h') \<and>
     parentNode (h' ! p) = parentNode (h ! p) \<and> kids h' p = kids h p"

lemma proot_in_ptrs [simp]: "proot t \<in> set (ptrs t)"
  by (cases t) simp

lemma rep_frame: "rep h par t \<Longrightarrow> (\<And>p. p \<in> set (ptrs t) \<Longrightarrow> same_links h h' p) \<Longrightarrow> rep h' par t"
proof (induction t arbitrary: par)
  case (PT p ts)
  have "same_links h h' p" using PT.prems(2) by simp
  moreover have "list_all (rep h' (Some p)) ts"
  proof -
    have "rep h' (Some p) t" if "t \<in> set ts" for t
      using PT.prems that by (intro PT.IH) (auto simp: list_all_iff)
    then show ?thesis by (simp add: list_all_iff)
  qed
  ultimately show ?case using PT.prems(1) by (simp add: same_links_def)
qed

lemma rep_bound: "rep h par t \<Longrightarrow> p \<in> set (ptrs t) \<Longrightarrow> p < length h"
  by (induction t arbitrary: par) (auto simp: list_all_iff)

lemma rep_parent: "rep h par t \<Longrightarrow> parentNode (h ! proot t) = par"
  by (cases t) simp

lemma proot_at [simp]: "proot (at p f t) = proot t"
  by (cases t) simp

lemma at_id: "p \<notin> set (ptrs t) \<Longrightarrow> at p f t = t"
  by (induction t) (auto intro: map_idI)

lemma sub_notin: "p \<notin> set (ptrs t) \<Longrightarrow> sub p t = []"
  by (induction t) auto

lemma ptrs_sub: "x \<in> set (sub p t) \<Longrightarrow> set (ptrs x) \<subseteq> set (ptrs t)"
  by (induction t) (fastforce split: if_splits)

lemma distinct_subtree: "distinct (concat (map ptrs ts)) \<Longrightarrow> t \<in> set ts \<Longrightarrow> distinct (ptrs t)"
  by (induction ts) auto

lemma distinct_others:
  "distinct (concat (map ptrs ts)) \<Longrightarrow> i < length ts \<Longrightarrow> j < length ts \<Longrightarrow> i \<noteq> j \<Longrightarrow>
   set (ptrs (ts ! i)) \<inter> set (ptrs (ts ! j)) = {}"
proof (induction ts arbitrary: i j)
  case (Cons t ts)
  then show ?case by (cases i; cases j) (fastforce simp: nth_mem)+
qed simp

lemma disjoint_sub:
  "distinct (concat (map ptrs ts)) \<Longrightarrow> z \<in> set ts \<Longrightarrow> y \<in> set ts \<Longrightarrow> z \<noteq> y \<Longrightarrow>
   set (ptrs z) \<inter> set (ptrs y) = {}"
  by (induction ts) fastforce+

lemma sub_unique:
  assumes "distinct (concat (map ptrs ts))" "c \<in> set ts" "p \<in> set (ptrs c)"
  shows "concat (map (sub p) ts) = sub p c"
proof -
  obtain us vs where ts: "ts = us @ c # vs" using assms(2) by (meson split_list)
  have no: "p \<notin> set (ptrs x)" if "x \<in> set us \<union> set vs" for x
    using assms that by (auto simp: ts)
  have "concat (map (sub p) us) = []" "concat (map (sub p) vs) = []" using no by (auto simp: sub_notin)
  then show ?thesis by (simp only: ts map_append list.map concat_append concat.simps append_Nil append_Nil2)
qed

text \<open>Induction along the path from the root of a tree to one of its nodes.\<close>

lemma path_induct [consumes 2, case_names here below]:
  assumes "p \<in> set (ptrs t)" "distinct (ptrs t)"
    and here: "\<And>ts. distinct (ptrs (PT p ts)) \<Longrightarrow> P (PT p ts)"
    and below: "\<And>q us c vs. q \<noteq> p \<Longrightarrow> distinct (ptrs (PT q (us @ c # vs))) \<Longrightarrow> p \<in> set (ptrs c) \<Longrightarrow>
       \<forall>x \<in> set us. p \<notin> set (ptrs x) \<Longrightarrow> \<forall>x \<in> set vs. p \<notin> set (ptrs x) \<Longrightarrow>
       P c \<Longrightarrow> P (PT q (us @ c # vs))"
  shows "P t"
  using assms(1,2)
proof (induction t)
  case (PT q ts)
  show ?case
  proof (cases "q = p")
    case False
    then obtain c where c: "c \<in> set ts" "p \<in> set (ptrs c)" using PT.prems by auto
    then obtain us vs where ts: "ts = us @ c # vs" by (meson split_list)
    have "P c" using PT.IH [OF c(1) c(2)] PT.prems ts by simp
    moreover have "\<forall>x \<in> set us. p \<notin> set (ptrs x)" "\<forall>x \<in> set vs. p \<notin> set (ptrs x)"
      using PT.prems(2) c by (auto simp: ts)
    ultimately show ?thesis using below False PT.prems c ts by blast
  qed (use here PT.prems in simp)
qed

lemma path_simps:
  assumes "q \<noteq> p" "\<forall>x \<in> set us. p \<notin> set (ptrs x)" "\<forall>x \<in> set vs. p \<notin> set (ptrs x)"
  shows "sub p (PT q (us @ c # vs)) = sub p c"
    and "at p f (PT q (us @ c # vs)) = PT q (us @ at p f c # vs)"
proof -
  have "concat (map (sub p) us) = []" "concat (map (sub p) vs) = []" using assms(2,3) by (auto simp: sub_notin)
  then show "sub p (PT q (us @ c # vs)) = sub p c" using assms(1)
    by (simp only: sub.simps if_False map_append list.map concat_append concat.simps append_Nil append_Nil2)
  have "map (at p f) us = us" "map (at p f) vs = vs" using assms(2,3) by (auto intro!: map_idI at_id)
  then show "at p f (PT q (us @ c # vs)) = PT q (us @ at p f c # vs)" using assms(1) by simp
qed

declare sub.simps [simp del] at.simps [simp del]

lemma here_simps: "sub p (PT p ts) = ts" "at p f (PT p ts) = PT p (f ts)"
  by (simp_all add: sub.simps at.simps)

lemma sub_distinct: "p \<in> set (ptrs t) \<Longrightarrow> distinct (ptrs t) \<Longrightarrow> distinct (p # concat (map ptrs (sub p t)))"
  by (induction rule: path_induct) (simp_all add: here_simps path_simps)

lemma rep_sub:
  "p \<in> set (ptrs t) \<Longrightarrow> distinct (ptrs t) \<Longrightarrow> rep h par t \<Longrightarrow>
   kids h p = map proot (sub p t) \<and> list_all (rep h (Some p)) (sub p t)"
proof (induction arbitrary: par rule: path_induct)
  case (below q us c vs)
  then have "rep h (Some q) c" by simp
  then show ?case using below.IH below.hyps by (simp add: path_simps)
qed (simp add: here_simps)

lemma at_const: "p \<in> set (ptrs t) \<Longrightarrow> distinct (ptrs t) \<Longrightarrow> at p f t = at p (\<lambda>_. f (sub p t)) t"
  by (induction rule: path_induct) (simp_all add: here_simps path_simps)

text \<open>The pointers of the tree with the subtrees of one node changed.\<close>

lemma mset_ptrs_at:
  "p \<in> set (ptrs t) \<Longrightarrow> distinct (ptrs t) \<Longrightarrow>
   mset (ptrs (at p f t)) + mset (concat (map ptrs (sub p t))) =
   mset (ptrs t) + mset (concat (map ptrs (f (sub p t))))"
  by (induction rule: path_induct) (simp_all add: here_simps path_simps)

lemma set_ptrs_at:
  "p \<in> set (ptrs t) \<Longrightarrow> distinct (ptrs t) \<Longrightarrow>
   set (ptrs (at p f t)) \<subseteq> set (ptrs t) \<union> set (concat (map ptrs (f (sub p t))))"
  by (induction rule: path_induct) (auto simp: here_simps path_simps)

lemma in_ptrs_at: "p \<in> set (ptrs t) \<Longrightarrow> distinct (ptrs t) \<Longrightarrow> p \<in> set (ptrs (at p f t))"
  by (induction rule: path_induct) (auto simp: here_simps path_simps)

lemma at_at: "p \<in> set (ptrs t) \<Longrightarrow> distinct (ptrs t) \<Longrightarrow> at p (\<lambda>_. gs) (at p f t) = at p (\<lambda>_. gs) t"
  by (induction rule: path_induct) (simp_all add: here_simps path_simps)

lemma sub_at: "p \<in> set (ptrs t) \<Longrightarrow> distinct (ptrs t) \<Longrightarrow> sub p (at p f t) = f (sub p t)"
  by (induction rule: path_induct) (simp_all add: here_simps path_simps)

text \<open>
  The store after a local change represents the changed tree: outside the subtrees of one
  node \<open>p\<close> the links are as before, and below \<open>p\<close> they are those of the new subtrees.
\<close>

lemma rep_at:
  assumes "p \<in> set (ptrs t)" "distinct (ptrs t)" "rep h par t"
    and "\<And>q. q \<in> set (ptrs t) \<Longrightarrow> q \<noteq> p \<Longrightarrow> q \<notin> set (concat (map ptrs (sub p t))) \<Longrightarrow> same_links h h' q"
    and "p < length h'" "parentNode (h' ! p) = parentNode (h ! p)"
    and "kids h' p = map proot (f (sub p t))" "list_all (rep h' (Some p)) (f (sub p t))"
  shows "rep h' par (at p f t)"
  using assms(1-4,7-8)
proof (induction arbitrary: par rule: path_induct)
  case (here ts)
  then show ?case using assms(5,6) by (simp add: here_simps)
next
  case (below q us c vs)
  note ps = path_simps [OF below.hyps(1,4,5)]
  have subc: "set (concat (map ptrs (sub p c))) \<subseteq> set (ptrs c)" using ptrs_sub by fastforce
  have same: "same_links h h' r" if "r \<in> insert q (\<Union> (set ` ptrs ` (set us \<union> set vs)))" for r
  proof (rule below.prems(2))
    show "r \<in> set (ptrs (PT q (us @ c # vs)))" using that by auto
    show "r \<noteq> p" using that below.hyps by auto
    have "r \<notin> set (ptrs c)" using that below.hyps(2) by auto
    then show "r \<notin> set (concat (map ptrs (sub p (PT q (us @ c # vs)))))" using subc by (auto simp: ps)
  qed
  have "rep h' (Some q) x" if "x \<in> set us \<union> set vs" for x
    using below.prems(1) that by (intro rep_frame [of h "Some q" x h']) (auto simp: list_all_iff intro!: same)
  moreover have "rep h' (Some q) (at p f c)"
    using below.prems by (intro below.IH) (auto simp: ps)
  moreover have "same_links h h' q" by (rule same) simp
  ultimately show ?case using below.prems(1) by (auto simp: ps same_links_def list_all_iff)
qed

subsection \<open>The link updates\<close>

lemma length_links [simp]:
  "length (set_children p cs h) = length h" "length (set_parent p x h) = length h"
  by (simp_all add: set_children_def set_parent_def upd_def)

lemma set_children_nth: "set_children p cs h ! q = (if q = p \<and> p < length h then (h ! q)\<lparr>children := Some cs\<rparr> else h ! q)"
  by (cases "p < length h") (auto simp: set_children_def upd_def nth_list_update list_update_beyond)

lemma set_parent_nth: "set_parent p x h ! q = (if q = p \<and> p < length h then (h ! q)\<lparr>parentNode := x\<rparr> else h ! q)"
  by (cases "p < length h") (auto simp: set_parent_def upd_def nth_list_update list_update_beyond)

lemmas link_simps = set_children_nth set_parent_nth

lemma set_children_parent: "set_children p cs (set_parent q x h) = set_parent q x (set_children p cs h)"
  by (rule nth_equalityI) (auto simp: link_simps)

lemma set_children_twice: "set_children p cs (set_children p ds h) = set_children p cs h"
  by (rule nth_equalityI) (auto simp: link_simps)

lemma index_of_proot:
  "distinct (concat (map ptrs (us @ x # vs))) \<Longrightarrow> index_of (proot x) (map proot (us @ x # vs)) = Some (length us)"
proof -
  assume d: "distinct (concat (map ptrs (us @ x # vs)))"
  have "proot x \<notin> set (map proot us)"
  proof
    assume "proot x \<in> set (map proot us)"
    then obtain u where "u \<in> set us" "proot u = proot x" by auto
    then show False using d proot_in_ptrs [of u] proot_in_ptrs [of x] by fastforce
  qed
  then show ?thesis using index_of_append_notin [of "proot x" "map proot us" "map proot vs"] by simp
qed

lemma splice_at_map:
  "splice_at (length us) (Suc 0) [] (map proot us @ proot x # map proot vs) = map proot us @ map proot vs"
  "splice_at (length us) 0 [a] (map proot us @ proot x # map proot vs) = map proot us @ a # proot x # map proot vs"
  "splice_at (Suc (length us)) 0 [a] (map proot us @ proot x # map proot vs) = map proot us @ proot x # a # map proot vs"
  "splice_at (length us) (Suc 0) [a] (map proot us @ proot x # map proot vs) = map proot us @ a # map proot vs"
  by (simp_all add: splice_at_def)

subsection \<open>Removing a child\<close>

lemma removeChild_rep:
  assumes t: "represents h par t" "p \<in> set (ptrs t)" "sub p t = us @ x # vs"
  shows "snd (removeChild p (proot x) False h) = Some (proot x)"
    and "represents (fst (removeChild p (proot x) False h)) par (at p (\<lambda>_. us @ vs) t)"
    and "represents (fst (removeChild p (proot x) False h)) None x"
    and "set (ptrs (at p (\<lambda>_. us @ vs) t)) \<inter> set (ptrs x) = {}"
proof -
  have d: "distinct (ptrs t)" and r: "rep h par t" using t by (auto simp: represents_def)
  have sd: "distinct (p # concat (map ptrs (us @ x # vs)))" using sub_distinct [OF t(2) d] t(3) by simp
  have k: "kids h p = map proot (us @ x # vs)" "list_all (rep h (Some p)) (us @ x # vs)"
    using rep_sub [OF t(2) d r] t(3) by auto
  then have c: "children (h ! p) = Some (map proot (us @ x # vs))" by (auto split: option.splits)
  let ?h = "set_parent (proot x) None (set_children p (map proot (us @ vs)) h)"
  have e: "removeChild p (proot x) False h = (?h, Some (proot x))"
    using c index_of_proot [of us x vs] sd by (simp add: removeChild_def splice_at_map Let_def)
  have p: "p < length h" using rep_bound [OF r t(2)] .
  have px: "proot x \<noteq> p" using sd proot_in_ptrs [of x] by (auto simp del: proot_in_ptrs)
  have same: "same_links h ?h q" if "q \<noteq> p" "q \<noteq> proot x" for q
    using that by (simp add: same_links_def link_simps)
  have "rep ?h (Some p) y" if y: "y \<in> set (us @ vs)" for y
  proof (rule rep_frame [of h])
    show "rep h (Some p) y" using k(2) y by (auto simp: list_all_iff)
    fix q assume q: "q \<in> set (ptrs y)"
    then have "q \<noteq> p" "q \<notin> set (ptrs x)" using y sd by auto
    then show "same_links h ?h q" by (intro same) auto
  qed
  then have "rep ?h par (at p (\<lambda>_. us @ vs) t)"
    using t(3) p px by (intro rep_at [OF t(2) d r] same) (auto simp: link_simps list_all_iff)
  moreover have m: "mset (ptrs (at p (\<lambda>_. us @ vs) t)) + mset (ptrs x) = mset (ptrs t)"
    using mset_ptrs_at [OF t(2) d, of "\<lambda>_. us @ vs"] by (simp add: t(3) algebra_simps)
  have dd: "distinct (ptrs (at p (\<lambda>_. us @ vs) t) @ ptrs x)"
    using d m by (metis mset_append mset_eq_imp_distinct_iff)
  moreover have "rep ?h None x"
  proof (cases x)
    case (PT n ns)
    have "rep ?h (Some n) y" if y: "y \<in> set ns" for y
    proof (rule rep_frame [of h])
      show "rep h (Some n) y" using k(2) y PT by (auto simp: list_all_iff)
      fix q assume q: "q \<in> set (ptrs y)"
      then have "q \<noteq> p" "q \<noteq> n" using y sd PT by auto
      then show "same_links h ?h q" using PT by (intro same) auto
    qed
    then show ?thesis using k(2) px PT by (auto simp: link_simps list_all_iff)
  qed
  ultimately show "snd (removeChild p (proot x) False h) = Some (proot x)"
    "represents (fst (removeChild p (proot x) False h)) par (at p (\<lambda>_. us @ vs) t)"
    "represents (fst (removeChild p (proot x) False h)) None x"
    "set (ptrs (at p (\<lambda>_. us @ vs) t)) \<inter> set (ptrs x) = {}"
    by (auto simp: e represents_def)
qed

lemma detach_rep:
  assumes t: "represents h par t" "p \<in> set (ptrs t)" "sub p t = us @ x # vs"
  shows "represents (detach (proot x) h) par (at p (\<lambda>_. us @ vs) t)" "represents (detach (proot x) h) None x"
proof -
  have "list_all (rep h (Some p)) (us @ x # vs)"
    using rep_sub [OF t(2)] t by (auto simp: represents_def)
  then have "parentNode (h ! proot x) = Some p" by (auto intro: rep_parent)
  then show "represents (detach (proot x) h) par (at p (\<lambda>_. us @ vs) t)" "represents (detach (proot x) h) None x"
    using removeChild_rep [OF t] by (simp_all add: detach_def)
qed

lemma detach_free: "represents h None x \<Longrightarrow> detach (proot x) h = h"
  using rep_parent [of h None x] by (simp add: represents_def detach_def)

subsection \<open>Putting a detached node into a tree\<close>

lemma rep_adopt:
  assumes "represents h q x" "proot x \<noteq> p" "p \<notin> set (ptrs x)"
    and "\<And>r. r \<in> set (ptrs x) \<Longrightarrow> r \<noteq> proot x \<Longrightarrow> same_links h h' r"
    and "proot x < length h'" "parentNode (h' ! proot x) = q'" "kids h' (proot x) = kids h (proot x)"
  shows "rep h' q' x"
proof (cases x)
  case (PT n ns)
  have "rep h' (Some n) y" if y: "y \<in> set ns" for y
  proof (rule rep_frame [of h])
    show "rep h (Some n) y" using assms(1) y PT by (auto simp: represents_def list_all_iff)
    fix r assume r: "r \<in> set (ptrs y)"
    then have "r \<noteq> n" "r \<in> set (ptrs x)" using y assms(1) PT by (auto simp: represents_def)
    then show "same_links h h' r" using PT assms(4) by auto
  qed
  then show ?thesis using assms PT by (auto simp: represents_def list_all_iff)
qed

text \<open>
  The store after a child list of \<open>t\<close> is rewritten: the subtrees that stay keep their
  parent, the new subtree \<open>x\<close> is adopted.
\<close>

lemma insert_rep:
  assumes t: "represents h par t" "p \<in> set (ptrs t)" and x: "represents h None x"
    and disj: "set (ptrs t) \<inter> set (ptrs x) = {}" and s: "sub p t = us @ vs"
    and h': "h' = set_parent (proot x) (Some p) (set_children p (map proot (us @ x # vs)) h)"
  shows "represents h' par (at p (\<lambda>_. us @ x # vs) t)"
proof -
  have d: "distinct (ptrs t)" and r: "rep h par t" using t by (auto simp: represents_def)
  have sd: "distinct (p # concat (map ptrs (us @ vs)))" using sub_distinct [OF t(2) d] s by simp
  have subt: "set (ptrs y) \<subseteq> set (ptrs t)" if "y \<in> set (us @ vs)" for y using ptrs_sub that s by metis
  have k: "list_all (rep h (Some p)) (us @ vs)" using rep_sub [OF t(2) d r] s by auto
  have p: "p < length h" using rep_bound [OF r t(2)] .
  have px: "p \<notin> set (ptrs x)" "proot x \<noteq> p" using disj t(2) proot_in_ptrs [of x] by (auto simp del: proot_in_ptrs)
  have lx: "proot x < length h" using x rep_bound [of h None x] by (simp add: represents_def)
  have same: "same_links h h' q" if "q \<noteq> p" "q \<noteq> proot x" for q
    using that by (simp add: h' same_links_def link_simps)
  have "rep h' (Some p) y" if y: "y \<in> set (us @ vs)" for y
  proof (rule rep_frame [of h])
    show "rep h (Some p) y" using k y by (auto simp: list_all_iff)
    fix q assume q: "q \<in> set (ptrs y)"
    then have "q \<noteq> p" "q \<notin> set (ptrs x)" using y sd subt [OF y] disj by auto
    then show "same_links h h' q" by (intro same) auto
  qed
  moreover have "rep h' (Some p) x"
    using px p lx by (intro rep_adopt [OF x px(2,1)] same) (auto simp: h' link_simps)
  ultimately have "rep h' par (at p (\<lambda>_. us @ x # vs) t)"
    using s p px disj by (intro rep_at [OF t(2) d r] same) (auto simp: h' link_simps list_all_iff)
  moreover have "mset (ptrs (at p (\<lambda>_. us @ x # vs) t)) = mset (ptrs t) + mset (ptrs x)"
    using mset_ptrs_at [OF t(2) d, of "\<lambda>_. us @ x # vs"] by (simp add: s algebra_simps)
  moreover have "distinct (ptrs t @ ptrs x)" using d x disj by (auto simp: represents_def)
  ultimately show ?thesis
    unfolding represents_def by (metis mset_append mset_eq_imp_distinct_iff)
qed

lemma kids_children: "kids h p \<noteq> [] \<Longrightarrow> children (h ! p) \<noteq> None"
  by (auto split: option.splits)

lemma insertBefore_rep:
  assumes t: "represents h par t" "p \<in> set (ptrs t)" and x: "represents h None x"
    and disj: "set (ptrs t) \<inter> set (ptrs x) = {}" and s: "sub p t = us @ s # vs"
  shows "snd (insertBefore p (proot x) (proot s) h) = Some (proot x)"
    and "represents (fst (insertBefore p (proot x) (proot s) h)) par (at p (\<lambda>_. us @ x # s # vs) t)"
proof -
  have k: "kids h p = map proot (us @ s # vs)" and sd: "distinct (concat (map ptrs (us @ s # vs)))"
    using rep_sub [OF t(2)] sub_distinct [OF t(2)] t(1) s by (auto simp: represents_def)
  have e: "insertBefore p (proot x) (proot s) h =
      (set_parent (proot x) (Some p) (set_children p (map proot (us @ x # s # vs)) h), Some (proot x))"
    using k kids_children [of h p] index_of_proot [OF sd] detach_free [OF x]
    by (simp add: insertBefore_def Let_def splice_at_map)
  show "snd (insertBefore p (proot x) (proot s) h) = Some (proot x)"
    "represents (fst (insertBefore p (proot x) (proot s) h)) par (at p (\<lambda>_. us @ x # s # vs) t)"
    using insert_rep [OF t x disj, of us "s # vs"] s by (simp_all add: e)
qed

lemma insertAfter_rep:
  assumes t: "represents h par t" "p \<in> set (ptrs t)" and x: "represents h None x"
    and disj: "set (ptrs t) \<inter> set (ptrs x) = {}" and s: "sub p t = us @ s # vs"
  shows "snd (insertAfter p (proot x) (proot s) h) = Some (proot x)"
    and "represents (fst (insertAfter p (proot x) (proot s) h)) par (at p (\<lambda>_. us @ s # x # vs) t)"
proof -
  have k: "kids h p = map proot (us @ s # vs)" and sd: "distinct (concat (map ptrs (us @ s # vs)))"
    using rep_sub [OF t(2)] sub_distinct [OF t(2)] t(1) s by (auto simp: represents_def)
  have e: "insertAfter p (proot x) (proot s) h =
      (set_parent (proot x) (Some p) (set_children p (map proot ((us @ [s]) @ x # vs)) h), Some (proot x))"
    using k kids_children [of h p] index_of_proot [OF sd] detach_free [OF x]
    by (simp add: insertAfter_def Let_def splice_at_map)
  show "snd (insertAfter p (proot x) (proot s) h) = Some (proot x)"
    "represents (fst (insertAfter p (proot x) (proot s) h)) par (at p (\<lambda>_. us @ s # x # vs) t)"
    using insert_rep [OF t x disj, of "us @ [s]" vs] s by (simp_all add: e)
qed

lemma represents_set_empty:
  "represents h par t \<Longrightarrow> kids h p = [] \<Longrightarrow> represents (set_children p [] h) par t"
  unfolding represents_def by (auto intro!: rep_frame [of h par t] simp: same_links_def link_simps)

definition takes_children :: "unode \<Rightarrow> bool" where
  "takes_children n \<longleftrightarrow> ntype n = Root \<or> ntype n = Element \<and> \<not> dtd_has dtd_empty (tagName n)"

lemma appendChild_rep:
  assumes t: "represents h par t" "p \<in> set (ptrs t)" and x: "represents h None x"
    and disj: "set (ptrs t) \<inter> set (ptrs x) = {}" and n: "takes_children (h ! p)"
  shows "snd (appendChild p (proot x) h) = Some (proot x)"
    and "represents (fst (appendChild p (proot x) h)) par (at p (\<lambda>ts. ts @ [x]) t)"
proof -
  let ?h = "if children (h ! p) = None then set_children p [] h else h"
  have k: "kids h p = map proot (sub p t)" using rep_sub [OF t(2)] t(1) by (auto simp: represents_def)
  have t': "represents ?h par t" "represents ?h None x"
    using t(1) x represents_set_empty by (auto split: option.splits)
  have p: "p < length h" using rep_bound t by (auto simp: represents_def)
  have k': "kids ?h p = map proot (sub p t)" using k p by (auto simp: link_simps split: if_splits)
  have "proot x \<notin> set (map proot (sub p t))"
  proof
    assume "proot x \<in> set (map proot (sub p t))"
    then obtain u where "u \<in> set (sub p t)" "proot u = proot x" by auto
    then show False using disj ptrs_sub [of u p t] proot_in_ptrs [of u] proot_in_ptrs [of x] by (auto simp del: proot_in_ptrs)
  qed
  then have i: "index_of (proot x) (map proot (sub p t)) = None" unfolding index_of_None .
  have e: "appendChild p (proot x) h =
      (set_parent (proot x) (Some p) (set_children p (map proot (sub p t @ [x])) ?h), Some (proot x))"
    using n unfolding appendChild_def takes_children_def Let_def detach_free [OF t'(2)] k' by (simp add: i)
  have "at p (\<lambda>ts. ts @ [x]) t = at p (\<lambda>_. sub p t @ [x]) t"
    using at_const [OF t(2), of "\<lambda>ts. ts @ [x]"] t(1) by (simp add: represents_def)
  then show "snd (appendChild p (proot x) h) = Some (proot x)"
    "represents (fst (appendChild p (proot x) h)) par (at p (\<lambda>ts. ts @ [x]) t)"
    using insert_rep [OF t'(1) t(2) t'(2) disj, of "sub p t" "[]"] by (simp_all add: e)
qed

lemma replaceChild_rep:
  assumes t: "represents h par t" "p \<in> set (ptrs t)" and x: "represents h None x"
    and disj: "set (ptrs t) \<inter> set (ptrs x) = {}" and s: "sub p t = us @ s # vs"
  shows "snd (replaceChild p (proot x) (proot s) h) = Some (proot x)"
    and "represents (fst (replaceChild p (proot x) (proot s) h)) par (at p (\<lambda>_. us @ x # vs) t)"
proof -
  have k: "kids h p = map proot (us @ s # vs)" and sd: "distinct (p # concat (map ptrs (us @ s # vs)))"
    using rep_sub [OF t(2)] sub_distinct [OF t(2)] t(1) s by (auto simp: represents_def)
  have p: "p < length h" using rep_bound t by (auto simp: represents_def)
  let ?h = "fst (removeChild p (proot s) False h)" and ?t = "at p (\<lambda>_. us @ vs) t"
  note rm = removeChild_rep [OF t s]
  have c: "children (h ! p) = Some (map proot (us @ s # vs))" using k by (auto split: option.splits)
  have h: "?h = set_parent (proot s) None (set_children p (map proot (us @ vs)) h)"
    using c index_of_proot [of us s vs] sd by (simp add: removeChild_def splice_at_map Let_def)
  have px: "p \<noteq> proot s" using sd proot_in_ptrs [of s] by (auto simp del: proot_in_ptrs)
  have e: "replaceChild p (proot x) (proot s) h =
      (set_parent (proot x) (Some p) (set_children p (map proot (us @ x # vs)) ?h), Some (proot x))"
    using k c index_of_proot [of us s vs] sd detach_free [OF x] px
    by (simp add: replaceChild_def Let_def splice_at_map h set_children_parent set_children_twice)
  have at: "p \<in> set (ptrs ?t)" "sub p ?t = us @ vs" "at p (\<lambda>_. us @ x # vs) ?t = at p (\<lambda>_. us @ x # vs) t"
    using t(2,1) by (auto simp: represents_def at_at sub_at in_ptrs_at)
  have xs: "represents ?h None x"
  proof -
    have "same_links h ?h q" if "q \<in> set (ptrs x)" for q
    proof -
      have "proot s \<in> set (ptrs t)" using ptrs_sub [of s p t] s by auto
      then have "q \<noteq> p" "q \<noteq> proot s" using that disj t(2) by auto
      then show ?thesis by (simp add: h same_links_def link_simps)
    qed
    then show ?thesis using x rep_frame by (auto simp: represents_def)
  qed
  have dj: "set (ptrs ?t) \<inter> set (ptrs x) = {}"
    using disj set_ptrs_at [OF t(2), of "\<lambda>_. us @ vs"] t(1) s ptrs_sub [of _ p t] by (fastforce simp: represents_def)
  show "snd (replaceChild p (proot x) (proot s) h) = Some (proot x)"
    "represents (fst (replaceChild p (proot x) (proot s) h)) par (at p (\<lambda>_. us @ x # vs) t)"
    using insert_rep [OF rm(2) at(1) xs dj at(2) refl] at(3) by (simp_all add: e)
qed

subsection \<open>Removing a node and keeping its children\<close>

lemma keep_links:
  assumes "this < length h" "i + n \<le> length (kids h this)"
  defines "r \<equiv> \<lambda>cs h n. foldl (\<lambda>h (j, cj). set_parent cj (Some this)
      (set_children this (splice_at (i + j) 0 [cj] (kids h this)) h)) h (enumerate n cs)"
  shows "length (r cs h n) = length h \<and>
    kids (r cs h n) this = take (i + n) (kids h this) @ cs @ drop (i + n) (kids h this) \<and>
    (\<forall>q. q \<noteq> this \<longrightarrow> kids (r cs h n) q = kids h q) \<and>
    (\<forall>q. parentNode (r cs h n ! q) = (if q \<in> set cs \<and> q < length h then Some this else parentNode (h ! q)))"
  using assms(1,2)
proof (induction cs arbitrary: h n)
  case Nil
  then show ?case by (simp add: r_def)
next
  case (Cons c cs)
  let ?h = "set_parent c (Some this) (set_children this (splice_at (i + n) 0 [c] (kids h this)) h)"
  have st: "r (c # cs) h n = r cs ?h (Suc n)" by (simp add: r_def)
  have k: "kids ?h this = take (i + n) (kids h this) @ c # drop (i + n) (kids h this)"
    "\<And>q. q \<noteq> this \<Longrightarrow> kids ?h q = kids h q"
    using Cons.prems(1) by (auto simp: link_simps splice_at_def)
  have p: "parentNode (?h ! q) = (if q = c \<and> q < length h then Some this else parentNode (h ! q))" for q
    by (auto simp: link_simps)
  have b: "this < length ?h" "i + Suc n \<le> length (kids ?h this)" using Cons.prems k by auto
  have tk: "take (i + Suc n) (kids ?h this) = take (i + n) (kids h this) @ [c]"
    "drop (i + Suc n) (kids ?h this) = drop (i + n) (kids h this)"
    using Cons.prems by (simp_all add: k take_append drop_append)
  show ?case using Cons.IH [OF b] k(2) p unfolding st tk by auto
qed

lemma removeChild_keep_rep:
  assumes t: "represents h par t" "p \<in> set (ptrs t)" "sub p t = us @ x # vs"
  shows "represents (fst (removeChild p (proot x) True h)) par (at p (\<lambda>_. us @ subs x @ vs) t)"
proof -
  note rm = removeChild_rep [OF t]
  let ?h = "fst (removeChild p (proot x) False h)" and ?t = "at p (\<lambda>_. us @ vs) t"
  obtain n ns where x: "x = PT n ns" by (cases x)
  have d: "distinct (ptrs t)" using t(1) by (simp add: represents_def)
  have at: "p \<in> set (ptrs ?t)" "sub p ?t = us @ vs"
    "at p (\<lambda>_. us @ ns @ vs) ?t = at p (\<lambda>_. us @ ns @ vs) t"
    using t(2) d by (auto simp: at_at sub_at in_ptrs_at)
  have sd: "distinct (p # concat (map ptrs (us @ x # vs)))" using sub_distinct [OF t(2) d] t(3) by simp
  have rt: "rep ?h par ?t" "distinct (ptrs ?t)" and rx: "rep ?h None x" using rm by (auto simp: represents_def)
  have k: "kids ?h p = map proot (us @ vs)" using rep_sub [OF at(1) rt(2,1)] at(2) by simp
  have k0: "kids h p = map proot (us @ x # vs)" using rep_sub [OF t(2) d, of h par] t by (simp add: represents_def)
  then have c: "children (h ! p) = Some (map proot (us @ x # vs))" by (auto split: option.splits)
  define r where "r = keep_children p (length us) (map proot ns) ?h"
  have e: "fst (removeChild p (proot x) True h) = r"
    using c index_of_proot [of us x vs] sd rx
    by (simp add: removeChild_def splice_at_map Let_def r_def x)
  have p: "p < length ?h" using rep_bound [OF rt(1) at(1)] .
  have links: "length r = length ?h" "kids r p = map proot (us @ ns @ vs)"
    "\<And>q. q \<noteq> p \<Longrightarrow> kids r q = kids ?h q"
    "\<And>q. parentNode (r ! q) = (if q \<in> set (map proot ns) \<and> q < length ?h then Some p else parentNode (?h ! q))"
    using keep_links [of p ?h "length us" 0 "map proot ns"] p k unfolding r_def keep_children_def by auto
  have pn: "q \<in> set (map proot ns) \<Longrightarrow> q \<in> set (ptrs x)" for q
    using proot_in_ptrs by (fastforce simp: x)
  have px: "p \<notin> set (ptrs x)" using sd by simp
  have same: "same_links ?h r q" if "q \<noteq> p" "q \<notin> set (map proot ns)" for q
    using that links by (simp add: same_links_def)
  have "rep r (Some p) y" if y: "y \<in> set (us @ vs)" for y
  proof (rule rep_frame [of ?h])
    show "rep ?h (Some p) y" using rep_sub [OF at(1) rt(2,1)] at(2) y by (auto simp: list_all_iff)
    fix q assume q: "q \<in> set (ptrs y)"
    then have "q \<noteq> p" "q \<notin> set (ptrs x)" using y sd by auto
    then show "same_links ?h r q" using pn by (intro same) auto
  qed
  moreover have "rep r (Some p) y" if y: "y \<in> set ns" for y
  proof (rule rep_adopt [where p = p])
    show ry: "represents ?h (Some n) y" using rm(3) y distinct_subtree [of ns y] by (auto simp: represents_def x list_all_iff)
    have yx: "set (ptrs y) \<subseteq> set (ptrs x)" using y by (auto simp: x)
    then show "proot y \<noteq> p" "p \<notin> set (ptrs y)" using px proot_in_ptrs [of y] by (auto simp del: proot_in_ptrs)
    show "proot y < length r" using rep_bound [OF rx pn, of "proot y"] y links(1) by simp
    then show "parentNode (r ! proot y) = Some p" using y links(1,4) by auto
    show "kids r (proot y) = kids ?h (proot y)" using \<open>proot y \<noteq> p\<close> links(3) by simp
    fix q assume q: "q \<in> set (ptrs y)" "q \<noteq> proot y"
    have "q \<notin> set (map proot ns)"
    proof
      assume "q \<in> set (map proot ns)"
      then obtain z where z: "z \<in> set ns" "proot z = q" by auto
      then have "z \<noteq> y" using q by auto
      then show False using q(1) z y sd proot_in_ptrs [of z] disjoint_sub [of ns z y] by (auto simp: x simp del: proot_in_ptrs)
    qed
    then show "same_links ?h r q" using q(1) yx px by (intro same) auto
  qed
  ultimately have "rep r par (at p (\<lambda>_. us @ ns @ vs) ?t)"
    using at p links rm(4) pn px by (intro rep_at [OF at(1) rt(2,1)] same) (auto simp: list_all_iff)
  moreover have "mset (ptrs (at p (\<lambda>_. us @ ns @ vs) t)) + {#n#} = mset (ptrs t)"
    using mset_ptrs_at [OF t(2) d, of "\<lambda>_. us @ ns @ vs"] by (simp add: t(3) x algebra_simps)
  then have "distinct (n # ptrs (at p (\<lambda>_. us @ ns @ vs) t))"
    using d by (metis add_mset_add_single mset.simps(2) mset_eq_imp_distinct_iff)
  ultimately show ?thesis using e by (simp add: represents_def at(3) x)
qed

subsection \<open>Printing is a function of the tree\<close>

text \<open>The document that a tree of the store holds, without pointers.\<close>

datatype utree = UT node_type "string option" string "string option jsobj option" "utree list"

fun doc :: "store \<Rightarrow> ptree \<Rightarrow> utree" where
  "doc h (PT p ts) = UT (ntype (h ! p)) (data (h ! p)) (tagName (h ! p)) (attrs (h ! p)) (map (doc h) ts)"

text \<open>The unformatted text of a document below an element with the tag \<open>ptag\<close>.\<close>

definition text_html :: "string \<Rightarrow> string \<Rightarrow> string" where
  "text_html ptag d =
     (if ptag = ''pre'' then d
      else if in_table notTransTagName ptag then html d
      else replace (Seq (chr CHR '' '') (chr CHR '' '')) (\<lambda>_ _. '' &nbsp;'') d)"

fun print :: "string \<Rightarrow> utree \<Rightarrow> string" where
  "print ptag (UT Text d tg ats ts) = text_html ptag (the d)"
| "print ptag (UT Comment d tg ats ts) = ''<!--'' @ (case d of Some d \<Rightarrow> d | None \<Rightarrow> undefined_name) @ ''-->''"
| "print ptag (UT Root d tg ats ts) = concat (map (print tg) ts)"
| "print ptag (UT Element d tg ats ts) =
     ''<'' @ tg @ (if attrs_html ats \<noteq> [] then '' '' @ attrs_html ats else []) @
     (if dtd_has dtd_empty tg then ''/'' else []) @ ''>'' @ concat (map (print tg) ts) @
     (if dtd_has dtd_empty tg then [] else ''</'' @ tg @ ''>'')"

text \<open>Every text node has a parent and data, and a root has a child list: otherwise printing throws.\<close>

fun printable :: "store \<Rightarrow> ptree \<Rightarrow> bool" where
  "printable h (PT p ts) \<longleftrightarrow>
     (ntype (h ! p) = Text \<longrightarrow> parentNode (h ! p) \<noteq> None \<and> data (h ! p) \<noteq> None) \<and>
     (ntype (h ! p) = Root \<longrightarrow> children (h ! p) \<noteq> None) \<and> list_all (printable h) ts"

lemma printable_rep:
  "rep h par x \<Longrightarrow> (par \<noteq> None \<or> ntype (h ! proot x) = Root) \<Longrightarrow>
   (\<And>p. p \<in> set (ptrs x) \<Longrightarrow> (ntype (h ! p) = Text \<longrightarrow> data (h ! p) \<noteq> None) \<and>
      (ntype (h ! p) = Root \<longrightarrow> children (h ! p) \<noteq> None)) \<Longrightarrow> printable h x"
proof (induction x arbitrary: par)
  case (PT p ts)
  have "printable h c" if "c \<in> set ts" for c
    using PT.prems that by (intro PT.IH [of c "Some p"]) (auto simp: list_all_iff)
  moreover have "(ntype (h ! p) = Text \<longrightarrow> data (h ! p) \<noteq> None) \<and> (ntype (h ! p) = Root \<longrightarrow> children (h ! p) \<noteq> None)"
    by (rule PT.prems(3)) simp
  ultimately show ?case using PT.prems(1,2) by (auto simp: list_all_iff)
qed

lemma concat_join: "join [] xs = concat xs"
  by (induction xs) (auto simp: join_Cons)

lemma length_ptrs_le: "x \<in> set ts \<Longrightarrow> length (ptrs x) \<le> length (concat (map ptrs ts))"
  by (induction ts) auto

lemma seq_map_enumerate:
  "(\<And>i x. x \<in> set xs \<Longrightarrow> \<exists>ys. f (i, r x) = Inr ys \<and> concat ys = g x) \<Longrightarrow>
   \<exists>out. seq_map f (enumerate n (map r xs)) = Inr out \<and> concat out = concat (map g xs)"
proof (induction xs arbitrary: n)
  case (Cons x xs)
  then obtain ys out where "f (n, r x) = Inr ys" "concat ys = g x"
    "seq_map f (enumerate (Suc n) (map r xs)) = Inr out" "concat out = concat (map g xs)"
    by (metis list.set_intros)
  then show ?case by simp
qed simp

lemma sep_html_plain: "sep_html h False start cur ic = []"
  by (simp add: sep_html_def split: prod.splits)

lemma nodeToHtml_print:
  assumes "rep h par t" "printable h t" "length (ptrs t) \<le> k"
  shows "\<exists>out. nodeToHtml k h False cur (proot t) = Inr out \<and>
    concat out = print (case par of Some q \<Rightarrow> tagName (h ! q) | None \<Rightarrow> []) (doc h t)"
  using assms
proof (induction t arbitrary: par k)
  case (PT p ts)
  then obtain k' where k: "k = Suc k'" by (cases k) auto
  have kd: "kids h p = map proot ts" using PT.prems by simp
  let ?f = "\<lambda>st ic. bind_res (nodeToHtml k' h False cur (snd ic)) (\<lambda>out. Inr (sep_html h False st cur ic @ out))"
  have "\<exists>ys. ?f st (i, proot t) = Inr ys \<and> concat ys = print (tagName (h ! p)) (doc h t)"
    if "t \<in> set ts" for i t st
  proof -
    have "length (ptrs t) \<le> k'" using PT.prems(3) length_ptrs_le [OF that(1)] by (simp add: k)
    then show ?thesis using PT.IH [OF that(1), of "Some p" k'] PT.prems that
      by (auto simp: list_all_iff sep_html_plain)
  qed
  then have body: "\<exists>out. seq_map (?f st) (enumerate 0 (map proot ts)) = Inr out \<and>
      concat out = concat (map (print (tagName (h ! p)) \<circ> doc h) ts)" for st
    using seq_map_enumerate [of ts "?f st" proot "print (tagName (h ! p)) \<circ> doc h" 0] by auto
  show ?case
  proof (cases "ntype (h ! p)")
    case Root
    then show ?thesis using body [of True] PT.prems kd by (simp add: k nodeToHtml.simps Let_def)
  next
    case Element
    then show ?thesis using body [of False] kd
      by (auto simp: k nodeToHtml.simps open_tag_def close_tag_def Let_def)
  next
    case Text
    then show ?thesis using PT.prems by (auto simp: k nodeToHtml.simps isText_def text_html_def Let_def)
  next
    case Comment
    then show ?thesis by (simp add: k nodeToHtml.simps isComment_def Let_def)
  qed
qed

lemma represents_size: "represents h par t \<Longrightarrow> length (ptrs t) \<le> length h"
proof -
  assume r: "represents h par t"
  then have "set (ptrs t) \<subseteq> {..<length h}" using rep_bound by (auto simp: represents_def)
  then have "card (set (ptrs t)) \<le> length h" using card_mono [of "{..<length h}"] by fastforce
  then show ?thesis using r by (simp add: represents_def distinct_card)
qed

lemma toHtml_print:
  assumes "represents h par t" "printable h t"
  shows "toHtml h False (proot t) = Inr (print (case par of Some q \<Rightarrow> tagName (h ! q) | None \<Rightarrow> []) (doc h t))"
  using nodeToHtml_print [of h par t "Suc (length h)" 0] assms represents_size [OF assms(1)]
  by (auto simp: toHtml_def concat_join represents_def)

lemma insertBefore_move_rep:
  assumes "represents h par t" "q \<in> set (ptrs t)" "sub q t = us @ x # vs"
    and "t1 = at q (\<lambda>_. us @ vs) t" "p \<in> set (ptrs t1)" "sub p t1 = us' @ s # vs'"
    and "kids h p \<noteq> []"
  shows "represents (fst (insertBefore p (proot x) (proot s) h)) par (at p (\<lambda>_. us' @ x # s # vs') t1)"
proof -
  note d = detach_rep [OF assms(1-3)]
  have dj: "set (ptrs t1) \<inter> set (ptrs x) = {}" using removeChild_rep(4) [OF assms(1-3)] assms(4) by simp
  have "children (detach (proot x) h ! p) \<noteq> None"
    using rep_sub [of p t1 "detach (proot x) h" par] d assms(4-6)
    by (intro kids_children) (simp add: represents_def)
  then have "insertBefore p (proot x) (proot s) h = insertBefore p (proot x) (proot s) (detach (proot x) h)"
    using kids_children [OF assms(7)] detach_free [OF d(2)] by (auto simp: insertBefore_def Let_def)
  then show ?thesis
    using insertBefore_rep(2) [of "detach (proot x) h" par t1 p x us' s vs'] d dj assms(4-6) by simp
qed

subsection \<open>Properties\<close>

text \<open>C35. \<open>insertBefore\<close> moves a node: taken from wherever it is in the tree, with everything
  below it, it stands before the given child afterwards, and every parent link agrees with
  the child lists again.\<close>

theorem insertBefore_moves:
  assumes "represents h par t" "q \<in> set (ptrs t)" "sub q t = us @ x # vs"
    and "t1 = at q (\<lambda>_. us @ vs) t" "p \<in> set (ptrs t1)" "sub p t1 = us' @ s # vs'"
    and "kids h p \<noteq> []"
  shows "represents (fst (insertBefore p (proot x) (proot s) h)) par (at p (\<lambda>_. us' @ x # s # vs') t1)"
  using insertBefore_move_rep [OF assms] .

text \<open>A root with two paragraphs, the first of which holds a text and a line break.\<close>

definition demo_store :: store where
  "demo_store = [new_uNode Root None undefined_name None None (Some [1, 2]),
         new_uNode Element None ''p'' (Some 0) None (Some [3, 4]),
         new_uNode Element None ''p'' (Some 0) (Some [(''id'', Some ''x'')]) (Some [5]),
         new_uNode Text (Some ''a'') undefined_name (Some 1) None None,
         new_uNode Element None ''br'' (Some 1) None None,
         new_uNode Text (Some ''b  c'') undefined_name (Some 2) None None]"

definition demo_tree :: ptree where
  "demo_tree = PT 0 [PT 1 [PT 3 [], PT 4 []], PT 2 [PT 5 []]]"

lemma demo_represents: "represents demo_store None demo_tree" "printable demo_store demo_tree" "takes_children (demo_store ! 0)"
  by (simp_all add: represents_def demo_store_def demo_tree_def new_uNode_def takes_children_def)

theorem insertBefore_moves_witness:
  "represents (fst (insertBefore 2 3 5 demo_store)) None (PT 0 [PT 1 [PT 4 []], PT 2 [PT 3 [], PT 5 []]])"
  using insertBefore_moves [OF demo_represents(1), of 1 "[]" "PT 3 []" "[PT 4 []]"
      "PT 0 [PT 1 [PT 4 []], PT 2 [PT 5 []]]" 2 "[]" "PT 5 []" "[]"]
  by (simp add: demo_tree_def sub.simps at.simps demo_store_def new_uNode_def)

text \<open>\<open>appendChild\<close> on a root, or on an element that is not a void one, makes a detached node
  the last child; the tree is otherwise as it was.\<close>

theorem appendChild_last:
  assumes "represents h par t" "p \<in> set (ptrs t)" "represents h None x"
    and "set (ptrs t) \<inter> set (ptrs x) = {}" "takes_children (h ! p)"
  shows "snd (appendChild p (proot x) h) = Some (proot x) \<and>
    represents (fst (appendChild p (proot x) h)) par (at p (\<lambda>ts. ts @ [x]) t)"
  using appendChild_rep [OF assms] by blast

theorem appendChild_last_witness:
  "represents (fst (appendChild 0 2 (fst (removeChild 0 2 False demo_store)))) None demo_tree"
proof -
  have h: "fst (removeChild 0 2 False demo_store) = demo_store[0 := (demo_store ! 0)\<lparr>children := Some [1]\<rparr>, 2 := (demo_store ! 2)\<lparr>parentNode := None\<rparr>]"
    by (simp add: removeChild_def demo_store_def new_uNode_def splice_at_def set_children_def set_parent_def upd_def)
  show ?thesis
    using appendChild_last [of "fst (removeChild 0 2 False demo_store)" None "PT 0 [PT 1 [PT 3 [], PT 4 []]]" 0 "PT 2 [PT 5 []]"]
    unfolding h by (simp add: represents_def demo_store_def demo_tree_def new_uNode_def takes_children_def at.simps)
qed

text \<open>\<open>replaceChild\<close> puts a detached node in the place of a child and leaves the tree
  consistent.\<close>

theorem replaceChild_swaps:
  assumes "represents h par t" "p \<in> set (ptrs t)" "represents h None x"
    and "set (ptrs t) \<inter> set (ptrs x) = {}" "sub p t = us @ s # vs"
  shows "snd (replaceChild p (proot x) (proot s) h) = Some (proot x) \<and>
    represents (fst (replaceChild p (proot x) (proot s) h)) par (at p (\<lambda>_. us @ x # vs) t)"
  using replaceChild_rep [OF assms] by blast

theorem replaceChild_swaps_witness:
  "represents (fst (replaceChild 1 6 4 (fst (createText ''z'' True demo_store)))) None
     (PT 0 [PT 1 [PT 3 [], PT 6 []], PT 2 [PT 5 []]])"
  using replaceChild_swaps [of "fst (createText ''z'' True demo_store)" None demo_tree 1 "PT 6 []" "[PT 3 []]" "PT 4 []" "[]"]
  by (simp add: represents_def demo_store_def demo_tree_def new_uNode_def at.simps sub.simps createText_def alloc_def)

text \<open>\<open>removeChild\<close> with \<open>keepChildren\<close> unwraps a node: its children take its place in the
  parent's child list, in their order and with their new parent.\<close>

theorem removeChild_unwraps:
  assumes "represents h par t" "p \<in> set (ptrs t)" "sub p t = us @ x # vs"
  shows "represents (fst (removeChild p (proot x) True h)) par (at p (\<lambda>_. us @ subs x @ vs) t)"
  using removeChild_keep_rep [OF assms] .

theorem removeChild_unwraps_witness:
  "represents (fst (removeChild 0 1 True demo_store)) None (PT 0 [PT 3 [], PT 4 [], PT 2 [PT 5 []]])"
  using removeChild_unwraps [OF demo_represents(1), of 0 "[]" "PT 1 [PT 3 [], PT 4 []]" "[PT 2 [PT 5 []]]"]
  by (simp add: demo_tree_def sub.simps at.simps)

text \<open>Printing ends and returns the text of the document below the node: the store's size
  bounds the recursion, and the text depends on the tree and not on the pointers.\<close>

theorem toHtml_prints:
  assumes "represents h par t" "printable h t"
  shows "toHtml h False (proot t) = Inr (print (case par of Some q \<Rightarrow> tagName (h ! q) | None \<Rightarrow> []) (doc h t))"
  using toHtml_print [OF assms] .

theorem toHtml_prints_witness: "toHtml demo_store False 0 = Inr (print [] (doc demo_store demo_tree))"
  using toHtml_prints [OF demo_represents(1,2)] by (simp add: demo_tree_def)

end
