(* ===== verification/HtmlParser.thy ===== *)
theory HtmlParser
  imports UTree
begin

text \<open>
  \<open>core/htmlparser.js\<close>: from a text to a tree of \<open>uNode\<close>s. The matches of \<open>re_tag\<close> are handled
  one by one; a match that throws is skipped, with the text before it already added. For
  every input the parser returns a root whose tree has agreeing links, leaves the rest of
  the store alone and never puts a child below a void element.

  \<open>fillChar\<close> is the character that keeps an empty node open, given by its bytes.
\<close>

subsection \<open>Expressions and tables\<close>

definition domUtils_fillChar :: "bool \<Rightarrow> string" where
  "domUtils_fillChar ie6 = (if ie6 then [CHR 0xEF, CHR 0xBB, CHR 0xBF] else [CHR 0xE2, CHR 0x80, CHR 0x8B])"

definition re_tag :: re where
  "re_tag = Seq (chr CHR ''<'') (alts
     [seqs [chr CHR ''/'', Cap 1 (some (ncls ''>'')), chr CHR ''>''],
      seqs [lit ''!--'', Cap 2 (lazy allchar), lit ''-->''],
      seqs [Cap 3 (some (Cls (\<lambda>c. \<not> is_ws c \<and> c \<notin> set ''/<>''))), many ws,
        Cap 4 (many (alts
          [seqs [chr quote, many (ncls [quote]), chr quote],
           seqs [chr apos, many (ncls [apos]), chr apos],
           ncls [quote, apos, CHR ''<'', CHR ''>'']])),
        opt (chr CHR ''/''), chr CHR ''>'']])"

definition re_attr :: re where
  "re_attr = Seq (Cap 1 (some (Cls (\<lambda>c. is_word c \<or> c \<in> set ''-:.''))))
     (Alt (seqs [many ws, chr CHR ''='', many ws, alts
            [seqs [chr quote, Cap 2 (many (ncls [quote])), chr quote],
             seqs [chr apos, Cap 3 (many (ncls [apos])), chr apos],
             Cap 4 (some (Cls (\<lambda>c. \<not> is_ws c \<and> c \<noteq> CHR ''>'')))]])
          (Look (Alt ws Eol)))"

definition allowEmptyTags :: "string list" where
  "allowEmptyTags = [''b'', ''code'', ''i'', ''u'', ''strike'', ''s'', ''tt'', ''strong'', ''q'', ''samp'',
     ''em'', ''span'', ''sub'', ''img'', ''sup'', ''font'', ''big'', ''small'', ''iframe'', ''a'', ''br'', ''pre'']"

definition blank_tag_re :: re where
  "blank_tag_re = seqs [many (Cls blank4), chr CHR ''<'', opt (chr CHR ''/''), Cap 1 (some word), many ws,
     many (ncls ''>''), chr CHR ''>'', many (Cls blank4)]"

definition ends_nl_re :: re where
  "ends_nl_re = Alt (Cap 1 (Seq Bol (some (cls [newline, carriage])))) (Cap 2 (Seq (some (cls [newline, carriage])) Eol))"

definition blank_repl :: "string \<Rightarrow> caps \<Rightarrow> string" where
  "blank_repl a cs = (case cap 1 cs of
      Some b \<Rightarrow>
        if b \<noteq> [] \<and> in_table allowEmptyTags (toLowerCase b) then replace ends_nl_re (\<lambda>_ _. []) a
        else replace_first (Seq (some (cls [carriage, newline, CHR '' ''])) Eol) (\<lambda>_ _. [])
          (replace_first (Seq Bol (some (cls [carriage, newline, CHR '' '']))) (\<lambda>_ _. []) a)
    | None \<Rightarrow> a)"

definition preprocess :: "string \<Rightarrow> bool \<Rightarrow> string \<Rightarrow> string" where
  "preprocess fillChar ignoreBlank htmlstr =
     (let s = replace (lit fillChar) (\<lambda>_ _. []) htmlstr
      in if ignoreBlank then s else replace blank_tag_re blank_repl s)"

definition notTransAttrs_parse :: "string list" where
  "notTransAttrs_parse = [''href'', ''src'']"

definition needParentNode :: "(string \<times> string list) list" where
  "needParentNode =
     [(''td'', [''tr'']), (''tr'', [''tbody'', ''thead'', ''tfoot'']), (''tbody'', [''table'']),
      (''th'', [''tr'']), (''thead'', [''table'']), (''tfoot'', [''table'']), (''caption'', [''table'']),
      (''li'', [''ul'', ''ol'']), (''dt'', [''dl'']), (''dd'', [''dl'']), (''option'', [''select''])]"

definition needChild :: "(string \<times> string) list" where
  "needChild = [(''ol'', ''li''), (''ul'', ''li'')]"

subsection \<open>Adding nodes\<close>

definition add_text :: "ptr \<Rightarrow> string \<Rightarrow> store \<Rightarrow> store" where
  "add_text parent dat h =
     (case obj_get needChild (tagName (h ! parent)) of
        Some tag \<Rightarrow>
          (let (h1, tmpNode) = createElement_tag tag h;
               h2 = fst (appendChild parent tmpNode h1);
               (h3, t) = createText dat False h2
           in fst (appendChild tmpNode t h3))
      | None \<Rightarrow>
          (let (h1, t) = createText dat False h in fst (appendChild parent t h1)))"

text \<open>\<open>parent.children.push(node)\<close>; it throws when there is no child list.\<close>

definition push_child :: "ptr \<Rightarrow> unode \<Rightarrow> store \<Rightarrow> (store \<times> ptr) res" where
  "push_child parent n h = (case children (h ! parent) of
      None \<Rightarrow> Inl TypeError
    | Some cs \<Rightarrow> (let (h1, p) = alloc n h in Inr (set_children parent (cs @ [p]) h1, p)))"

text \<open>The ancestor, from the node itself up, whose tag is one of the given; the root ends the search.\<close>

primrec find_parent :: "nat \<Rightarrow> store \<Rightarrow> string list \<Rightarrow> ptr \<Rightarrow> ptr option" where
  "find_parent 0 h tags p = None"
| "find_parent (Suc k) h tags p =
     (if ntype (h ! p) = Root then None
      else if tagName (h ! p) \<in> set tags then Some p
      else (case parentNode (h ! p) of Some q \<Rightarrow> find_parent k h tags q | None \<Rightarrow> None))"

definition attr_value :: "caps \<Rightarrow> string option" where
  "attr_value cs = (case (cap 2 cs, cap 3 cs, cap 4 cs) of
      (Some (c # v), _, _) \<Rightarrow> Some (c # v)
    | (_, Some (c # v), _) \<Rightarrow> Some (c # v)
    | (_, _, v) \<Rightarrow> v)"

definition add_attr :: "string option jsobj \<Rightarrow> string \<times> string \<times> caps \<Rightarrow> string option jsobj" where
  "add_attr ats mt = (case mt of (b, w, cs) \<Rightarrow>
     (let name = toLowerCase (case cap 1 cs of Some x \<Rightarrow> x | None \<Rightarrow> []) in
      if name = ''__proto__'' then ats
      else obj_set name
        (if in_table notTransAttrs_parse name then attr_value cs
         else Some (case attr_value cs of Some v \<Rightarrow> unhtml v | None \<Rightarrow> [])) ats))"

definition parse_attrs :: "string \<Rightarrow> string option jsobj" where
  "parse_attrs htmlattr = foldl add_attr [] (fst (exec_all re_attr [] htmlattr))"

text \<open>
  \<open>element\<close>: a table cell, a list item and the like get the parent they need, which may
  need one itself. A tag that is named like a member of \<open>Object.prototype\<close> finds that member
  in \<open>needParentNode\<close> and throws when it is used as a tag name.
\<close>

definition need_rank :: "string \<Rightarrow> nat" where
  "need_rank tag = (if tag = ''td'' \<or> tag = ''th'' then 3 else if tag = ''tr'' then 2
     else if obj_get needParentNode tag \<noteq> None then 1 else 0)"

lemma need_rank_less: "obj_get needParentNode tag = Some tags \<Longrightarrow> need_rank (hd tags) < need_rank tag"
  by (auto simp: needParentNode_def need_rank_def split: if_splits)

definition element_node :: "ptr \<Rightarrow> string \<Rightarrow> string option \<Rightarrow> unode" where
  "element_node parent tag htmlattr =
     new_uNode Element None (toLowerCase tag) (Some parent)
       (case htmlattr of Some (c # s) \<Rightarrow> Some (parse_attrs (c # s)) | _ \<Rightarrow> None)
       (if dtd_has dtd_empty tag then None else Some [])"

function element :: "ptr \<Rightarrow> string \<Rightarrow> string option \<Rightarrow> store \<Rightarrow> (store \<times> ptr) res" where
  "element parent tag htmlattr h =
     (if tag \<in> set object_prototype_names then Inl TypeError
      else bind_res
        (case obj_get needParentNode tag of
           None \<Rightarrow> Inr (h, parent)
         | Some tags \<Rightarrow>
             (case find_parent (Suc (length h)) h tags parent of
                Some q \<Rightarrow> Inr (h, q)
              | None \<Rightarrow> element parent (hd tags) None h))
        (\<lambda>(h1, par). bind_res (push_child par (element_node par tag htmlattr) h1)
           (\<lambda>(h2, elm). Inr (h2, if dtd_has dtd_empty tag then par else elm))))"
  by pat_completeness auto
termination
  by (relation "measure (\<lambda>(parent, tag, htmlattr, h). need_rank tag)") (auto dest: need_rank_less)

declare element.simps [simp del]

definition add_comment :: "ptr \<Rightarrow> string \<Rightarrow> store \<Rightarrow> store res" where
  "add_comment parent dat h =
     bind_res (push_child parent (new_uNode Comment (Some dat) undefined_name (Some parent) None None) h)
       (\<lambda>(h1, p). Inr h1)"

subsection \<open>The loop\<close>

text \<open>
  An end tag closes the nearest open element of its name; without one the search reaches
  the root, the assignment to \<open>currentParent\<close> is undone and the match is skipped.
\<close>

definition end_tag :: "ptr \<Rightarrow> string \<Rightarrow> store \<Rightarrow> ptr option" where
  "end_tag currentParent name h =
     (case find_parent (Suc (length h)) h [toLowerCase name] currentParent of
        Some q \<Rightarrow> parentNode (h ! q)
      | None \<Rightarrow> None)"

definition step_match :: "store \<times> ptr \<Rightarrow> string \<times> string \<times> caps \<Rightarrow> store \<times> ptr" where
  "step_match st bmc = (case (st, bmc) of ((h0, cur), (pre, mt, cs)) \<Rightarrow>
     (let h = (if pre \<noteq> [] then add_text cur pre h0 else h0); tag = tagName (h ! cur) in
      case (cap 3 cs, cap 1 cs, cap 2 cs) of
        (Some t, _, _) \<Rightarrow>
          (if dtd_has dtd_c_cdata tag then (add_text cur mt h, cur)
           else (case element cur (toLowerCase t) (cap 4 cs) h of
                   Inr (h1, p) \<Rightarrow> (h1, p)
                 | Inl e \<Rightarrow> (h, cur)))
      | (None, Some name, _) \<Rightarrow>
          (if ntype (h ! cur) = Root then (h, cur)
           else if dtd_has dtd_c_cdata tag \<and> \<not> dtd_has dtd_c_cdata name then (add_text cur mt h, cur)
           else (case end_tag cur name h of Some p \<Rightarrow> (h, p) | None \<Rightarrow> (h, cur)))
      | (None, None, Some dat) \<Rightarrow>
          (if dat \<noteq> [] then (case add_comment cur dat h of Inr h1 \<Rightarrow> (h1, cur) | Inl e \<Rightarrow> (h, cur))
           else (h, cur))
      | _ \<Rightarrow> (h, cur)))"

definition htmlparser :: "string \<Rightarrow> string \<Rightarrow> bool \<Rightarrow> store \<Rightarrow> store \<times> ptr" where
  "htmlparser fillChar htmlstr ignoreBlank h =
     (let s = preprocess fillChar ignoreBlank htmlstr;
          (h1, root) = alloc (new_uNode Root None undefined_name None None (Some [])) h;
          (ms, rest) = exec_all re_tag [] s;
          (h2, cur) = foldl step_match (h1, root) ms
      in (if rest \<noteq> [] then add_text cur rest h2 else h2, root))"

text \<open>The operations of \<open>uNode\<close> that parse a text.\<close>

definition createElement :: "string \<Rightarrow> string \<Rightarrow> store \<Rightarrow> store \<times> ptr option" where
  "createElement fillChar tag h =
     (if test (cls ''<>'') tag
      then (let (h1, root) = htmlparser fillChar tag False h in (h1, nth_opt (kids h1 root) 0))
      else (let (h1, p) = createElement_tag tag h in (h1, Some p)))"

definition innerHTML :: "string \<Rightarrow> ptr \<Rightarrow> string \<Rightarrow> store \<Rightarrow> store" where
  "innerHTML fillChar this htmlstr h =
     (if ntype (h ! this) \<noteq> Element \<or> dtd_has dtd_empty (tagName (h ! this)) then h
      else (let (h1, tmpRoot) = htmlparser fillChar htmlstr False (clear_children this h)
            in foldl (\<lambda>h ci. set_parent ci (Some this) (set_children this (kids h this @ [ci]) h))
                 h1 (kids h1 tmpRoot)))"

subsection \<open>The empty text\<close>

lemma replace_empty: "replace r (\<lambda>_ _. []) [] = []"
proof (cases "exec r [] []")
  case (Some x)
  obtain b mt pre' rest' cs where x: "x = (b, mt, pre', rest', cs)" by (metis prod_cases5)
  then have "[] = b @ mt @ rest'" using exec_split Some by blast
  then show ?thesis using Some x by (simp add: replace_def replace_all.simps)
qed (simp add: replace_none)

lemma parse_empty: "htmlparser fc [] False h = (h @ [new_uNode Root None undefined_name None None (Some [])], length h)"
proof -
  have "replace blank_tag_re blank_repl [] = []" "exec_all re_tag [] [] = ([], [])" by code_simp+
  then show ?thesis by (simp add: htmlparser_def preprocess_def replace_empty alloc_def)
qed

end
