(* ===== verification/ParserInv.thy ===== *)
theory ParserInv
  imports HtmlParser
begin

text \<open>
  What the parser of \<open>core/htmlparser.js\<close> guarantees for every text: an invariant of the
  store, the tree below the root and the current parent, kept by every match.
\<close>

subsection \<open>Adding a fresh leaf\<close>

lemma represents_alloc: "represents h par t \<Longrightarrow> represents (h @ [n]) par t"
  unfolding represents_def
  by (auto intro!: rep_frame [of h par t] simp: same_links_def nth_append dest: rep_bound)

lemma rep_kids: "represents h par t \<Longrightarrow> p \<in> set (ptrs t) \<Longrightarrow> kids h p = map proot (sub p t)"
  by (auto simp: represents_def dest: rep_sub)

definition grow :: "ptr \<Rightarrow> unode \<Rightarrow> store \<Rightarrow> store" where
  "grow p n h = set_children p (kids h p @ [length h]) (h @ [n\<lparr>parentNode := Some p\<rparr>])"

lemma length_grow [simp]: "length (grow p n h) = Suc (length h)"
  by (simp add: grow_def)

lemma grow_nth:
  "p < length h \<Longrightarrow> grow p n h ! q =
     (if q = length h then n\<lparr>parentNode := Some p\<rparr>
      else if q = p then (h ! p)\<lparr>children := Some (kids h p @ [length h])\<rparr> else (h @ [n]) ! q)"
  by (auto simp: grow_def link_simps nth_append)

lemma grow_rep:
  assumes t: "represents h par t" "p \<in> set (ptrs t)" and n: "children n = None \<or> children n = Some []"
  shows "represents (grow p n h) par (at p (\<lambda>ts. ts @ [PT (length h) []]) t)"
proof -
  let ?x = "PT (length h) []" and ?h = "h @ [n\<lparr>parentNode := None\<rparr>]"
  have b: "\<And>q. q \<in> set (ptrs t) \<Longrightarrow> q < length h" using rep_bound t by (auto simp: represents_def)
  have x: "represents ?h None ?x" using n by (auto simp: represents_def)
  have disj: "set (ptrs t) \<inter> set (ptrs ?x) = {}" using b by auto
  have k: "kids h p = map proot (sub p t)" by (rule rep_kids [OF t])
  have e: "grow p n h = set_parent (length h) (Some p) (set_children p (map proot (sub p t @ [?x])) ?h)"
    using b [OF t(2)] k by (intro nth_equalityI) (auto simp: grow_def link_simps nth_append)
  show ?thesis
    using insert_rep [OF represents_alloc [OF t(1)] t(2) x disj, of "sub p t" "[]"] e
      at_const [OF t(2), of "\<lambda>ts. ts @ [?x]"] t(1) by (simp add: represents_def)
qed

lemma appendChild_grow:
  assumes t: "represents h par t" "p \<in> set (ptrs t)" and n: "parentNode n = None"
    and tk: "takes_children (h ! p)" and c: "children (h ! p) \<noteq> None"
  shows "fst (appendChild p (length h) (h @ [n])) = grow p n h"
proof -
  have b: "\<And>q. q \<in> set (ptrs t) \<Longrightarrow> q < length h" using rep_bound t by (auto simp: represents_def)
  have p: "p < length h" using b t(2) .
  have k: "kids h p = map proot (sub p t)" by (rule rep_kids [OF t])
  have "length h \<notin> set (kids h p)"
  proof
    assume "length h \<in> set (kids h p)"
    then obtain u where "u \<in> set (sub p t)" "proot u = length h" using k by auto
    then show False using b [of "length h"] ptrs_sub [of u p t] proot_in_ptrs [of u] by auto
  qed
  moreover obtain cs where cs: "children (h ! p) = Some cs" using c by blast
  ultimately have i: "index_of (length h) cs = None" by simp
  have dt: "detach (length h) (h @ [n]) = h @ [n]" using n by (simp add: detach_def)
  have "fst (appendChild p (length h) (h @ [n])) =
      set_parent (length h) (Some p) (set_children p (kids h p @ [length h]) (h @ [n]))"
    using tk p by (simp add: appendChild_def takes_children_def nth_append Let_def cs i dt)
  also have "\<dots> = grow p n h"
    using p by (intro nth_equalityI) (auto simp: grow_def link_simps nth_append)
  finally show ?thesis .
qed

lemma push_child_grow:
  "children (h ! p) = Some cs \<Longrightarrow> parentNode n = Some p \<Longrightarrow> push_child p n h = Inr (grow p n h, length h)"
  by (cases n) (simp add: push_child_def alloc_def grow_def)

subsection \<open>The invariant\<close>

text \<open>
  A node the parser made: a text has its data, and exactly the roots and the elements that
  are not void have a child list.
\<close>

definition ok_node :: "unode \<Rightarrow> bool" where
  "ok_node n \<longleftrightarrow> (ntype n = Text \<longrightarrow> data n \<noteq> None) \<and>
     (if takes_children n then children n \<noteq> None else children n = None)"

definition parsing :: "store \<Rightarrow> store \<Rightarrow> ptree \<Rightarrow> ptr \<Rightarrow> bool" where
  "parsing h0 h t cur \<longleftrightarrow>
     represents h None t \<and> proot t = length h0 \<and> length h0 < length h \<and> take (length h0) h = h0 \<and>
     (\<forall>p \<in> set (ptrs t). length h0 \<le> p \<and> ok_node (h ! p) \<and> (ntype (h ! p) = Root \<longleftrightarrow> p = length h0)) \<and>
     cur \<in> set (ptrs t) \<and> takes_children (h ! cur)"

lemma parsing_grow:
  assumes i: "parsing h0 h t cur" and p: "p \<in> set (ptrs t)" "takes_children (h ! p)"
    and n: "children n = None \<or> children n = Some []" "ok_node n" "ntype n \<noteq> Root"
    and c: "c \<in> insert (length h) (set (ptrs t))" "takes_children (grow p n h ! c)"
  shows "parsing h0 (grow p n h) (at p (\<lambda>ts. ts @ [PT (length h) []]) t) c"
proof -
  let ?t = "at p (\<lambda>ts. ts @ [PT (length h) []]) t"
  have r: "represents h None t" and d: "distinct (ptrs t)" using i by (auto simp: parsing_def represents_def)
  have b: "\<And>q. q \<in> set (ptrs t) \<Longrightarrow> q < length h" using rep_bound r by (auto simp: represents_def)
  have m: "mset (ptrs ?t) = add_mset (length h) (mset (ptrs t))"
    using mset_ptrs_at [OF p(1) d, of "\<lambda>ts. ts @ [PT (length h) []]"] by simp
  have st: "set (ptrs ?t) = insert (length h) (set (ptrs t))" using m by (metis set_mset_mset set_mset_add_mset_insert)
  have l: "length h0 \<le> p" using i p by (auto simp: parsing_def)
  have tk: "take (length h0) (grow p n h) = h0"
    using i l by (simp add: parsing_def grow_def set_children_def upd_def)
  have q: "length h0 \<le> q \<and> ok_node (grow p n h ! q) \<and> (ntype (grow p n h ! q) = Root \<longleftrightarrow> q = length h0)"
    if "q \<in> set (ptrs ?t)" for q
  proof (cases "q = length h")
    case True
    then show ?thesis using i n b [OF p(1)] by (auto simp: parsing_def grow_nth ok_node_def takes_children_def)
  next
    case False
    then have "q \<in> set (ptrs t)" using that st by simp
    then show ?thesis
      using False i p(2) b [OF p(1)] b [of q]
      by (auto simp: parsing_def grow_nth ok_node_def takes_children_def nth_append)
  qed
  show ?thesis
    unfolding parsing_def using grow_rep [OF r p(1) n(1)] i q tk c st by (auto simp: parsing_def)
qed

lemma rep_parent_in:
  "rep h par t \<Longrightarrow> p \<in> set (ptrs t) \<Longrightarrow> p \<noteq> proot t \<Longrightarrow>
   \<exists>q \<in> set (ptrs t). parentNode (h ! p) = Some q \<and> kids h q \<noteq> []"
proof (induction t arbitrary: par)
  case (PT r ts)
  then obtain c where c: "c \<in> set ts" "p \<in> set (ptrs c)" by auto
  have rc: "rep h (Some r) c" using PT.prems(1) c(1) by (auto simp: list_all_iff)
  show ?case
  proof (cases "p = proot c")
    case True
    then have "parentNode (h ! p) = Some r" using rep_parent [OF rc] by simp
    moreover have "kids h r \<noteq> []" using PT.prems(1) c(1) by auto
    ultimately show ?thesis by auto
  next
    case False
    then show ?thesis using PT.IH [OF c(1) rc c(2)] c(1) by fastforce
  qed
qed

lemma parsing_parent:
  assumes i: "parsing h0 h t cur" and p: "p \<in> set (ptrs t)" and q: "parentNode (h ! p) = Some q"
  shows "q \<in> set (ptrs t) \<and> takes_children (h ! q)"
proof -
  have r: "rep h None t" using i by (simp add: parsing_def represents_def)
  have "p \<noteq> proot t" using q rep_parent [OF r] by auto
  then obtain q' where q': "q' \<in> set (ptrs t)" "parentNode (h ! p) = Some q'" "kids h q' \<noteq> []"
    using rep_parent_in [OF r p] by blast
  have "ok_node (h ! q')" using i q' by (auto simp: parsing_def)
  then have "takes_children (h ! q')" using q'(3) by (auto simp: ok_node_def split: if_splits)
  then show ?thesis using q' q by simp
qed

lemma find_parent_in:
  assumes i: "parsing h0 h t cur"
  shows "find_parent k h tags p = Some q \<Longrightarrow> p \<in> set (ptrs t) \<Longrightarrow> takes_children (h ! p) \<Longrightarrow>
    q \<in> set (ptrs t) \<and> takes_children (h ! q)"
proof (induction k arbitrary: p)
  case (Suc k)
  then show ?case using parsing_parent [OF i] by (auto split: if_splits option.splits)
qed simp

lemma parsing_children: "parsing h0 h t cur \<Longrightarrow> p \<in> set (ptrs t) \<Longrightarrow> takes_children (h ! p) \<Longrightarrow> children (h ! p) \<noteq> None"
  by (auto simp: parsing_def ok_node_def)

lemma parsing_move: "parsing h0 h t cur \<Longrightarrow> p \<in> set (ptrs t) \<Longrightarrow> takes_children (h ! p) \<Longrightarrow> parsing h0 h t p"
  by (simp add: parsing_def)

subsection \<open>Every step keeps it\<close>

lemma takes_children_grow:
  "p < length h \<Longrightarrow> c < length h \<Longrightarrow> takes_children (grow p n h ! c) = takes_children (h ! c)"
  by (auto simp: grow_nth takes_children_def nth_append)

lemma parsing_append:
  assumes i: "parsing h0 h t cur" and p: "p \<in> set (ptrs t)" "takes_children (h ! p)"
    and n: "children n = None \<or> children n = Some []" "ok_node n" "ntype n \<noteq> Root" "parentNode n = None"
  shows "fst (appendChild p (length h) (h @ [n])) = grow p n h"
    and "parsing h0 (grow p n h) (at p (\<lambda>ts. ts @ [PT (length h) []]) t) cur"
proof -
  have r: "represents h None t" using i by (simp add: parsing_def)
  show "fst (appendChild p (length h) (h @ [n])) = grow p n h"
    using appendChild_grow [OF r p(1) n(4) p(2)] parsing_children [OF i p] by blast
  have c: "cur \<in> set (ptrs t)" "takes_children (h ! cur)" using i by (auto simp: parsing_def)
  have "p < length h" "cur < length h" using rep_bound r p c by (auto simp: represents_def)
  then show "parsing h0 (grow p n h) (at p (\<lambda>ts. ts @ [PT (length h) []]) t) cur"
    using parsing_grow [OF i p n(1-3)] c by (simp add: takes_children_grow)
qed

lemma not_void_li: "\<not> dtd_has dtd_empty ''li''"
  by code_simp

lemma in_ptrs_grow:
  "p \<in> set (ptrs t) \<Longrightarrow> distinct (ptrs t) \<Longrightarrow>
   set (ptrs (at p (\<lambda>ts. ts @ [PT q []]) t)) = insert q (set (ptrs t))"
  by (induction rule: path_induct) (auto simp: here_simps path_simps)

lemma ok_text: "ok_node (new_uNode Text (Some d) tg None None None)"
  by (simp add: ok_node_def takes_children_def new_uNode_def)

lemma parsing_text:
  assumes i: "parsing h0 h t cur"
  shows "\<exists>t'. parsing h0 (add_text cur d h) t' cur"
proof -
  have c: "cur \<in> set (ptrs t)" "takes_children (h ! cur)" "distinct (ptrs t)"
    using i by (auto simp: parsing_def represents_def)
  let ?txt = "new_uNode Text (Some (unhtml d)) undefined_name None None None"
  show ?thesis
  proof (cases "obj_get needChild (tagName (h ! cur))")
    case None
    have "add_text cur d h = grow cur ?txt h"
      using None parsing_append(1) [OF i c(1,2), of ?txt] ok_text
      by (simp add: add_text_def createText_def alloc_def new_uNode_def)
    then show ?thesis using parsing_append(2) [OF i c(1,2), of ?txt] ok_text by (auto simp: new_uNode_def)
  next
    case (Some tag)
    then have tag: "tag = ''li''" by (auto simp: needChild_def split: if_splits)
    let ?li = "new_uNode Element None ''li'' None None (Some [])"
    have ok: "ok_node ?li" "takes_children ?li" using not_void_li by (auto simp: ok_node_def takes_children_def new_uNode_def)
    define h1 where "h1 = grow cur ?li h"
    define t1 where "t1 = at cur (\<lambda>ts. ts @ [PT (length h) []]) t"
    have a1: "fst (appendChild cur (length h) (h @ [?li])) = h1"
      using parsing_append(1) [OF i c(1,2), of ?li] ok by (simp add: new_uNode_def h1_def)
    have i1: "parsing h0 h1 t1 cur"
      using parsing_append(2) [OF i c(1,2), of ?li] ok by (simp add: new_uNode_def h1_def t1_def)
    have l: "length h \<in> set (ptrs t1)" using c by (simp add: t1_def in_ptrs_grow)
    have "cur < length h" using rep_bound i c by (auto simp: parsing_def represents_def)
    then have tk: "takes_children (h1 ! length h)"
      using ok(2) by (simp add: h1_def grow_nth takes_children_def new_uNode_def)
    have "add_text cur d h = grow (length h) ?txt h1"
      using Some tag a1 parsing_append(1) [OF i1 l tk, of ?txt] ok_text
      by (simp add: add_text_def createElement_tag_def createText_def alloc_def new_uNode_def)
    then show ?thesis using parsing_append(2) [OF i1 l tk, of ?txt] ok_text by (auto simp: new_uNode_def)
  qed
qed

lemma need_lower: "obj_get needParentNode tag = Some tags \<Longrightarrow> toLowerCase (hd tags) = hd tags"
  by (auto simp: needParentNode_def js_eval split: if_splits)

lemma parsing_push:
  fixes ha :: "string option"
  assumes i: "parsing h0 h t par" and tag: "toLowerCase tag = tag"
  defines "n \<equiv> element_node par tag ha"
  shows "push_child par n h = Inr (grow par n h, length h)"
    and "\<exists>t'. parsing h0 (grow par n h) t' (if dtd_has dtd_empty tag then par else length h)"
proof -
  have c: "par \<in> set (ptrs t)" "takes_children (h ! par)" "par < length h"
    using i rep_bound by (auto simp: parsing_def represents_def)
  obtain cs where "children (h ! par) = Some cs" using parsing_children [OF i c(1,2)] by blast
  then show "push_child par n h = Inr (grow par n h, length h)"
    by (rule push_child_grow) (simp add: n_def element_node_def new_uNode_def)
  have n: "children n = None \<or> children n = Some []" "ok_node n" "ntype n \<noteq> Root"
    "takes_children n \<longleftrightarrow> \<not> dtd_has dtd_empty tag" "parentNode n = Some par"
    using tag by (auto simp: n_def element_node_def new_uNode_def ok_node_def takes_children_def)
  have "takes_children (grow par n h ! length h) \<longleftrightarrow> takes_children n"
    using c(3) by (simp add: grow_nth takes_children_def)
  then show "\<exists>t'. parsing h0 (grow par n h) t' (if dtd_has dtd_empty tag then par else length h)"
    using parsing_grow [OF i c(1,2) n(1-3), of par] parsing_grow [OF i c(1,2) n(1-3), of "length h"]
      c n(4) takes_children_grow [OF c(3,3), of n] by auto
qed

lemma parsing_element:
  assumes "toLowerCase tag = tag" "parsing h0 h t cur"
  shows "element cur tag ha h = Inr (h', p') \<Longrightarrow> \<exists>t'. parsing h0 h' t' p'"
  using assms
proof (induction cur tag ha h arbitrary: h' p' t rule: element.induct)
  case (1 cur tag ha h)
  have c: "cur \<in> set (ptrs t)" "takes_children (h ! cur)" using 1(4) by (auto simp: parsing_def)
  have notin: "tag \<notin> set object_prototype_names" using 1(2) by (auto simp: element.simps split: if_splits)
  define r where "r = (case obj_get needParentNode tag of
           None \<Rightarrow> Inr (h, cur)
         | Some tags \<Rightarrow>
             (case find_parent (Suc (length h)) h tags cur of
                Some q \<Rightarrow> Inr (h, q)
              | None \<Rightarrow> element cur (hd tags) None h))"
  have e: "element cur tag ha h = bind_res r (\<lambda>(h1, par). bind_res (push_child par (element_node par tag ha) h1)
           (\<lambda>(h2, elm). Inr (h2, if dtd_has dtd_empty tag then par else elm)))"
    using notin unfolding r_def by (subst element.simps) simp
  then obtain h1 par where r: "r = Inr (h1, par)" using 1(2) by (cases r) auto
  have "\<exists>t1. parsing h0 h1 t1 par"
  proof (cases "obj_get needParentNode tag")
    case None
    then show ?thesis using r 1(4) by (auto simp: r_def)
  next
    case (Some tags)
    show ?thesis
    proof (cases "find_parent (Suc (length h)) h tags cur")
      case None
      then show ?thesis using r Some 1(1) [OF notin Some None _ _ 1(4)] need_lower [OF Some] by (simp add: r_def)
    next
      case (Some q)
      then show ?thesis
        using r \<open>obj_get needParentNode tag = Some tags\<close> find_parent_in [OF 1(4) Some c] parsing_move [OF 1(4)]
        by (auto simp: r_def)
    qed
  qed
  then obtain t1 where t1: "parsing h0 h1 t1 par" by blast
  show ?case using parsing_push [OF t1 1(3), of ha] 1(2) e r by auto
qed

lemma parsing_comment:
  assumes i: "parsing h0 h t cur"
  shows "add_comment cur d h = Inr h' \<Longrightarrow> \<exists>t'. parsing h0 h' t' cur"
proof -
  let ?n = "new_uNode Comment (Some d) undefined_name (Some cur) None None"
  have c: "cur \<in> set (ptrs t)" "takes_children (h ! cur)" "cur < length h"
    using i rep_bound by (auto simp: parsing_def represents_def)
  obtain cs where cs: "children (h ! cur) = Some cs" using parsing_children [OF i c(1,2)] by blast
  assume "add_comment cur d h = Inr h'"
  then have "h' = grow cur ?n h"
    using push_child_grow [OF cs, of ?n] by (simp add: add_comment_def new_uNode_def)
  then show ?thesis
    using parsing_grow [OF i c(1,2), of ?n cur] c takes_children_grow [of cur h cur ?n]
    by (auto simp: new_uNode_def ok_node_def takes_children_def)
qed

lemma parsing_end_tag:
  assumes i: "parsing h0 h t cur" and e: "end_tag cur name h = Some p"
  shows "parsing h0 h t p"
proof -
  have c: "cur \<in> set (ptrs t)" "takes_children (h ! cur)" using i by (auto simp: parsing_def)
  obtain q where q: "find_parent (Suc (length h)) h [toLowerCase name] cur = Some q" "parentNode (h ! q) = Some p"
    using e by (auto simp: end_tag_def simp del: find_parent.simps split: option.splits)
  then have "q \<in> set (ptrs t)" using find_parent_in [OF i q(1) c] by blast
  then show ?thesis using parsing_parent [OF i _ q(2)] parsing_move [OF i] by blast
qed

lemma parsing_step:
  assumes i: "parsing h0 h t cur"
  shows "\<exists>t'. parsing h0 (fst (step_match (h, cur) bmc)) t' (snd (step_match (h, cur) bmc))"
proof -
  obtain b mt cs where bmc: "bmc = (b, mt, cs)" by (cases bmc)
  define h1 where "h1 = (if b \<noteq> [] then add_text cur b h else h)"
  obtain t1 where t1: "parsing h0 h1 t1 cur" using i parsing_text [OF i, of b] by (cases "b = []") (auto simp: h1_def)
  define Q where "Q x \<longleftrightarrow> (\<exists>t'. parsing h0 (fst x) t' (snd x))" for x :: "store \<times> ptr"
  have Q: "Q (h1, cur)" "Q (add_text cur mt h1, cur)"
    "\<And>t ha h' p'. element cur (toLowerCase t) ha h1 = Inr (h', p') \<Longrightarrow> Q (h', p')"
    "\<And>d h'. add_comment cur d h1 = Inr h' \<Longrightarrow> Q (h', cur)"
    "\<And>n p. end_tag cur n h1 = Some p \<Longrightarrow> Q (h1, p)"
    using t1 parsing_text [OF t1, of mt] parsing_element [OF toLowerCase_idem t1] parsing_comment [OF t1]
      parsing_end_tag [OF t1]
    unfolding Q_def fst_conv snd_conv by blast+
  have "Q (step_match (h, cur) bmc)"
    unfolding bmc step_match_def Let_def prod.case h1_def [symmetric]
    using Q by (auto split: option.splits sum.splits)
  then show ?thesis by (simp add: Q_def)
qed

lemma parsing_steps:
  "parsing h0 h t cur \<Longrightarrow> \<exists>t'. parsing h0 (fst (foldl step_match (h, cur) ms)) t' (snd (foldl step_match (h, cur) ms))"
proof (induction ms arbitrary: h t cur)
  case (Cons bmc ms)
  then show ?case using parsing_step [OF Cons.prems, of bmc] by (metis foldl_Cons prod.collapse)
qed auto

lemma htmlparser_parsing:
  "\<exists>t cur. parsing h (fst (htmlparser fc s ib h)) t cur \<and> snd (htmlparser fc s ib h) = length h"
proof -
  let ?r = "new_uNode Root None undefined_name None None (Some [])"
  let ?s = "preprocess fc ib s"
  obtain ms rest where ms: "exec_all re_tag [] ?s = (ms, rest)" by (metis surj_pair)
  have "parsing h (h @ [?r]) (PT (length h) []) (length h)"
    by (simp add: parsing_def represents_def new_uNode_def ok_node_def takes_children_def)
  from parsing_steps [OF this, of ms] obtain h2 cur t where
    st: "foldl step_match (h @ [?r], length h) ms = (h2, cur)" and t: "parsing h h2 t cur"
    by (metis prod.collapse)
  have "fst (htmlparser fc s ib h) = (if rest \<noteq> [] then add_text cur rest h2 else h2)"
    "snd (htmlparser fc s ib h) = length h"
    by (simp_all add: htmlparser_def Let_def alloc_def ms st)
  then show ?thesis using t parsing_text [OF t, of rest] by auto
qed

lemma parsing_printable:
  assumes i: "parsing h0 h t cur"
  shows "printable h t"
proof -
  have "ntype (h ! proot t) = Root" using i proot_in_ptrs [of t] by (auto simp: parsing_def simp del: proot_in_ptrs)
  then show ?thesis
    using i by (intro printable_rep [of h None]) (auto simp: parsing_def represents_def ok_node_def takes_children_def)
qed

lemma parse_print_ex:
  "\<exists>out. toHtml (fst (htmlparser fc s ib h)) False (snd (htmlparser fc s ib h)) = Inr out"
proof -
  obtain t cur where t: "parsing h (fst (htmlparser fc s ib h)) t cur" "snd (htmlparser fc s ib h) = length h"
    using htmlparser_parsing by blast
  then have "represents (fst (htmlparser fc s ib h)) None t" "proot t = length h" by (auto simp: parsing_def)
  then show ?thesis using toHtml_print [OF _ parsing_printable [OF t(1)]] t(2) by metis
qed

subsection \<open>Properties\<close>

text \<open>C4. For every text the parser ends and returns a new root whose tree has agreeing links:
  every child list is matched by the parent links and no node occurs twice. What was in the
  store before is unchanged, texts have data, and no void element has a child.\<close>

theorem htmlparser_tree:
  "\<exists>t. represents (fst (htmlparser fc s ib h)) None t \<and> proot t = snd (htmlparser fc s ib h) \<and>
    snd (htmlparser fc s ib h) = length h \<and> take (length h) (fst (htmlparser fc s ib h)) = h \<and>
    list_all (\<lambda>p. ok_node (fst (htmlparser fc s ib h) ! p)) (ptrs t)"
  using htmlparser_parsing [of h fc s ib] by (fastforce simp: parsing_def list_all_iff)

text \<open>Whatever the parser returns can be printed: \<open>toHtml\<close> of a parsed text never throws.\<close>

theorem parse_then_print:
  "\<exists>out. toHtml (fst (htmlparser fc s ib h)) False (snd (htmlparser fc s ib h)) = Inr out"
  by (rule parse_print_ex)

end
