(* ===== verification/Undo.thy ===== *)
theory Undo
  imports ParserInv
begin

text \<open>
  \<open>plugins/undo.js\<close>: the history of scenes and the handlers that feed it. The editor's body
  and selection are part of the state, the rules that plugins register for input and output
  and the browser's attempt to put a selection back are parameters (\<open>ucfg\<close>); parsing and
  printing are those of the other components. A timer and the intervals that wait for the
  end of an input method are pending flags, and their expiry is an event of its own, so that
  every order of keys, timers and commands is a run of the step relation \<open>ustep\<close>.
\<close>

subsection \<open>State\<close>

record range_address =
  collapsed :: bool
  startAddress :: "nat list"
  endAddress :: "nat list"

record scene =
  address :: range_address
  content :: string

record editor =
  body :: string
  sel :: range_address
  scenes :: "scene list"
  index :: nat
  hasUndo :: bool
  hasRedo :: bool
  keycont :: nat
  lastKeyCode :: "nat option"
  timer :: bool
  intervals :: nat
  inputType :: bool
  isCollapsed :: bool

text \<open>
  The options \<open>maxUndoCount\<close> and \<open>maxInputCount\<close> (0 when not set), the fill character, the
  registered filter rules, and what selecting a stored address results in.
\<close>

record ucfg =
  optUndoCount :: nat
  optInputCount :: nat
  fillChar :: string
  filterOutputRule :: "ptr \<Rightarrow> store \<Rightarrow> store"
  filterInputRule :: "ptr \<Rightarrow> store \<Rightarrow> store"
  moveToAddress :: "string \<Rightarrow> range_address \<Rightarrow> range_address option"

definition maxUndoCount :: "ucfg \<Rightarrow> nat" where
  "maxUndoCount c = (if optUndoCount c = 0 then 20 else optUndoCount c)"

definition maxInputCount :: "ucfg \<Rightarrow> nat" where
  "maxInputCount c = (if optInputCount c = 0 then 20 else optInputCount c)"

definition fillchar :: "ucfg \<Rightarrow> re" where
  "fillchar c = Alt (lit_i (fillChar c)) (lit_i ''</hr>'')"

fun compare_from :: "nat list \<Rightarrow> nat list \<Rightarrow> bool" where
  "compare_from (a # as) (b # bs) = (if a \<noteq> b then False else compare_from as bs)"
| "compare_from _ _ = True"

definition compareAddr :: "nat list \<Rightarrow> nat list \<Rightarrow> bool" where
  "compareAddr indexA indexB = (if length indexA \<noteq> length indexB then False else compare_from indexA indexB)"

definition compareRangeAddress :: "range_address \<Rightarrow> range_address \<Rightarrow> bool" where
  "compareRangeAddress a b =
     (if collapsed a \<noteq> collapsed b then False
      else if \<not> compareAddr (startAddress a) (startAddress b) \<or> \<not> compareAddr (endAddress a) (endAddress b) then False
      else True)"

subsection \<open>The manager\<close>

definition clearKey :: "editor \<Rightarrow> editor" where
  "clearKey s = s\<lparr>keycont := 0, lastKeyCode := None\<rparr>"

definition update :: "editor \<Rightarrow> editor" where
  "update s = s\<lparr>hasRedo := (nth_opt (scenes s) (index s + 1) \<noteq> None),
     hasUndo := (index s > 0 \<and> nth_opt (scenes s) (index s - 1) \<noteq> None)\<rparr>"

definition reset :: "editor \<Rightarrow> editor" where
  "reset s = clearKey (s\<lparr>scenes := [], index := 0, hasUndo := False, hasRedo := False\<rparr>)"

definition scene_html :: "ucfg \<Rightarrow> string \<Rightarrow> string res" where
  "scene_html c s = (let (h, root) = htmlparser (fillChar c) s False [] in toHtml (filterOutputRule c root h) False root)"

definition restore_html :: "ucfg \<Rightarrow> string \<Rightarrow> string res" where
  "restore_html c s =
     (let (h, root) = htmlparser (fillChar c) (replace (fillchar c) (\<lambda>_ _. []) s) False []
      in toHtml (filterInputRule c root h) False root)"

definition getScene :: "ucfg \<Rightarrow> editor \<Rightarrow> scene res" where
  "getScene c s = bind_res (scene_html c (body s)) (\<lambda>cont. Inr \<lparr>address = sel s, content = cont\<rparr>)"

definition restore :: "ucfg \<Rightarrow> editor \<Rightarrow> editor res" where
  "restore c s = (case nth_opt (scenes s) (index s) of
      None \<Rightarrow> Inl TypeError
    | Some sc \<Rightarrow> bind_res (restore_html c (content sc)) (\<lambda>b.
        let s1 = s\<lparr>body := b\<rparr>;
            s2 = (case moveToAddress c b (address sc) of Some a \<Rightarrow> s1\<lparr>sel := a\<rparr> | None \<Rightarrow> s1)
        in Inr (clearKey (update s2))))"

definition save :: "ucfg \<Rightarrow> bool \<Rightarrow> editor \<Rightarrow> editor res" where
  "save c notCompareRange s0 =
     (let s = s0\<lparr>timer := False\<rparr> in
      bind_res (getScene c s) (\<lambda>currentScene.
        let same = (case nth_opt (scenes s) (index s) of
              None \<Rightarrow> False
            | Some lastScene \<Rightarrow> content lastScene = content currentScene \<and>
                (if notCompareRange then True else compareRangeAddress (address lastScene) (address currentScene)))
        in if same then Inr s
           else (let l1 = take (index s + 1) (scenes s) @ [currentScene];
                     l2 = (if length l1 > maxUndoCount c then tl l1 else l1)
                 in Inr (update (clearKey (s\<lparr>scenes := l2, index := length l2 - 1\<rparr>))))))"

text \<open>
  The loops of \<open>undo\<close> and \<open>redo\<close> walk over scenes with equal content; \<open>None\<close> in their result
  is the early return at the end of the list. A read past the list throws.
\<close>

fun undo_index :: "scene list \<Rightarrow> nat \<Rightarrow> nat res" where
  "undo_index l 0 = Inl TypeError"
| "undo_index l (Suc i) =
     (case (nth_opt l (Suc i), nth_opt l i) of
        (Some a, Some b) \<Rightarrow>
          if content a = content b then (if i = 0 then Inr 0 else undo_index l i) else Inr i
      | _ \<Rightarrow> Inl TypeError)"

function redo_index :: "scene list \<Rightarrow> nat \<Rightarrow> nat res" where
  "redo_index l i =
     (case (nth_opt l i, nth_opt l (Suc i)) of
        (Some a, Some b) \<Rightarrow>
          if content a = content b then (if Suc i = length l - 1 then Inr (Suc i) else redo_index l (Suc i))
          else Inr (Suc i)
      | _ \<Rightarrow> Inl TypeError)"
  by pat_completeness auto
termination
  by (relation "measure (\<lambda>(l, i). length l - i)") (auto dest!: sym [of "Some _"])

declare redo_index.simps [simp del]

definition undo :: "ucfg \<Rightarrow> editor \<Rightarrow> editor res" where
  "undo c s =
     (if hasUndo s
      then (if (index s = 0 \<or> nth_opt (scenes s) (index s - 1) = None) \<and> length (scenes s) = 1 then Inr (reset s)
            else bind_res (undo_index (scenes s) (index s)) (\<lambda>i. restore c (s\<lparr>index := i\<rparr>)))
      else Inr s)"

definition redo :: "ucfg \<Rightarrow> editor \<Rightarrow> editor res" where
  "redo c s =
     (if hasRedo s then bind_res (redo_index (scenes s) (index s)) (\<lambda>i. restore c (s\<lparr>index := i\<rparr>)) else Inr s)"

text \<open>\<open>commands.undo.queryCommandState\<close>: 0 when the command can run, -1 when not.\<close>

definition queryCommandState :: "string \<Rightarrow> editor \<Rightarrow> int" where
  "queryCommandState cmdName s =
     (if (if toLowerCase cmdName = ''undo'' then hasUndo s else hasRedo s) then 0 else - 1)"

subsection \<open>The handlers\<close>

record key_event =
  keyCode :: nat
  modifier :: bool  \<comment> \<open>ctrl, meta, shift or alt is held\<close>

definition keys :: "nat list" where
  "keys = [16, 17, 18, 37, 38, 39, 40]"

definition typing :: "key_event \<Rightarrow> bool" where
  "typing e \<longleftrightarrow> keyCode e \<notin> set keys \<and> \<not> modifier e"

definition keydown :: "ucfg \<Rightarrow> key_event \<Rightarrow> editor \<Rightarrow> editor res" where
  "keydown c e s =
     (if \<not> typing e \<or> inputType s then Inr s
      else if \<not> collapsed (sel s) then bind_res (save c False s) (\<lambda>s1. Inr (s1\<lparr>isCollapsed := False\<rparr>))
      else bind_res (if scenes s = [] then save c True s else Inr s) (\<lambda>s1.
        let s2 = s1\<lparr>timer := True, lastKeyCode := Some (keyCode e), keycont := Suc (keycont s1)\<rparr>
        in if keycont s2 \<ge> maxInputCount c then save c False s2 else Inr s2))"

definition keyup :: "ucfg \<Rightarrow> key_event \<Rightarrow> editor \<Rightarrow> editor res" where
  "keyup c e s =
     (if typing e \<and> \<not> inputType s \<and> \<not> isCollapsed s
      then bind_res (save c False s) (\<lambda>s1. Inr (s1\<lparr>isCollapsed := True\<rparr>))
      else Inr s)"

definition timer_expires :: "ucfg \<Rightarrow> editor \<Rightarrow> editor res" where
  "timer_expires c s =
     (if \<not> timer s then Inr s
      else if inputType s then Inr (s\<lparr>timer := False, intervals := Suc (intervals s)\<rparr>)
      else save c False (s\<lparr>timer := False\<rparr>))"

definition interval_ticks :: "ucfg \<Rightarrow> editor \<Rightarrow> editor res" where
  "interval_ticks c s =
     (if intervals s = 0 \<or> inputType s then Inr s
      else bind_res (save c False s) (\<lambda>s1. Inr (s1\<lparr>intervals := intervals s1 - 1\<rparr>)))"

definition on_reset :: "bool \<Rightarrow> editor \<Rightarrow> editor" where
  "on_reset exclude s = (if exclude then s else reset s)"

definition initial :: "string \<Rightarrow> range_address \<Rightarrow> editor" where
  "initial b a = \<lparr>body = b, sel = a, scenes = [], index = 0, hasUndo = False, hasRedo = False,
     keycont = 0, lastKeyCode = None, timer = False, intervals = 0, inputType = False, isCollapsed = True\<rparr>"

text \<open>What can happen to an editor; an edit is any change of the document or the selection.\<close>

inductive ustep :: "ucfg \<Rightarrow> editor \<Rightarrow> editor \<Rightarrow> bool" for c where
  edit: "ustep c s (s\<lparr>body := b, sel := a\<rparr>)"
| save: "save c notCompareRange s = Inr s' \<Longrightarrow> ustep c s s'"
| undo: "undo c s = Inr s' \<Longrightarrow> ustep c s s'"
| redo: "redo c s = Inr s' \<Longrightarrow> ustep c s s'"
| reset: "ustep c s (on_reset exclude s)"
| keydown: "keydown c e s = Inr s' \<Longrightarrow> ustep c s s'"
| keyup: "keyup c e s = Inr s' \<Longrightarrow> ustep c s s'"
| timer: "timer_expires c s = Inr s' \<Longrightarrow> ustep c s s'"
| interval: "interval_ticks c s = Inr s' \<Longrightarrow> ustep c s s'"
| composition: "ustep c s (s\<lparr>inputType := b\<rparr>)"

inductive reachable :: "ucfg \<Rightarrow> editor \<Rightarrow> bool" for c where
  start: "reachable c (initial b a)"
| step: "reachable c s \<Longrightarrow> ustep c s s' \<Longrightarrow> reachable c s'"

inductive_cases ustepE: "ustep c s s'"

subsection \<open>The invariant\<close>

text \<open>
  The index is inside the list, the list is no longer than the option allows, and the two
  flags say exactly whether there is a scene before and after the index.
\<close>

definition uinv :: "ucfg \<Rightarrow> editor \<Rightarrow> bool" where
  "uinv c s \<longleftrightarrow> length (scenes s) \<le> maxUndoCount c \<and>
     (if scenes s = [] then index s = 0 else index s < length (scenes s)) \<and>
     (hasUndo s \<longleftrightarrow> 0 < index s) \<and> (hasRedo s \<longleftrightarrow> Suc (index s) < length (scenes s))"

text \<open>What the invariant reads.\<close>

definition same_history :: "editor \<Rightarrow> editor \<Rightarrow> bool" where
  "same_history s s' \<longleftrightarrow> scenes s' = scenes s \<and> index s' = index s \<and> hasUndo s' = hasUndo s \<and> hasRedo s' = hasRedo s"

lemma uinv_same: "same_history s s' \<Longrightarrow> uinv c s' = uinv c s"
  by (simp add: uinv_def same_history_def)

lemma maxUndoCount_pos [simp]: "0 < maxUndoCount c"
  by (simp add: maxUndoCount_def)

lemma uinv_update:
  assumes "length (scenes s) \<le> maxUndoCount c" "index s < length (scenes s)"
  shows "uinv c (clearKey (update s))" "uinv c (update (clearKey s))"
  using assms by (auto simp: uinv_def update_def clearKey_def)

lemma restore_uinv:
  assumes "length (scenes s) \<le> maxUndoCount c" "restore c s = Inr s'"
  shows "uinv c s' \<and> scenes s' = scenes s \<and> index s' = index s"
proof -
  obtain sc b where sc: "nth_opt (scenes s) (index s) = Some sc" "restore_html c (content sc) = Inr b"
    using assms(2) by (auto simp: restore_def bind_res_def split: option.splits sum.splits)
  define s2 where "s2 = (case moveToAddress c b (address sc) of Some a \<Rightarrow> s\<lparr>body := b\<rparr>\<lparr>sel := a\<rparr> | None \<Rightarrow> s\<lparr>body := b\<rparr>)"
  have "s' = clearKey (update s2)" using assms(2) by (simp add: restore_def sc s2_def Let_def)
  moreover have "scenes s2 = scenes s" "index s2 = index s" by (auto simp: s2_def split: option.splits)
  ultimately show ?thesis
    using uinv_update(1) [of s2 c] assms(1) sc(1) by (auto simp: clearKey_def update_def)
qed

lemma save_cases:
  assumes "save c b s = Inr s'"
  obtains (same) "same_history s s'"
    | (push) sc where "getScene c s = Inr sc"
        "scenes s' = (let l = take (index s + 1) (scenes s) @ [sc] in if length l > maxUndoCount c then tl l else l)"
        "index s' = length (scenes s') - 1" "s' = update s'"
proof -
  obtain sc where sc: "getScene c s = Inr sc"
    using assms by (auto simp: save_def getScene_def bind_res_def Let_def split: sum.splits)
  have g: "getScene c (s\<lparr>timer := False\<rparr>) = Inr sc" using sc by (simp add: getScene_def)
  let ?l = "take (index s + 1) (scenes s) @ [sc]"
  consider "s' = s\<lparr>timer := False\<rparr>"
    | "s' = update (clearKey (s\<lparr>timer := False, scenes := (if length ?l > maxUndoCount c then tl ?l else ?l),
         index := length (if length ?l > maxUndoCount c then tl ?l else ?l) - 1\<rparr>))"
    using assms unfolding save_def Let_def editor.simps g bind_res_simps by (auto split: if_splits)
  then show thesis
  proof cases
    case 1
    then show thesis by (intro same) (simp add: same_history_def)
  next
    case 2
    then show thesis by (intro push [OF sc]) (auto simp: update_def clearKey_def Let_def)
  qed
qed

lemma save_uinv: "uinv c s \<Longrightarrow> save c b s = Inr s' \<Longrightarrow> uinv c s'"
proof (erule save_cases)
  assume "uinv c s" "same_history s s'"
  then show "uinv c s'" by (simp add: uinv_same)
next
  fix sc assume i: "uinv c s" and p: "scenes s' = (let l = take (index s + 1) (scenes s) @ [sc] in if length l > maxUndoCount c then tl l else l)"
    "index s' = length (scenes s') - 1" "s' = update s'"
  let ?l = "take (index s + 1) (scenes s) @ [sc]"
  have l: "length ?l \<le> Suc (maxUndoCount c)" using i by (auto simp: uinv_def)
  have n: "scenes s' \<noteq> []" using maxUndoCount_pos [of c] by (cases "take (index s + 1) (scenes s)") (auto simp: p(1) Let_def)
  have m: "length (scenes s') \<le> maxUndoCount c" using l by (auto simp: p(1) Let_def)
  have h: "hasUndo s' = (index s' > 0 \<and> nth_opt (scenes s') (index s' - 1) \<noteq> None)"
    "hasRedo s' = (nth_opt (scenes s') (index s' + 1) \<noteq> None)"
    using arg_cong [OF p(3), of hasUndo] arg_cong [OF p(3), of hasRedo] by (simp_all add: update_def)
  have "0 < length (scenes s')" using n by simp
  then show "uinv c s'" using m n h by (auto simp: uinv_def p(2))
qed

lemma undo_index_le: "undo_index l i = Inr j \<Longrightarrow> j < i"
  by (induction l i rule: undo_index.induct) (force split: option.splits if_splits)+

lemma redo_index_less: "redo_index l i = Inr j \<Longrightarrow> j < length l"
  by (induction l i rule: redo_index.induct)
    (subst (asm) (2) redo_index.simps, force split: option.splits if_splits)

lemma uinv_length: "uinv c s \<Longrightarrow> length (scenes s) \<le> maxUndoCount c"
  by (simp add: uinv_def)

lemma reset_uinv [simp]: "uinv c (reset s)"
  by (simp add: reset_def clearKey_def uinv_def)

lemma undo_uinv: "uinv c s \<Longrightarrow> undo c s = Inr s' \<Longrightarrow> uinv c s'"
  using uinv_length [of c s] restore_uinv [of "s\<lparr>index := _\<rparr>" c s']
  by (auto simp: undo_def bind_res_def split: if_splits sum.splits)

lemma redo_uinv: "uinv c s \<Longrightarrow> redo c s = Inr s' \<Longrightarrow> uinv c s'"
  using uinv_length [of c s] restore_uinv [of "s\<lparr>index := _\<rparr>" c s']
  by (auto simp: redo_def bind_res_def split: if_splits sum.splits)

lemma uinv_fields [simp]:
  "uinv c (s\<lparr>timer := x1\<rparr>) = uinv c s" "uinv c (s\<lparr>isCollapsed := x2\<rparr>) = uinv c s"
  "uinv c (s\<lparr>intervals := x3\<rparr>) = uinv c s" "uinv c (s\<lparr>inputType := x4\<rparr>) = uinv c s"
  "uinv c (s\<lparr>body := x5\<rparr>) = uinv c s" "uinv c (s\<lparr>sel := x6\<rparr>) = uinv c s"
  "uinv c (s\<lparr>lastKeyCode := x7\<rparr>) = uinv c s" "uinv c (s\<lparr>keycont := x8\<rparr>) = uinv c s"
  by (simp_all add: uinv_def)

lemma keydown_uinv: "uinv c s \<Longrightarrow> keydown c e s = Inr s' \<Longrightarrow> uinv c s'"
  by (auto simp: keydown_def bind_res_def Let_def split: if_splits sum.splits dest!: save_uinv [rotated])

lemma ustep_uinv: "ustep c s s' \<Longrightarrow> uinv c s \<Longrightarrow> uinv c s'"
proof (erule ustepE)
qed (auto simp: keyup_def timer_expires_def interval_ticks_def on_reset_def bind_res_def
    split: if_splits sum.splits dest!: save_uinv [rotated] dest: undo_uinv redo_uinv keydown_uinv)

lemma reachable_uinv: "reachable c s \<Longrightarrow> uinv c s"
proof (induction rule: reachable.induct)
  case (start b a)
  then show ?case by (simp add: initial_def uinv_def)
qed (rule ustep_uinv)

subsection \<open>Where undo and redo go\<close>

definition eqc :: "scene list \<Rightarrow> nat \<Rightarrow> nat \<Rightarrow> bool" where
  "eqc l a b \<longleftrightarrow> content (l ! a) = content (l ! b)"

lemma eqc_refl [simp]: "eqc l a a"
  and eqc_sym: "eqc l a b \<Longrightarrow> eqc l b a"
  and eqc_trans: "eqc l a b \<Longrightarrow> eqc l b d \<Longrightarrow> eqc l a d"
  by (auto simp: eqc_def)

text \<open>
  The scene undo goes to from \<open>i\<close>: the nearest earlier one with another content, or the
  first one; and the scene redo goes to.
\<close>

definition undo_target :: "scene list \<Rightarrow> nat \<Rightarrow> nat \<Rightarrow> bool" where
  "undo_target l i j \<longleftrightarrow> j < i \<and> (\<forall>k. j < k \<and> k \<le> i \<longrightarrow> eqc l k i) \<and> (j = 0 \<or> \<not> eqc l j i)"

definition redo_target :: "scene list \<Rightarrow> nat \<Rightarrow> nat \<Rightarrow> bool" where
  "redo_target l i j \<longleftrightarrow> i < j \<and> j < length l \<and> (\<forall>k. i \<le> k \<and> k < j \<longrightarrow> eqc l k i) \<and>
     (Suc j = length l \<or> \<not> eqc l j i)"

lemma undo_index_spec:
  "0 < i \<Longrightarrow> i < length l \<Longrightarrow> \<exists>j. undo_index l i = Inr j \<and> undo_target l i j"
proof (induction i)
  case (Suc i)
  have u: "undo_index l (Suc i) = (if eqc l (Suc i) i then (if i = 0 then Inr 0 else undo_index l i) else Inr i)"
    using Suc.prems by (simp add: nth_opt_def eqc_def)
  have last: "k = Suc i" if "i < k \<and> k \<le> Suc i" for k using that by linarith
  show ?case
  proof (cases "eqc l (Suc i) i \<and> i \<noteq> 0")
    case True
    then obtain j where j: "undo_index l i = Inr j" "undo_target l i j" using Suc.IH Suc.prems by auto
    have "eqc l k (Suc i)" if "j < k \<and> k \<le> Suc i" for k
      using j(2) True that eqc_trans eqc_sym unfolding undo_target_def by (metis eqc_refl le_Suc_eq)
    then have "undo_target l (Suc i) j" using j(2) True eqc_trans unfolding undo_target_def by (meson less_SucI)
    then show ?thesis using u j(1) True by auto
  next
    case False
    then have "undo_target l (Suc i) i" using last eqc_sym unfolding undo_target_def by fastforce
    then show ?thesis using u False by auto
  qed
qed simp

lemma redo_index_spec: "Suc i < length l \<Longrightarrow> \<exists>j. redo_index l i = Inr j \<and> redo_target l i j"
proof (induction "length l - i" arbitrary: i)
  case (Suc n)
  have r: "redo_index l i = (if eqc l i (Suc i)
      then (if Suc i = length l - 1 then Inr (Suc i) else redo_index l (Suc i)) else Inr (Suc i))"
    using Suc.prems by (subst redo_index.simps) (simp add: nth_opt_def eqc_def)
  have first: "k = i" if "i \<le> k \<and> k < Suc i" for k using that by linarith
  show ?case
  proof (cases "eqc l i (Suc i) \<and> Suc i \<noteq> length l - 1")
    case True
    have "n = length l - Suc i" "Suc (Suc i) < length l" using True Suc.hyps(2) Suc.prems by linarith+
    then obtain j where j: "redo_index l (Suc i) = Inr j" "redo_target l (Suc i) j"
      using Suc.hyps(1) [of "Suc i"] by blast
    have "eqc l k i" if "i \<le> k \<and> k < j" for k
      using j(2) True that eqc_trans eqc_sym unfolding redo_target_def by (metis Suc_leI eqc_refl le_neq_implies_less)
    then have "redo_target l i j"
      using j(2) True eqc_trans unfolding redo_target_def by (meson Suc_lessD)
    then show ?thesis using r j(1) True by auto
  next
    case False
    then have "redo_target l i (Suc i)" using first eqc_sym Suc.prems unfolding redo_target_def by fastforce
    then show ?thesis using r False by auto
  qed
qed simp

lemma restore_at:
  assumes "i < length (scenes s)" "restore_html c (content (scenes s ! i)) = Inr b"
  obtains s' where "restore c (s\<lparr>index := i\<rparr>) = Inr s'" "body s' = b" "index s' = i" "scenes s' = scenes s"
    "hasRedo s' \<longleftrightarrow> Suc i < length (scenes s)"
proof -
  have n: "nth_opt (scenes s) i = Some (scenes s ! i)" using assms(1) by simp
  define s2 where "s2 = (case moveToAddress c b (address (scenes s ! i)) of
        Some a \<Rightarrow> s\<lparr>index := i, body := b\<rparr>\<lparr>sel := a\<rparr> | None \<Rightarrow> s\<lparr>index := i, body := b\<rparr>)"
  have "body s2 = b" "index s2 = i" "scenes s2 = scenes s" by (auto simp: s2_def split: option.splits)
  moreover have "restore c (s\<lparr>index := i\<rparr>) = Inr (clearKey (update s2))"
    using assms(2) by (simp add: restore_def n Let_def s2_def)
  ultimately show thesis
    using that [of "clearKey (update s2)"] by (simp add: clearKey_def update_def not_le)
qed

lemma undo_at:
  assumes r: "uinv c s" "hasUndo s"
  obtains j where "undo_target (scenes s) (index s) j" "undo c s = restore c (s\<lparr>index := j\<rparr>)"
    "index s < length (scenes s)"
proof -
  have i: "0 < index s" "index s < length (scenes s)" using r by (auto simp: uinv_def split: if_splits)
  obtain j where j: "undo_index (scenes s) (index s) = Inr j" "undo_target (scenes s) (index s) j"
    using undo_index_spec [OF i] by blast
  have "length (scenes s) \<noteq> 1" using i by simp
  then show thesis using that [OF j(2) _ i(2)] j(1) r(2) by (simp add: undo_def)
qed

lemma redo_at:
  assumes r: "uinv c s" "hasRedo s"
  obtains j where "redo_target (scenes s) (index s) j" "redo c s = restore c (s\<lparr>index := j\<rparr>)"
proof -
  have "Suc (index s) < length (scenes s)" using r by (simp add: uinv_def)
  from redo_index_spec [OF this] show thesis using that r(2) unfolding redo_def by auto
qed

subsection \<open>Properties\<close>

text \<open>C10. In every state that keys, commands, timers and edits can lead to, in any order, the
  history is no longer than \<open>maxUndoCount\<close>, the index is inside it, and the undo and redo
  commands are enabled exactly when there is an earlier and a later scene.\<close>

theorem undo_history_bounded:
  assumes "reachable c s"
  shows "length (scenes s) \<le> maxUndoCount c \<and> (scenes s = [] \<or> index s < length (scenes s)) \<and>
    (queryCommandState ''undo'' s = 0 \<longleftrightarrow> 0 < index s) \<and>
    (queryCommandState ''redo'' s = 0 \<longleftrightarrow> Suc (index s) < length (scenes s))"
proof -
  have "toLowerCase ''undo'' = ''undo''" "toLowerCase ''redo'' = ''redo''" by code_simp+
  then show ?thesis using reachable_uinv [OF assms] by (auto simp: uinv_def queryCommandState_def split: if_splits)
qed

text \<open>C11. Undo ends, throws nothing of its own, and goes to the nearest earlier scene whose content
  differs from the current one, or to the first scene; the document becomes that scene's.\<close>

theorem undo_goes_back:
  assumes "reachable c s" "hasUndo s" "\<And>x. \<exists>b. restore_html c x = Inr b"
  shows "\<exists>j s'. undo_target (scenes s) (index s) j \<and> undo c s = Inr s' \<and> index s' = j \<and> scenes s' = scenes s \<and>
    restore_html c (content (scenes s ! j)) = Inr (body s')"
proof -
  obtain j where j: "undo_target (scenes s) (index s) j" "undo c s = restore c (s\<lparr>index := j\<rparr>)" "index s < length (scenes s)"
    by (rule undo_at [OF reachable_uinv [OF assms(1)] assms(2)])
  obtain b where b: "restore_html c (content (scenes s ! j)) = Inr b" using assms(3) by blast
  have "j < length (scenes s)" using j(1,3) by (simp add: undo_target_def)
  from restore_at [OF this b] j b show ?thesis by metis
qed

text \<open>C12. Redo undoes undo: when undo has gone to a scene with another content, redo brings back
  the content that was there before.\<close>

theorem undo_redo:
  assumes "reachable c s" "hasUndo s" "undo c s = Inr s1" "\<not> eqc (scenes s) (index s1) (index s)"
    and "restore_html c (content (scenes s ! index s)) = Inr b"
  shows "\<exists>s2. redo c s1 = Inr s2 \<and> body s2 = b \<and> eqc (scenes s) (index s2) (index s) \<and> scenes s2 = scenes s"
proof -
  note i = reachable_uinv [OF assms(1)]
  obtain j where j: "undo_target (scenes s) (index s) j" "undo c s = restore c (s\<lparr>index := j\<rparr>)" "index s < length (scenes s)"
    by (rule undo_at [OF i assms(2)])
  have r: "uinv c s1" "scenes s1 = scenes s" "index s1 = j"
    using restore_uinv [of "s\<lparr>index := j\<rparr>" c s1] uinv_length [OF i] j(2) assms(3) by auto
  have ji: "j < index s" using j(1) by (simp add: undo_target_def)
  have "hasRedo s1" using r j(3) ji by (simp add: uinv_def)
  from redo_at [OF r(1) this] obtain k where
    k: "redo_target (scenes s) j k" "redo c s1 = restore c (s1\<lparr>index := k\<rparr>)" by (auto simp: r)
  have "\<not> index s < k" using k(1) ji assms(4) eqc_sym by (auto simp: redo_target_def r)
  then have e: "eqc (scenes s) k (index s)" using j(1) k(1) by (auto simp: undo_target_def redo_target_def)
  have kl: "k < length (scenes s1)" using k(1) by (simp add: redo_target_def r)
  have "restore_html c (content (scenes s1 ! k)) = Inr b" using assms(5) e by (simp add: eqc_def r)
  from restore_at [OF kl this] k(2) e r show ?thesis by metis
qed

text \<open>C13. A saved change can be taken back: saving a changed document and undoing restores the
  scene that was current before, when the history keeps at least two scenes.\<close>

theorem save_undo:
  assumes "reachable c s" "scenes s \<noteq> []" "getScene c s = Inr sc" "content sc \<noteq> content (scenes s ! index s)"
    and "2 \<le> maxUndoCount c" "restore_html c (content (scenes s ! index s)) = Inr b"
  shows "\<exists>s1 s2. save c notCompareRange s = Inr s1 \<and> undo c s1 = Inr s2 \<and> body s2 = b"
proof -
  have i: "uinv c s" using reachable_uinv [OF assms(1)] .
  have ix: "index s < length (scenes s)" using i assms(2) by (simp add: uinv_def)
  let ?l = "take (index s + 1) (scenes s) @ [sc]"
  let ?l2 = "if length ?l > maxUndoCount c then tl ?l else ?l"
  define s1 where "s1 = update (clearKey (s\<lparr>timer := False, scenes := ?l2, index := length ?l2 - 1\<rparr>))"
  have g: "getScene c (s\<lparr>timer := False\<rparr>) = Inr sc" using assms(3) by (simp add: getScene_def)
  have n: "nth_opt (scenes s) (index s) = Some (scenes s ! index s)" using ix by simp
  have sv: "save c notCompareRange s = Inr s1"
    using assms(4) by (simp add: save_def Let_def g n s1_def)
  define j where "j = length ?l2 - 2"
  have len: "length ?l = index s + 2" using ix by simp
  have lx: "?l ! index s = scenes s ! index s" "?l ! Suc (index s) = sc" using ix by (simp_all add: nth_append)
  have l2: "length ?l2 \<ge> 2" using len assms(5) by simp
  have at: "scenes s1 ! j = scenes s ! index s" "scenes s1 ! Suc j = sc" "index s1 = Suc j" "Suc j < length (scenes s1)"
    using len lx l2 by (auto simp: s1_def update_def clearKey_def j_def nth_tl numeral_2_eq_2 Suc_diff_Suc)
  have i1: "uinv c s1" using save_uinv [OF i sv] .
  have hu: "hasUndo s1" using i1 at(3) by (simp add: uinv_def)
  from undo_at [OF i1 hu] obtain k where k: "undo_target (scenes s1) (Suc j) k" "undo c s1 = restore c (s1\<lparr>index := k\<rparr>)"
    by (auto simp: at)
  have "\<not> eqc (scenes s1) j (Suc j)" using assms(4) by (simp add: eqc_def at)
  then have "k = j" using k(1) unfolding undo_target_def by (cases "k < j") auto
  then obtain s2 where "undo c s1 = Inr s2" "body s2 = b"
    using restore_at [of j s1 c b] k(2) at assms(6) by auto
  then show ?thesis using sv by blast
qed

subsection \<open>A run\<close>

definition demo_cfg :: ucfg where
  "demo_cfg = \<lparr>optUndoCount = 0, optInputCount = 0, fillChar = domUtils_fillChar False,
     filterOutputRule = (\<lambda>r h. h), filterInputRule = (\<lambda>r h. h), moveToAddress = (\<lambda>b a. Some a)\<rparr>"

definition demo_addr :: range_address where
  "demo_addr = \<lparr>collapsed = True, startAddress = [0], endAddress = [0]\<rparr>"

lemma parse_a: "htmlparser (domUtils_fillChar False) ''a'' False [] =
    ([new_uNode Root None undefined_name None None (Some [Suc 0]),
      new_uNode Text (Some ''a'') undefined_name (Some 0) None None], 0)"
proof -
  have "preprocess (domUtils_fillChar False) False ''a'' = ''a''" "exec_all re_tag [] ''a'' = ([], ''a'')" by code_simp+
  moreover have "unhtml ''a'' = ''a''" by code_simp
  ultimately show ?thesis
    by (simp add: htmlparser_def alloc_def add_text_def needChild_def new_uNode_def createText_def
        appendChild_def detach_def set_parent_def set_children_def upd_def)
qed

lemma print_empty: "toHtml [new_uNode Root None undefined_name None None (Some [])] False 0 = Inr []"
  by (simp add: toHtml_def nodeToHtml.simps new_uNode_def)

lemma print_a: "toHtml [new_uNode Root None undefined_name None None (Some [Suc 0]),
      new_uNode Text (Some ''a'') undefined_name (Some 0) None None] False 0 = Inr ''a''"
proof -
  have "replace (Seq (chr CHR '' '') (chr CHR '' '')) (\<lambda>_ _. '' &nbsp;'') ''a'' = ''a''" by code_simp
  moreover have "\<not> in_table notTransTagName undefined_name" by code_simp
  ultimately show ?thesis
    by (simp add: toHtml_def nodeToHtml.simps new_uNode_def isText_def sep_html_plain Let_def)
qed

lemma demo_html:
  "scene_html demo_cfg [] = Inr []" "scene_html demo_cfg ''a'' = Inr ''a''"
  "restore_html demo_cfg [] = Inr []" "restore_html demo_cfg ''a'' = Inr ''a''"
proof -
  have "replace (fillchar demo_cfg) (\<lambda>_ _. []) [] = []" "replace (fillchar demo_cfg) (\<lambda>_ _. []) ''a'' = ''a''"
    by code_simp+
  then show "scene_html demo_cfg [] = Inr []" "scene_html demo_cfg ''a'' = Inr ''a''"
    "restore_html demo_cfg [] = Inr []" "restore_html demo_cfg ''a'' = Inr ''a''"
    by (simp_all add: scene_html_def restore_html_def demo_cfg_def parse_empty parse_a print_empty print_a)
qed

lemma restore_total: "\<exists>b. restore_html demo_cfg x = Inr b"
  using parse_print_ex [of "domUtils_fillChar False" "replace (fillchar demo_cfg) (\<lambda>_ _. []) x" False "[]"]
  by (simp add: restore_html_def demo_cfg_def split_beta Let_def)

text \<open>The states after saving the empty document, editing it, and saving again.\<close>

definition demo1 :: editor where
  "demo1 = (initial [] demo_addr)\<lparr>scenes := [\<lparr>address = demo_addr, content = []\<rparr>]\<rparr>"

definition demo2 :: editor where
  "demo2 = demo1\<lparr>body := ''a''\<rparr>"

definition demo3 :: editor where
  "demo3 = demo2\<lparr>scenes := [\<lparr>address = demo_addr, content = []\<rparr>, \<lparr>address = demo_addr, content = ''a''\<rparr>],
     index := 1, hasUndo := True\<rparr>"

lemma demo_saves: "save demo_cfg True (initial [] demo_addr) = Inr demo1" "save demo_cfg True demo2 = Inr demo3"
  by (simp_all add: save_def getScene_def demo_html demo1_def demo2_def demo3_def initial_def update_def
      clearKey_def maxUndoCount_def demo_cfg_def [THEN arg_cong, of optUndoCount] Let_def nth_opt_def)

lemma demo_reachable: "reachable demo_cfg demo1" "reachable demo_cfg demo2" "reachable demo_cfg demo3"
proof -
  show 1: "reachable demo_cfg demo1" using reachable.start reachable.step ustep.save demo_saves(1) by metis
  have "ustep demo_cfg demo1 (demo1\<lparr>body := ''a'', sel := demo_addr\<rparr>)" by (rule ustep.edit)
  moreover have "demo1\<lparr>body := ''a'', sel := demo_addr\<rparr> = demo2" by (simp add: demo2_def demo1_def initial_def)
  ultimately show 2: "reachable demo_cfg demo2" using 1 reachable.step by metis
  show "reachable demo_cfg demo3" using 2 reachable.step ustep.save demo_saves(2) by metis
qed

theorem undo_history_bounded_witness:
  "length (scenes demo3) \<le> maxUndoCount demo_cfg \<and> (scenes demo3 = [] \<or> index demo3 < length (scenes demo3)) \<and>
    (queryCommandState ''undo'' demo3 = 0 \<longleftrightarrow> 0 < index demo3) \<and>
    (queryCommandState ''redo'' demo3 = 0 \<longleftrightarrow> Suc (index demo3) < length (scenes demo3))"
  by (rule undo_history_bounded [OF demo_reachable(3)])

theorem undo_goes_back_witness:
  "\<exists>j s'. undo_target (scenes demo3) (index demo3) j \<and> undo demo_cfg demo3 = Inr s' \<and> index s' = j \<and>
    scenes s' = scenes demo3 \<and> restore_html demo_cfg (content (scenes demo3 ! j)) = Inr (body s')"
  by (rule undo_goes_back [OF demo_reachable(3) _ restore_total]) (simp add: demo3_def)

definition demo4 :: editor where
  "demo4 = demo3\<lparr>body := [], index := 0, hasUndo := False, hasRedo := True\<rparr>"

lemma demo_undo: "undo demo_cfg demo3 = Inr demo4"
proof -
  have "moveToAddress demo_cfg [] demo_addr = Some demo_addr" by (simp add: demo_cfg_def)
  then show ?thesis
    by (simp add: undo_def restore_def demo_html demo4_def demo3_def demo2_def demo1_def initial_def nth_opt_def
        update_def clearKey_def Let_def)
qed

theorem undo_redo_witness:
  "\<exists>s2. redo demo_cfg demo4 = Inr s2 \<and> body s2 = ''a'' \<and> eqc (scenes demo3) (index s2) (index demo3) \<and> scenes s2 = scenes demo3"
  by (rule undo_redo [OF demo_reachable(3) _ demo_undo])
    (simp_all add: demo3_def demo4_def eqc_def demo_html)

theorem save_undo_witness:
  "\<exists>s1 s2. save demo_cfg True demo2 = Inr s1 \<and> undo demo_cfg s1 = Inr s2 \<and> body s2 = []"
  by (rule save_undo [OF demo_reachable(2), of "\<lparr>address = demo_addr, content = ''a''\<rparr>"])
    (simp_all add: demo2_def demo1_def initial_def getScene_def demo_html maxUndoCount_def
      demo_cfg_def [THEN arg_cong, of optUndoCount])

end
