(* ===== verification/NodeSvr.thy ===== *)
theory NodeSvr
  imports Utils
begin

text \<open>
  \<open>appcode/nodeSvr\<close>: the HTTP server that turns POST requests into actions of the chain's
  contracts. A connection goes through phases: its body is read in chunks, parsed at its
  end, the contract is looked up, the action is sent, and the result is the response. What
  the runtime and the libraries do (\<open>url.parse\<close>, \<open>JSON\<close>, the decoding of a chunk, the keys
  of \<open>eosjs-ecc\<close>) is in the parameter \<open>env\<close>; when a promise settles, and with what, is an
  event. Events of all connections come in any order.

  An exception inside an event handler is not caught and ends the process. A promise that is
  rejected has no handler; the runtime logs it and the connection stays open.
\<close>

subsection \<open>Libraries\<close>

record env =
  pathname :: "string \<Rightarrow> string"
  json_parse :: "string \<Rightarrow> jsval option"
  json_stringify :: "jsval \<Rightarrow> string"
  decode :: "string \<Rightarrow> string"
  privateToPublic :: "jsval \<Rightarrow> jsval"

text \<open>Reading a property of a parsed value; \<open>null\<close> throws.\<close>

fun get_prop :: "jsval \<Rightarrow> string \<Rightarrow> jsval res" where
  "get_prop JNull k = Inl TypeError"
| "get_prop JUndef k = Inl TypeError"
| "get_prop (JObj kvs) k = Inr (case obj_get kvs k of Some v \<Rightarrow> v | None \<Rightarrow> JUndef)"
| "get_prop v k = Inr JUndef"

fun get_props :: "jsval \<Rightarrow> string list \<Rightarrow> jsval list res" where
  "get_props v [] = Inr []"
| "get_props v (k # ks) = bind_res (get_prop v k) (\<lambda>x. bind_res (get_props v ks) (\<lambda>xs. Inr (x # xs)))"

subsection \<open>The contracts\<close>

record call =
  contract :: string
  action :: string
  args :: "jsval list"
  authorization :: string

definition trans :: "jsval list \<Rightarrow> call" where
  "trans xs = \<lparr>contract = ''fbstransfer'', action = ''transfer'', args = xs, authorization = ''fbstransfer''\<rparr>"

definition redenvelop_recv :: "jsval list \<Rightarrow> call" where
  "redenvelop_recv xs = \<lparr>contract = ''redenvelope'', action = ''recv'', args = xs, authorization = ''redenvelope''\<rparr>"

definition redenvelop_send :: "jsval list \<Rightarrow> call" where
  "redenvelop_send xs = \<lparr>contract = ''redenvelope'', action = ''send'', args = xs, authorization = ''redenvelope''\<rparr>"

definition egggame_create :: "jsval list \<Rightarrow> call" where
  "egggame_create xs = \<lparr>contract = ''egggame'', action = ''create'', args = xs, authorization = ''egggame''\<rparr>"

definition egggame_bet :: "jsval list \<Rightarrow> call" where
  "egggame_bet xs = \<lparr>contract = ''egggame'', action = ''bet'', args = xs, authorization = ''egggame''\<rparr>"

definition egggame_settlement :: "jsval list \<Rightarrow> call" where
  "egggame_settlement xs = \<lparr>contract = ''egggame'', action = ''settlement'', args = xs, authorization = ''egggame''\<rparr>"

subsection \<open>The handlers of the routes\<close>

datatype handler = ExecTransfer | ExecRedenvelopSend | ExecRedenvelopRecv | ExecEggCreate | ExecEggBet | ExecEggsettlement

definition execTransfer :: "jsval \<Rightarrow> call res" where
  "execTransfer bodyJson = bind_res (get_props bodyJson [''from'', ''fromPK'', ''to'', ''toPK'', ''asset'', ''memo'']) (\<lambda>xs. Inr (trans xs))"

definition execRedenvelopSend :: "jsval \<Rightarrow> call res" where
  "execRedenvelopSend bodyJson =
     bind_res (get_props bodyJson [''user'', ''userPK'', ''asset'', ''num'', ''memo'']) (\<lambda>xs. Inr (redenvelop_send xs))"

definition execRedenvelopRecv :: "jsval \<Rightarrow> call res" where
  "execRedenvelopRecv bodyJson =
     bind_res (get_props bodyJson [''user'', ''userPK'', ''asset'', ''memo'']) (\<lambda>xs. Inr (redenvelop_recv xs))"

definition execEggCreate :: "jsval \<Rightarrow> call res" where
  "execEggCreate bodyJson =
     bind_res (get_props bodyJson [''gameid'', ''creator'', ''category'', ''memo'']) (\<lambda>xs. Inr (egggame_create xs))"

definition execEggBet :: "jsval \<Rightarrow> call res" where
  "execEggBet bodyJson =
     bind_res (get_props bodyJson [''gameid'', ''gamename'', ''user'', ''userPK'', ''quantity'', ''memo'']) (\<lambda>xs. Inr (egggame_bet xs))"

definition execEggsettlement :: "jsval \<Rightarrow> call res" where
  "execEggsettlement bodyJson =
     bind_res (get_props bodyJson [''gameid'', ''gamename'', ''user'', ''userPK'', ''quantity'', ''memo'']) (\<lambda>xs. Inr (egggame_settlement xs))"

fun exec_handler :: "handler \<Rightarrow> jsval \<Rightarrow> call res" where
  "exec_handler ExecTransfer b = execTransfer b"
| "exec_handler ExecRedenvelopSend b = execRedenvelopSend b"
| "exec_handler ExecRedenvelopRecv b = execRedenvelopRecv b"
| "exec_handler ExecEggCreate b = execEggCreate b"
| "exec_handler ExecEggBet b = execEggBet b"
| "exec_handler ExecEggsettlement b = execEggsettlement b"

text \<open>
  The phase of a connection. \<open>Silent\<close> is a connection whose request was not handled, or whose
  promise was rejected: nothing is left that could answer it.
\<close>

datatype phase = Reading handler string | AwaitContract call | AwaitResult call | AwaitKey | Answered | Silent

text \<open>\<open>case ''||'/'\<close> is the case of the value \<open>'/'\<close>.\<close>

definition route :: "string \<Rightarrow> phase" where
  "route path =
     (if path = ''/'' then Silent
      else if path = ''/fbstransfer'' then Reading ExecTransfer []
      else if path = ''/redenvelope/send'' then Reading ExecRedenvelopSend []
      else if path = ''/redenvelope/recv'' then Reading ExecRedenvelopRecv []
      else if path = ''/egggame/create'' then Reading ExecEggCreate []
      else if path = ''/egggame/bet'' then Reading ExecEggBet []
      else if path = ''/egggame/settlement'' then Reading ExecEggsettlement []
      else if path = ''/createkey'' then AwaitKey
      else Silent)"

definition onRequest :: "env \<Rightarrow> string \<Rightarrow> string \<Rightarrow> phase" where
  "onRequest e meth url = (if meth \<noteq> ''POST'' then Silent else route (pathname e url))"

definition key_body :: "env \<Rightarrow> jsval \<Rightarrow> jsval" where
  "key_body e privateKey =
     JObj [(''Private Key'', privateKey), (''Public Key'', privateToPublic e privateKey)]"

subsection \<open>The process\<close>

datatype event =
    Request string string      \<comment> \<open>method and url\<close>
  | Data string
  | End
  | ContractFound
  | Result jsval
  | KeyMade jsval
  | Rejected

text \<open>
  One event at one connection: its new phase, what is written to it (\<open>res.end\<close>), and whether
  the handler threw. An event that the phase does not wait for changes nothing.
\<close>

fun conn_step :: "env \<Rightarrow> event \<Rightarrow> phase option \<Rightarrow> phase option \<times> string list \<times> bool" where
  "conn_step e (Request meth url) None = (Some (onRequest e meth url), [], False)"
| "conn_step e (Data chunk) (Some (Reading h body)) = (Some (Reading h (body @ decode e chunk)), [], False)"
| "conn_step e End (Some (Reading h body)) =
     (case json_parse e body of
        None \<Rightarrow> (Some (Reading h body), [], True)
      | Some v \<Rightarrow> (case exec_handler h v of
            Inl err \<Rightarrow> (Some (Reading h body), [], True)
          | Inr cl \<Rightarrow> (Some (AwaitContract cl), [], False)))"
| "conn_step e ContractFound (Some (AwaitContract cl)) = (Some (AwaitResult cl), [], False)"
| "conn_step e (Result v) (Some (AwaitResult cl)) = (Some Answered, [json_stringify e v], False)"
| "conn_step e (KeyMade k) (Some AwaitKey) = (Some Answered, [json_stringify e (key_body e k)], False)"
| "conn_step e Rejected (Some (AwaitContract cl)) = (Some Silent, [], False)"
| "conn_step e Rejected (Some (AwaitResult cl)) = (Some Silent, [], False)"
| "conn_step e Rejected (Some AwaitKey) = (Some Silent, [], False)"
| "conn_step e ev ph = (ph, [], False)"

record server =
  alive :: bool
  conns :: "nat \<Rightarrow> phase option"
  responses :: "nat \<Rightarrow> string list"

definition start :: server where
  "start = \<lparr>alive = True, conns = (\<lambda>c. None), responses = (\<lambda>c. [])\<rparr>"

definition handle :: "env \<Rightarrow> server \<Rightarrow> nat \<times> event \<Rightarrow> server" where
  "handle e s cev = (case cev of (c, ev) \<Rightarrow>
     if \<not> alive s then s
     else (case conn_step e ev (conns s c) of (ph, out, crash) \<Rightarrow>
       s\<lparr>alive := \<not> crash, conns := (conns s)(c := ph), responses := (responses s)(c := responses s c @ out)\<rparr>))"

definition run :: "env \<Rightarrow> (nat \<times> event) list \<Rightarrow> server" where
  "run e evs = foldl (handle e) start evs"

subsection \<open>Isolation\<close>

text \<open>
  What it takes for the parts of a system to be independent: an event changes the part it
  belongs to by a function of that part alone, whether it fails depends on that part alone,
  and a failed system stays failed.
\<close>

locale isolated =
  fixes step :: "'s \<Rightarrow> 'e \<Rightarrow> 's" and part :: "'e \<Rightarrow> 'c" and view :: "'c \<Rightarrow> 's \<Rightarrow> 'v"
    and act :: "'e \<Rightarrow> 'v \<Rightarrow> 'v" and fails :: "'e \<Rightarrow> 'v \<Rightarrow> bool" and ok :: "'s \<Rightarrow> bool"
  assumes view_step: "ok s \<Longrightarrow> view c (step s e) = (if part e = c then act e (view c s) else view c s)"
    and ok_step: "ok (step s e) \<longleftrightarrow> ok s \<and> \<not> fails e (view (part e) s)"
begin

lemma ok_steps: "ok (foldl step s es) \<Longrightarrow> ok s"
proof (induction es arbitrary: s)
  case (Cons e es)
  then have "ok (step s e)" by simp
  then show ?case by (simp add: ok_step)
qed simp

lemma view_steps:
  "ok (foldl step s es) \<Longrightarrow> view c (foldl step s es) = foldl (\<lambda>v e. act e v) (view c s) (filter (\<lambda>e. part e = c) es)"
proof (induction es arbitrary: s)
  case (Cons e es)
  then have "ok (step s e)" using ok_steps by auto
  then show ?case using Cons by (simp add: view_step ok_step)
qed simp

lemma ok_own: "ok (foldl step s es) \<Longrightarrow> ok (foldl step s (filter (\<lambda>e. part e = c) es))"
proof (induction es rule: rev_induct)
  case (snoc e es)
  then have ok: "ok (foldl step s es)" by (simp add: ok_step)
  then have "view c (foldl step s (filter (\<lambda>e. part e = c) es)) = view c (foldl step s es)"
    using snoc.IH view_steps by simp
  with snoc ok show ?case by (auto simp: ok_step)
qed simp

lemma view_own:
  "ok (foldl step s es) \<Longrightarrow> view c (foldl step s es) = view c (foldl step s (filter (\<lambda>e. part e = c) es))"
  using ok_own view_steps by simp

lemma fails_stops:
  assumes "fails e (view (part e) s)"
  shows "\<not> ok (foldl step s (e # es))"
  using assms ok_steps [of "step s e" es] ok_step by auto

end

definition conn_view :: "nat \<Rightarrow> server \<Rightarrow> phase option \<times> string list" where
  "conn_view c s = (conns s c, responses s c)"

definition conn_act :: "env \<Rightarrow> nat \<times> event \<Rightarrow> phase option \<times> string list \<Rightarrow> phase option \<times> string list" where
  "conn_act e cev v = (case conn_step e (snd cev) (fst v) of (ph, out, crash) \<Rightarrow> (ph, snd v @ out))"

definition conn_fails :: "env \<Rightarrow> nat \<times> event \<Rightarrow> phase option \<times> string list \<Rightarrow> bool" where
  "conn_fails e cev v = (case conn_step e (snd cev) (fst v) of (ph, out, crash) \<Rightarrow> crash)"

interpretation sv: isolated "handle e" fst conn_view "conn_act e" "conn_fails e" alive
  by unfold_locales (auto simp: handle_def conn_view_def conn_act_def conn_fails_def split: prod.splits)

subsection \<open>Invariant\<close>

text \<open>A connection is answered at most once, and exactly when its phase says so.\<close>

definition answered_once :: "phase option \<times> string list \<Rightarrow> bool" where
  "answered_once v \<longleftrightarrow> (if fst v = Some Answered then length (snd v) = 1 else snd v = [])"

lemma conn_act_answered: "answered_once v \<Longrightarrow> answered_once (conn_act e cev v)"
proof -
  obtain c ev where cev: "cev = (c, ev)" by (cases cev)
  obtain ph out where v: "v = (ph, out)" by (cases v)
  show "answered_once v \<Longrightarrow> answered_once (conn_act e cev v)"
    unfolding cev v conn_act_def answered_once_def fst_conv snd_conv
    by (cases "(e, ev, ph)" rule: conn_step.cases)
      (auto simp: onRequest_def route_def split: option.splits sum.splits)
qed


lemma start_answered: "answered_once (conn_view c start)"
  by (simp add: answered_once_def conn_view_def start_def)

lemma answered_fold: "answered_once v \<Longrightarrow> answered_once (foldl (\<lambda>v ev. conn_act e ev v) v evs)"
  by (induction evs arbitrary: v) (auto simp: conn_act_answered)

lemma handle_answered:
  assumes "\<And>c. answered_once (conn_view c s)"
  shows "answered_once (conn_view c (handle e s cev))"
proof (cases "alive s")
  case True
  then show ?thesis using assms by (simp add: sv.view_step conn_act_answered)
qed (simp add: handle_def assms split: prod.splits)

lemma handle_dead: "\<not> alive s \<Longrightarrow> foldl (handle e) s evs = s"
proof (induction evs)
  case (Cons ev evs)
  then have "handle e s ev = s" by (simp add: handle_def split: prod.splits)
  with Cons show ?case by simp
qed simp

lemma run_answered: "answered_once (conn_view c (run e evs))"
proof -
  have "(\<forall>c. answered_once (conn_view c s)) \<Longrightarrow> \<forall>c. answered_once (conn_view c (foldl (handle e) s evs))" for s
    by (induction evs arbitrary: s) (auto intro: handle_answered)
  then show ?thesis using start_answered by (simp add: run_def)
qed

subsection \<open>Bodies\<close>

lemma reading_chunks:
  "foldl (\<lambda>v ev. conn_act e ev v) (Some (Reading h body), out) (map (\<lambda>x. (c, Data x)) chunks) =
   (Some (Reading h (body @ concat (map (decode e) chunks))), out)"
  by (induction chunks arbitrary: body) (auto simp: conn_act_def)

lemma silent_stays: "foldl (\<lambda>v ev. conn_act e ev v) (Some Silent, out) evs = (Some Silent, out)"
proof (induction evs)
  case (Cons ev evs)
  have "conn_step e x (Some Silent) = (Some Silent, [], False)" for x by (cases x) auto
  with Cons show ?case by (simp add: conn_act_def)
qed simp

lemma get_props_obj:
  "get_props (JObj kvs) ks = Inr (map (\<lambda>k. case obj_get kvs k of Some v \<Rightarrow> v | None \<Rightarrow> JUndef) ks)"
  by (induction ks) auto

lemma get_props_null: "ks \<noteq> [] \<Longrightarrow> get_props JNull ks = Inl TypeError"
  by (cases ks) auto

lemma exec_handler_null: "exec_handler h JNull = Inl TypeError"
  by (cases h) (simp_all add: execTransfer_def execRedenvelopSend_def execRedenvelopRecv_def
      execEggCreate_def execEggBet_def execEggsettlement_def)

lemma exec_handler_obj: "\<exists>cl. exec_handler h (JObj kvs) = Inr cl"
  by (cases h) (simp_all add: execTransfer_def execRedenvelopSend_def execRedenvelopRecv_def
      execEggCreate_def execEggBet_def execEggsettlement_def)

text \<open>A concrete environment and a run of three connections.\<close>

definition demo_env :: env where
  "demo_env = \<lparr>pathname = (\<lambda>u. u),
     json_parse = (\<lambda>b. if b = ''{}'' then Some (JObj []) else if b = ''null'' then Some JNull else None),
     json_stringify = (\<lambda>v. ''done''), decode = (\<lambda>x. x), privateToPublic = (\<lambda>k. k)\<rparr>"

definition demo_evs :: "(nat \<times> event) list" where
  "demo_evs = [(0, Request ''POST'' ''/fbstransfer''), (1, Request ''POST'' ''/egggame/bet''), (0, Data ''{''),
     (2, Request ''GET'' ''/createkey''), (0, Data ''}''), (1, Data ''nu''), (0, End), (0, ContractFound),
     (2, KeyMade JNull), (0, Result (JStr ''ok''))]"

lemma demo_run: "alive (run demo_env demo_evs)" "conns (run demo_env demo_evs) 1 = Some (Reading ExecEggBet ''nu'')"
  by (simp_all add: demo_evs_def demo_env_def run_def start_def handle_def onRequest_def route_def execTransfer_def get_props_obj)

subsection \<open>Properties\<close>

text \<open>C21. After any sequence of events a connection has been answered at most once, and it has
  been answered exactly when its phase is the final one: \<open>res.end\<close> is never called twice, however
  the events of several connections interleave and whether or not the process has crashed.\<close>

theorem answered_at_most_once:
  "length (responses (run e evs) c) = (if conns (run e evs) c = Some Answered then 1 else 0)"
  using run_answered [of c e evs] by (simp add: answered_once_def conn_view_def split: if_splits)



text \<open>C36. A request whose body is not JSON, or is \<open>null\<close>, ends the process: \<open>JSON.parse\<close> or the
  first property access throws in the event handler, and from then on no connection, old or new, is
  sent anything.\<close>

theorem bad_body_stops_server:
  assumes "alive (run e evs)" and "conns (run e evs) c = Some (Reading h body)"
    and "json_parse e body = None \<or> json_parse e body = Some JNull"
  shows "\<not> alive (run e (evs @ (c, End) # later)) \<and>
    responses (run e (evs @ (c, End) # later)) = responses (run e evs)"
proof -
  have st: "conn_step e End (Some (Reading h body)) = (Some (Reading h body), [], True)"
    using assms(3) by (auto simp: exec_handler_null)
  then have "\<not> alive (handle e (run e evs) (c, End)) \<and>
      responses (handle e (run e evs) (c, End)) = responses (run e evs)"
    using assms(1,2) by (simp add: handle_def)
  then show ?thesis using handle_dead by (simp add: run_def)
qed

theorem bad_body_stops_server_witness:
  "\<not> alive (run demo_env (demo_evs @ (1, End) # [(0, Rejected)]))"
proof -
  have "json_parse demo_env ''nu'' = None" by (simp add: demo_env_def)
  then show ?thesis
    using bad_body_stops_server [of demo_env demo_evs 1 ExecEggBet "''nu''" "[(0, Rejected)]"] demo_run by simp
qed

text \<open>A request that is not a POST, or goes to the root or to a path without a case, is never
  answered: the connection is left open without a response, whatever happens later.\<close>

theorem unknown_request_never_answered:
  assumes "meth \<noteq> ''POST'' \<or> route (pathname e url) = Silent"
    and "filter (\<lambda>ev. fst ev = c) evs = (c, Request meth url) # later"
    and "alive (run e evs)"
  shows "responses (run e evs) c = []"
proof -
  have "conn_view c (run e evs) = foldl (\<lambda>v ev. conn_act e ev v) (Some Silent, []) later"
    using assms sv.view_steps [of e start evs c]
    by (auto simp: run_def conn_view_def start_def conn_act_def onRequest_def)
  then show ?thesis by (simp add: silent_stays conn_view_def)
qed

theorem unknown_request_never_answered_witness: "responses (run demo_env demo_evs) 2 = []"
  by (rule unknown_request_never_answered [where meth = "''GET''" and url = "''/createkey''" and later = "[(2, KeyMade JNull)]"])
    (simp_all only: demo_run, simp_all add: demo_evs_def)




end
