(* ===== verification/UETable.thy ===== *)
theory UETable
  imports HtmlParser
begin

text \<open>
  \<open>plugins/table.core.js\<close>: the class \<open>UETable\<close>. It keeps, beside the table of the document,
  an index that says for every grid position which cell covers it, and it edits the document
  through that index. This theory holds the document side of a table (rows of cells with
  their spans, classes, attributes, inline style and content), the object's fields, the
  helpers on one cell, the construction of the index (\<open>update\<close>) and the navigation on it.
  The editing operations are in the theory \<open>TableOps\<close>.

  A cell is named by a number, so that comparing and moving cells is as in the document. The
  rows form one section and cells hold no table of their own. What the browser computes
  (sizes and positions) is in the parameter \<open>layout\<close>.
\<close>

subsection \<open>The document\<close>

datatype cnode = CText string | CElem string "cnode list"

record tcell =
  cid :: nat
  ctag :: string
  rowSpan :: nat
  colSpan :: nat
  className :: string
  cattrs :: "string jsobj"
  cstyle :: "string jsobj"
  childNodes :: "cnode list"

record trow =
  rcells :: "tcell list"
  rclass :: string

record info =
  rowIndex :: nat
  cellIndex :: nat
  colIndex :: nat
  irowSpan :: nat
  icolSpan :: nat

record range =
  beginRowIndex :: nat
  beginColIndex :: nat
  endRowIndex :: nat
  endColIndex :: nat

text \<open>
  The fields of the object with its table. \<open>selectedTds\<close> is \<open>None\<close> for \<open>null\<close>, \<open>cellsRange\<close> is
  \<open>None\<close> for the empty object, and \<open>fresh\<close> is the number of the next element to be created.
\<close>

record uetable =
  rows :: "trow list"
  tattrs :: "string jsobj"
  indexTable :: "info option list list"
  rowsNum :: nat
  colsNum :: nat
  selectedTds :: "nat list option"
  cellsRange :: "range option"
  fresh :: nat

record layout =
  ie :: bool
  ie6 :: bool
  tableOffsetWidth :: "uetable \<Rightarrow> int"
  tableWidth :: "uetable \<Rightarrow> int"
  bodyOffsetWidth :: "uetable \<Rightarrow> int"
  cellX :: "uetable \<Rightarrow> nat \<Rightarrow> int"
  cellY :: "uetable \<Rightarrow> nat \<Rightarrow> int"
  cellOffsetWidth :: "uetable \<Rightarrow> nat \<Rightarrow> int"
  cellOffsetHeight :: "uetable \<Rightarrow> nat \<Rightarrow> int"

definition new_cell :: "nat \<Rightarrow> string \<Rightarrow> tcell" where
  "new_cell n tag = \<lparr>cid = n, ctag = tag, rowSpan = 1, colSpan = 1, className = [], cattrs = [],
     cstyle = [], childNodes = []\<rparr>"

definition new_row :: trow where
  "new_row = \<lparr>rcells = [], rclass = []\<rparr>"

text \<open>\<open>x || 1\<close> on a span.\<close>

definition or1 :: "nat \<Rightarrow> nat" where
  "or1 n = (if n = 0 then 1 else n)"

definition all_cells :: "uetable \<Rightarrow> tcell list" where
  "all_cells t = concat (map rcells (rows t))"

text \<open>Position of a cell: \<open>cell.parentNode.rowIndex\<close> and \<open>cell.cellIndex\<close>.\<close>

fun pos_in :: "nat \<Rightarrow> nat \<Rightarrow> trow list \<Rightarrow> (nat \<times> nat) option" where
  "pos_in c i [] = None"
| "pos_in c i (r # rs) =
     (case index_of c (map cid (rcells r)) of Some j \<Rightarrow> Some (i, j) | None \<Rightarrow> pos_in c (Suc i) rs)"

definition pos_of :: "uetable \<Rightarrow> nat \<Rightarrow> (nat \<times> nat) option" where
  "pos_of t c = pos_in c 0 (rows t)"

definition the_cell :: "uetable \<Rightarrow> nat \<Rightarrow> tcell res" where
  "the_cell t c = (case find (\<lambda>x. cid x = c) (all_cells t) of Some x \<Rightarrow> Inr x | None \<Rightarrow> Inl TypeError)"

definition upd_cell :: "nat \<Rightarrow> (tcell \<Rightarrow> tcell) \<Rightarrow> uetable \<Rightarrow> uetable" where
  "upd_cell c f t = t\<lparr>rows := map (\<lambda>r. r\<lparr>rcells := map (\<lambda>x. if cid x = c then f x else x) (rcells r)\<rparr>) (rows t)\<rparr>"

definition upd_row :: "nat \<Rightarrow> (tcell list \<Rightarrow> tcell list) \<Rightarrow> uetable \<Rightarrow> uetable" where
  "upd_row i f t = (case nth_opt (rows t) i of
     None \<Rightarrow> t | Some r \<Rightarrow> t\<lparr>rows := (rows t)[i := r\<lparr>rcells := f (rcells r)\<rparr>]\<rparr>)"

definition remove_cell :: "nat \<Rightarrow> uetable \<Rightarrow> uetable" where
  "remove_cell c t = t\<lparr>rows := map (\<lambda>r. r\<lparr>rcells := filter (\<lambda>x. cid x \<noteq> c) (rcells r)\<rparr>) (rows t)\<rparr>"

definition row_at :: "uetable \<Rightarrow> nat \<Rightarrow> trow res" where
  "row_at t i = (case nth_opt (rows t) i of Some r \<Rightarrow> Inr r | None \<Rightarrow> Inl TypeError)"

definition tds :: "uetable \<Rightarrow> nat list" where
  "tds t = map cid (filter (\<lambda>x. ctag x = ''TD'') (all_cells t))"

subsection \<open>Attributes and classes\<close>

text \<open>\<open>setAttribute\<close> turns a missing value into the text \<open>null\<close>; names are folded to lower case.\<close>

definition set_attr :: "string \<Rightarrow> string option \<Rightarrow> tcell \<Rightarrow> tcell" where
  "set_attr k v x = x\<lparr>cattrs := obj_set (toLowerCase k) (case v of Some s \<Rightarrow> s | None \<Rightarrow> ''null'') (cattrs x)\<rparr>"

definition get_attr :: "string \<Rightarrow> tcell \<Rightarrow> string option" where
  "get_attr k x = obj_get (cattrs x) (toLowerCase k)"

definition del_attr :: "string \<Rightarrow> tcell \<Rightarrow> tcell" where
  "del_attr k x = x\<lparr>cattrs := obj_del (toLowerCase k) (cattrs x)\<rparr>"

definition get_style :: "string \<Rightarrow> tcell \<Rightarrow> string" where
  "get_style k x = (case obj_get (cstyle x) k of Some v \<Rightarrow> v | None \<Rightarrow> [])"

definition set_style :: "string \<Rightarrow> string \<Rightarrow> tcell \<Rightarrow> tcell" where
  "set_style k v x = x\<lparr>cstyle := (if v = [] then obj_del k (cstyle x) else obj_set k v (cstyle x))\<rparr>"

definition class_words :: "string \<Rightarrow> string list" where
  "class_words s = split_on CHR '' '' (replace (Seq (chr CHR '' '') (some (chr CHR '' ''))) (\<lambda>_ _. '' '') (trim s))"

fun remove_words :: "string list \<Rightarrow> string \<Rightarrow> string" where
  "remove_words [] cl = cl"
| "remove_words (ci # wds) cl =
     (if ci = [] then cl else remove_words wds (replace_first (seqs [Wb, lit ci, Wb]) (\<lambda>_ _. []) cl))"

definition removeClasses :: "string \<Rightarrow> string \<Rightarrow> string" where
  "removeClasses classNames cl =
     replace (Seq (chr CHR '' '') (some (chr CHR '' ''))) (\<lambda>_ _. '' '') (trim (remove_words (class_words classNames) cl))"

fun add_words :: "string list \<Rightarrow> string \<Rightarrow> string" where
  "add_words [] cl = cl"
| "add_words (ci # wds) cl =
     (if ci = [] then cl
      else add_words wds (if test (seqs [Wb, lit ci, Wb]) cl then cl else cl @ '' '' @ ci))"

definition addClass :: "string \<Rightarrow> string \<Rightarrow> string" where
  "addClass classNames cl = trim (add_words (class_words classNames) cl)"

fun has_words :: "string list \<Rightarrow> string \<Rightarrow> bool" where
  "has_words [] cl = True"
| "has_words (ci # wds) cl = (ci \<noteq> [] \<and> test (seqs [Wb, lit_i ci, Wb]) cl \<and> has_words wds cl)"

text \<open>\<open>i - 1 == className.length\<close> holds when the loop has seen every word.\<close>

definition hasClass :: "string \<Rightarrow> string \<Rightarrow> bool" where
  "hasClass classNames cl = has_words (class_words classNames) cl"

definition selectTdClass :: string where
  "selectTdClass = ''selectTdClass''"

definition removeSelectedClass :: "nat list \<Rightarrow> uetable \<Rightarrow> uetable" where
  "removeSelectedClass cells t =
     fold (\<lambda>c. upd_cell c (\<lambda>x. x\<lparr>className := removeClasses selectTdClass (className x)\<rparr>)) cells t"

definition addSelectedClass :: "nat list \<Rightarrow> uetable \<Rightarrow> uetable" where
  "addSelectedClass cells t =
     fold (\<lambda>c. upd_cell c (\<lambda>x. x\<lparr>className := addClass selectTdClass (className x)\<rparr>)) cells t"

subsection \<open>Content\<close>

fun textContent :: "cnode \<Rightarrow> string" where
  "textContent (CText s) = s"
| "textContent (CElem tag ns) = concat (map textContent ns)"

fun has_tag :: "string \<Rightarrow> cnode \<Rightarrow> bool" where
  "has_tag i (CText s) = False"
| "has_tag i (CElem tag ns) = (toLowerCase tag = toLowerCase i \<or> list_ex (has_tag i) ns)"

definition isEmptyBlock :: "layout \<Rightarrow> tcell \<Rightarrow> bool" where
  "isEmptyBlock ly node =
     (let s = replace_first (seqs [Bol, many ws, Eol]) (\<lambda>_ _. []) (concat (map textContent (childNodes node)));
          s = replace (lit (domUtils_fillChar (ie6 ly))) (\<lambda>_ _. []) s
      in s = [] \<and> \<not> list_ex (\<lambda>i. list_ex (has_tag i) (childNodes node)) (obj_keys dtd_c_isNotEmpty))"

definition setCellContent :: "layout \<Rightarrow> tcell \<Rightarrow> tcell" where
  "setCellContent ly x =
     x\<lparr>childNodes := [if ie ly then CText (domUtils_fillChar (ie6 ly)) else CElem ''BR'' []]\<rparr>"

definition moveContent :: "layout \<Rightarrow> nat \<Rightarrow> nat \<Rightarrow> uetable \<Rightarrow> uetable res" where
  "moveContent ly cellTo cellFrom t =
     bind_res (the_cell t cellFrom) (\<lambda>from.
     if isEmptyBlock ly from then Inr t
     else bind_res (the_cell t cellTo) (\<lambda>to.
       if isEmptyBlock ly to then Inr (upd_cell cellTo (\<lambda>x. x\<lparr>childNodes := childNodes from\<rparr>) t)
       else (case rev (childNodes to) of
          [] \<Rightarrow> Inl TypeError
        | child # _ \<Rightarrow>
            let br = (case child of CText _ \<Rightarrow> [CElem ''BR'' []]
              | CElem tag _ \<Rightarrow> if in_table (obj_keys dtd_block) tag then [] else [CElem ''BR'' []])
            in Inr (upd_cell cellFrom (\<lambda>x. x\<lparr>childNodes := []\<rparr>)
                 (upd_cell cellTo (\<lambda>x. x\<lparr>childNodes := childNodes x @ br @ childNodes from\<rparr>) t)))))"

datatype source = NoSource | SourceTag string | SourceCell nat

text \<open>The copy of a cell, detached, with the table in which the selection mark of the original was
  taken off and put on again.\<close>

definition cloneCell :: "source \<Rightarrow> bool \<Rightarrow> bool \<Rightarrow> uetable \<Rightarrow> (uetable \<times> tcell) res" where
  "cloneCell src ignoreMerge keepPro t = (case src of
     NoSource \<Rightarrow> Inr (t\<lparr>fresh := Suc (fresh t)\<rparr>, new_cell (fresh t) ''TD'')
   | SourceTag tag \<Rightarrow>
       Inr (t\<lparr>fresh := Suc (fresh t)\<rparr>, new_cell (fresh t) (if tag = [] then ''TD'' else toUpperCase tag))
   | SourceCell c \<Rightarrow> bind_res (the_cell t c) (\<lambda>cell.
       let flag = hasClass selectTdClass (className cell);
           bare = (if flag then removeClasses selectTdClass (className cell) else className cell);
           tmp = cell\<lparr>cid := fresh t, className := bare\<rparr>;
           tmp = (if ignoreMerge then tmp\<lparr>rowSpan := 1, colSpan := 1\<rparr> else tmp);
           tmp = (if keepPro then tmp else (del_attr ''height'' (del_attr ''width'' tmp))\<lparr>cstyle := []\<rparr>);
           tmp = set_style ''border-left-style'' [] tmp;
           tmp = set_style ''border-top-style'' [] tmp;
           tmp = set_style ''border-left-color'' (get_style ''border-right-color'' cell) tmp;
           tmp = set_style ''border-left-width'' (get_style ''border-right-width'' cell) tmp;
           tmp = set_style ''border-top-color'' (get_style ''border-bottom-color'' cell) tmp;
           tmp = set_style ''border-top-width'' (get_style ''border-bottom-width'' cell) tmp
       in Inr (upd_cell c (\<lambda>x. x\<lparr>className := (if flag then addClass selectTdClass bare else bare)\<rparr>)
                (t\<lparr>fresh := Suc (fresh t)\<rparr>), tmp)))"

subsection \<open>Static helpers\<close>

text \<open>\<open>getTableCellAlignState\<close>: for each cell the two attributes are compared with what was found
  before; the inner loop stops at the first difference, the outer one after that cell.\<close>

fun align_cell :: "string list \<Rightarrow> tcell \<Rightarrow> string jsobj \<Rightarrow> string jsobj \<times> bool" where
  "align_cell [] cell result = (result, True)"
| "align_cell (st # sts) cell result =
     (let tmp = (case get_attr st cell of Some v \<Rightarrow> v | None \<Rightarrow> []) in
      case obj_get result st of
        None \<Rightarrow> if tmp \<noteq> [] then align_cell sts cell (obj_set st tmp result) else (result, False)
      | Some v \<Rightarrow> if tmp = v then align_cell sts cell result else (result, False))"

fun align_cells :: "tcell list \<Rightarrow> string jsobj \<Rightarrow> string jsobj option" where
  "align_cells [] result = Some result"
| "align_cells (c # cs) result =
     (case align_cell [''align'', ''valign''] c result of
        (r, True) \<Rightarrow> align_cells cs r
      | (r, False) \<Rightarrow> None)"

definition getTableCellAlignState :: "tcell list \<Rightarrow> string jsobj option" where
  "getTableCellAlignState cells = align_cells cells []"

text \<open>\<open>getDefaultValue\<close> on the computed styles of the table and of its first cell.\<close>

definition borderMap :: "string \<Rightarrow> string" where
  "borderMap v = (if v = ''thin'' then ''0px'' else if v = ''medium'' then ''1px''
     else if v = ''thick'' then ''2px'' else v)"

definition parseInt :: "string \<Rightarrow> int option" where
  "parseInt s = map_option int (parse_digits (takeWhile is_digit s))"

record default_value = tableBorder :: "int option" tdPadding :: "int option" tdBorder :: "int option"

definition getDefaultValue :: "string \<Rightarrow> string \<Rightarrow> string \<Rightarrow> default_value" where
  "getDefaultValue tableBorderLeft tdPaddingLeft tdBorderLeft =
     \<lparr>tableBorder = parseInt (borderMap tableBorderLeft), tdPadding = parseInt (borderMap tdPaddingLeft),
      tdBorder = parseInt (borderMap tdBorderLeft)\<rparr>"

subsection \<open>Size of the grid\<close>

fun getMaxRows_from :: "nat \<Rightarrow> trow list \<Rightarrow> nat \<Rightarrow> nat" where
  "getMaxRows_from i [] maxLen = maxLen"
| "getMaxRows_from i (r # rs) maxLen =
     getMaxRows_from (Suc i) rs (max (fold (\<lambda>cj m. max (or1 (rowSpan cj)) m) (rcells r) 1 + i) maxLen)"

definition getMaxRows :: "uetable \<Rightarrow> nat" where
  "getMaxRows t = getMaxRows_from 0 (rows t) 1"

text \<open>
  \<open>cellRows\<close> counts for a row the columns that cells from above take; the first such cell adds
  its \<open>colSpan\<close>, every later one adds one.
\<close>

definition add_cellRows :: "nat \<Rightarrow> tcell \<Rightarrow> (nat \<Rightarrow> nat) \<Rightarrow> nat \<Rightarrow> nat" where
  "add_cellRows i cj cellRows =
     fold (\<lambda>k m. m(i + k := (if m (i + k) = 0 then or1 (colSpan cj) else Suc (m (i + k))))) [1..<rowSpan cj] cellRows"

fun getMaxCols_from :: "nat \<Rightarrow> trow list \<Rightarrow> (nat \<Rightarrow> nat) \<Rightarrow> nat \<Rightarrow> nat" where
  "getMaxCols_from i [] cellRows maxLen = maxLen"
| "getMaxCols_from i (r # rs) cellRows maxLen =
     (let cellsNum = sum_list (map (\<lambda>cj. or1 (colSpan cj)) (rcells r));
          cellRows = fold (add_cellRows i) (rcells r) cellRows
      in getMaxCols_from (Suc i) rs cellRows (max (cellsNum + cellRows i) maxLen))"

definition getMaxCols :: "uetable \<Rightarrow> nat" where
  "getMaxCols t = getMaxCols_from 0 (rows t) (\<lambda>_. 0) 0"

subsection \<open>Reading the index\<close>

definition idx :: "uetable \<Rightarrow> nat \<Rightarrow> nat \<Rightarrow> info res" where
  "idx t i j = (case nth_opt (indexTable t) i of
     None \<Rightarrow> Inl TypeError
   | Some r \<Rightarrow> (case nth_opt r j of Some (Some x) \<Rightarrow> Inr x | _ \<Rightarrow> Inl TypeError))"

fun getCellInfo_loop :: "uetable \<Rightarrow> nat \<Rightarrow> nat \<Rightarrow> nat list \<Rightarrow> info option res" where
  "getCellInfo_loop t ri ci [] = Inr None"
| "getCellInfo_loop t ri ci (col # cols) =
     bind_res (idx t ri col) (\<lambda>x.
       if rowIndex x = ri \<and> cellIndex x = ci then Inr (Some x) else getCellInfo_loop t ri ci cols)"

definition getCellInfo :: "uetable \<Rightarrow> nat option \<Rightarrow> info option res" where
  "getCellInfo t cell = (case cell of
     None \<Rightarrow> Inr None
   | Some c \<Rightarrow> (case pos_of t c of
       None \<Rightarrow> Inl TypeError
     | Some (ri, ci) \<Rightarrow> getCellInfo_loop t ri ci [ci..<colsNum t]))"

text \<open>\<open>getCellInfo(cell).p\<close>: reading a property of \<open>undefined\<close> throws.\<close>

definition cellInfo_of :: "uetable \<Rightarrow> nat option \<Rightarrow> info res" where
  "cellInfo_of t cell = bind_res (getCellInfo t cell) (\<lambda>x. case x of Some y \<Rightarrow> Inr y | None \<Rightarrow> Inl TypeError)"

definition getCell :: "uetable \<Rightarrow> nat \<Rightarrow> nat \<Rightarrow> nat option res" where
  "getCell t ri ci =
     (if ri < rowsNum t
      then bind_res (row_at t ri) (\<lambda>r. Inr (map_option cid (nth_opt (rcells r) ci)))
      else Inr None)"

definition cell_of_info :: "uetable \<Rightarrow> info \<Rightarrow> nat option res" where
  "cell_of_info t x = getCell t (rowIndex x) (cellIndex x)"

definition cell_at :: "uetable \<Rightarrow> nat \<Rightarrow> nat \<Rightarrow> nat option res" where
  "cell_at t i j = bind_res (idx t i j) (cell_of_info t)"

text \<open>A value that is used as an object.\<close>

definition need :: "'a option \<Rightarrow> 'a res" where
  "need x = (case x of Some y \<Rightarrow> Inr y | None \<Rightarrow> Inl TypeError)"

subsection \<open>Building the index\<close>

fun fold_res :: "('a \<Rightarrow> 's \<Rightarrow> 's res) \<Rightarrow> 'a list \<Rightarrow> 's \<Rightarrow> 's res" where
  "fold_res f [] s = Inr s"
| "fold_res f (x # xs) s = bind_res (f x s) (fold_res f xs)"

text \<open>\<open>indexTable[i][k] = x\<close>: the row grows when the position is behind its end.\<close>

definition put_index :: "nat \<Rightarrow> nat \<Rightarrow> info \<Rightarrow> info option list list \<Rightarrow> info option list list res" where
  "put_index i k x it = (case nth_opt it i of
     None \<Rightarrow> Inl TypeError
   | Some r \<Rightarrow> Inr (it[i := (r @ replicate (Suc k - length r) None)[k := Some x]]))"

definition first_free :: "info option list \<Rightarrow> nat \<Rightarrow> nat" where
  "first_free r c = c + length (takeWhile (\<lambda>x. x \<noteq> None) (drop c r))"

definition place :: "info \<Rightarrow> info option list list \<Rightarrow> info option list list res" where
  "place x it =
     fold_res (\<lambda>j. fold_res (\<lambda>k. put_index (rowIndex x + j) (colIndex x + k) x) [0..<icolSpan x]) [0..<irowSpan x] it"

definition fill_cell :: "nat \<Rightarrow> nat \<Rightarrow> nat \<Rightarrow> tcell \<Rightarrow> info option list list \<Rightarrow> info option list list res" where
  "fill_cell rn ri ci cell it = (case nth_opt it ri of
     None \<Rightarrow> Inl TypeError
   | Some r \<Rightarrow> place \<lparr>rowIndex = ri, cellIndex = ci, colIndex = first_free r ci,
       irowSpan = or1 (min rn (rowSpan cell)), icolSpan = or1 (colSpan cell)\<rparr> it)"

fun fill_row :: "nat \<Rightarrow> nat \<Rightarrow> nat \<Rightarrow> tcell list \<Rightarrow> info option list list \<Rightarrow> info option list list res" where
  "fill_row rn ri ci [] it = Inr it"
| "fill_row rn ri ci (c # cs) it = bind_res (fill_cell rn ri ci c it) (fill_row rn ri (Suc ci) cs)"

fun fill_rows :: "nat \<Rightarrow> nat \<Rightarrow> trow list \<Rightarrow> info option list list \<Rightarrow> info option list list res" where
  "fill_rows rn ri [] it = Inr it"
| "fill_rows rn ri (r # rs) it = bind_res (fill_row rn ri 0 (rcells r) it) (fill_rows rn (Suc ri) rs)"

definition clamp :: "nat \<Rightarrow> trow \<Rightarrow> trow" where
  "clamp rn r = r\<lparr>rcells := map (\<lambda>x. x\<lparr>rowSpan := min rn (rowSpan x)\<rparr>) (rcells r)\<rparr>"

text \<open>The repair of a position that no cell covers.\<close>

definition repair :: "layout \<Rightarrow> nat \<times> nat \<Rightarrow> uetable \<Rightarrow> uetable res" where
  "repair ly jk t = (case jk of (j, k) \<Rightarrow>
     (case nth_opt (indexTable t) j of
       None \<Rightarrow> Inl TypeError
     | Some ir \<Rightarrow>
        (case nth_opt ir k of
          Some (Some x) \<Rightarrow> Inr t
        | _ \<Rightarrow> bind_res (row_at t j) (\<lambda>row.
            let cell = (if rcells row = [] then new_cell (fresh t) ''TD'' else (last (rcells row))\<lparr>cid := fresh t\<rparr>);
                cell = (setCellContent ly cell)\<lparr>colSpan := 1, rowSpan := 1\<rparr>;
                t' = upd_row j (\<lambda>cs. cs @ [cell]) (t\<lparr>fresh := Suc (fresh t)\<rparr>)
            in bind_res (put_index j k \<lparr>rowIndex = j, cellIndex = length (rcells row), colIndex = k,
                  irowSpan = 1, icolSpan = 1\<rparr> (indexTable t'))
                 (\<lambda>it. Inr (t'\<lparr>indexTable := it\<rparr>))))))"

definition grid :: "nat \<Rightarrow> nat \<Rightarrow> (nat \<times> nat) list" where
  "grid rn cn = concat (map (\<lambda>j. map (Pair j) [0..<cn]) [0..<rn])"

text \<open>The index part of \<open>update\<close>.\<close>

definition reindex :: "layout \<Rightarrow> uetable \<Rightarrow> uetable res" where
  "reindex ly t =
     (let rn = getMaxRows t; cn = getMaxCols t;
          rs = rows t @ replicate (rn - length (rows t)) new_row;
          t = t\<lparr>rows := map (clamp rn) rs, rowsNum := rn, colsNum := cn, selectedTds := Some [], cellsRange := None\<rparr>
      in bind_res (fill_rows rn 0 rs (replicate rn (replicate cn None))) (\<lambda>it.
           fold_res (repair ly) (grid rn cn) (t\<lparr>indexTable := it\<rparr>)))"

text \<open>The selection that the marked cells describe.\<close>

definition reselect :: "uetable \<Rightarrow> uetable res" where
  "reselect t =
     (let sel = map cid (filter (\<lambda>x. ctag x = ''TD'' \<and> hasClass selectTdClass (className x)) (all_cells t))
      in if sel = [] then Inr t
         else bind_res (cellInfo_of t (Some (hd sel))) (\<lambda>a. bind_res (cellInfo_of t (Some (last sel))) (\<lambda>b.
           Inr (t\<lparr>selectedTds := Some sel,
             cellsRange := Some \<lparr>beginRowIndex = rowIndex a, beginColIndex = colIndex a,
               endRowIndex = rowIndex b + irowSpan b - 1, endColIndex = colIndex b + icolSpan b - 1\<rparr>\<rparr>))))"

definition mark_first_row :: "trow list \<Rightarrow> trow list" where
  "mark_first_row rs = (case rs of
     [] \<Rightarrow> []
   | r # rest \<Rightarrow> if hasClass ''firstRow'' (rclass r) then r # rest
       else r\<lparr>rclass := addClass ''firstRow'' (rclass r)\<rparr> #
            map (\<lambda>x. x\<lparr>rclass := removeClasses ''firstRow'' (rclass x)\<rparr>) rest)"

definition update :: "layout \<Rightarrow> uetable \<Rightarrow> uetable res" where
  "update ly t =
     bind_res (reindex ly t) (\<lambda>t. bind_res (reselect t) (\<lambda>t.
       Inr (t\<lparr>rows := mark_first_row (rows t)\<rparr>)))"

definition new_UETable :: "layout \<Rightarrow> trow list \<Rightarrow> string jsobj \<Rightarrow> nat \<Rightarrow> uetable res" where
  "new_UETable ly rs as n =
     update ly \<lparr>rows = rs, tattrs = as, indexTable = [], rowsNum = 0, colsNum = 0, selectedTds = Some [],
       cellsRange = None, fresh = n\<rparr>"

subsection \<open>What an index says\<close>

definition entry :: "info option list list \<Rightarrow> nat \<Rightarrow> nat \<Rightarrow> info option" where
  "entry it i k = (if i < length it \<and> k < length (it ! i) then it ! i ! k else None)"

definition covers :: "info \<Rightarrow> nat \<Rightarrow> nat \<Rightarrow> bool" where
  "covers x i k \<longleftrightarrow> rowIndex x \<le> i \<and> i < rowIndex x + irowSpan x \<and> colIndex x \<le> k \<and> k < colIndex x + icolSpan x"

definition describes :: "trow list \<Rightarrow> info \<Rightarrow> bool" where
  "describes rs x \<longleftrightarrow> rowIndex x < length rs \<and> cellIndex x < length (rcells (rs ! rowIndex x)) \<and>
     (let c = rcells (rs ! rowIndex x) ! cellIndex x in irowSpan x = or1 (rowSpan c) \<and> icolSpan x = or1 (colSpan c))"

definition sound_index :: "trow list \<Rightarrow> info option list list \<Rightarrow> bool" where
  "sound_index rs it \<longleftrightarrow>
     (\<forall>i k x. entry it i k = Some x \<longrightarrow> covers x i k \<and> describes rs x \<and> entry it (rowIndex x) (colIndex x) \<noteq> None) \<and>
     (\<forall>i k x j l y. entry it i k = Some x \<longrightarrow> entry it j l = Some y \<longrightarrow>
        rowIndex x = rowIndex y \<longrightarrow> colIndex x = colIndex y \<longrightarrow> x = y)"

text \<open>The state that \<open>update\<close> leaves.\<close>

definition indexed :: "uetable \<Rightarrow> bool" where
  "indexed t \<longleftrightarrow> rowsNum t = length (rows t) \<and> length (indexTable t) = rowsNum t \<and> 0 < rowsNum t \<and>
     sound_index (rows t) (indexTable t) \<and> (\<forall>i < rowsNum t. \<forall>k < colsNum t. entry (indexTable t) i k \<noteq> None)"

definition fresh_ids :: "uetable \<Rightarrow> bool" where
  "fresh_ids t \<longleftrightarrow> distinct (map cid (all_cells t)) \<and> (\<forall>c \<in> set (all_cells t). cid c < fresh t)"

lemma or1_pos [simp]: "0 < or1 n" "Suc 0 \<le> or1 n" "n \<le> or1 n"
  by (simp_all add: or1_def)

lemma idx_entry: "idx t i j = (case entry (indexTable t) i j of Some x \<Rightarrow> Inr x | None \<Rightarrow> Inl TypeError)"
  by (auto simp: idx_def entry_def nth_opt_def split: option.splits)

lemma fold_res_invariant:
  assumes "I s" and "\<And>x s. x \<in> set xs \<Longrightarrow> I s \<Longrightarrow> \<exists>s'. f x s = Inr s' \<and> I s'"
  shows "\<exists>s'. fold_res f xs s = Inr s' \<and> I s'"
  using assms
proof (induction xs arbitrary: s)
  case (Cons x xs)
  then obtain s' where s': "f x s = Inr s'" "I s'" by (metis list.set_intros(1))
  then show ?case using Cons.IH [OF s'(2)] Cons.prems(2) by simp
qed simp

lemma put_index_ok:
  assumes "i < length it"
  shows "\<exists>it'. put_index i k x it = Inr it' \<and> length it' = length it \<and>
    (\<forall>i' k'. entry it' i' k' = (if i' = i \<and> k' = k then Some x else entry it i' k'))"
proof -
  let ?r = "(it ! i @ replicate (Suc k - length (it ! i)) None)[k := Some x]"
  have "put_index i k x it = Inr (it[i := ?r])" using assms by (simp add: put_index_def nth_opt_def)
  moreover have "entry (it[i := ?r]) i' k' = (if i' = i \<and> k' = k then Some x else entry it i' k')" for i' k'
    using assms by (auto simp: entry_def nth_list_update nth_append)
  ultimately show ?thesis using assms by auto
qed

lemma fold_res_append: "fold_res f (xs @ ys) s = bind_res (fold_res f xs s) (fold_res f ys)"
proof (induction xs arbitrary: s)
  case (Cons x xs)
  then show ?case by (cases "f x s") simp_all
qed simp

lemma place_row_ok:
  assumes "i < length it"
  shows "\<exists>it'. fold_res (\<lambda>k. put_index i (c + k) x) [0..<n] it = Inr it' \<and> length it' = length it \<and>
    (\<forall>i' k'. entry it' i' k' = (if i' = i \<and> c \<le> k' \<and> k' < c + n then Some x else entry it i' k'))"
proof (induction n)
  case (Suc n)
  then obtain it1 where 1: "fold_res (\<lambda>k. put_index i (c + k) x) [0..<n] it = Inr it1" "length it1 = length it"
    "\<forall>i' k'. entry it1 i' k' = (if i' = i \<and> c \<le> k' \<and> k' < c + n then Some x else entry it i' k')" by blast
  obtain it2 where 2: "put_index i (c + n) x it1 = Inr it2" "length it2 = length it1"
    "\<forall>i' k'. entry it2 i' k' = (if i' = i \<and> k' = c + n then Some x else entry it1 i' k')"
    using put_index_ok [of i it1] 1(2) assms by metis
  have "fold_res (\<lambda>k. put_index i (c + k) x) [0..<Suc n] it = Inr it2" using 1 2 by (simp add: fold_res_append)
  then show ?case using 1 2 by (auto simp: less_Suc_eq)
qed auto

lemma place_rows_ok:
  assumes "r + q \<le> length it"
  shows "\<exists>it'. fold_res (\<lambda>j. fold_res (\<lambda>k. put_index (r + j) (c + k) x) [0..<n]) [0..<q] it = Inr it' \<and>
    length it' = length it \<and>
    (\<forall>i k. entry it' i k = (if r \<le> i \<and> i < r + q \<and> c \<le> k \<and> k < c + n then Some x else entry it i k))"
  using assms
proof (induction q)
  case (Suc q)
  let ?F = "\<lambda>j. fold_res (\<lambda>k. put_index (r + j) (c + k) x) [0..<n]"
  from Suc obtain it1 where 1: "fold_res ?F [0..<q] it = Inr it1" "length it1 = length it"
    "\<forall>i k. entry it1 i k = (if r \<le> i \<and> i < r + q \<and> c \<le> k \<and> k < c + n then Some x else entry it i k)" by auto
  obtain it2 where 2: "?F q it1 = Inr it2" "length it2 = length it1"
    "\<forall>i' k'. entry it2 i' k' = (if i' = r + q \<and> c \<le> k' \<and> k' < c + n then Some x else entry it1 i' k')"
    using place_row_ok [of "r + q" it1] 1(2) Suc.prems by fastforce
  have "fold_res ?F [0..<Suc q] it = Inr it2" using 1 2 by (simp add: fold_res_append)
  then show ?case using 1 2 by (auto simp: less_Suc_eq)
qed auto

lemma place_ok:
  assumes "rowIndex x + irowSpan x \<le> length it"
  shows "\<exists>it'. place x it = Inr it' \<and> length it' = length it \<and>
    (\<forall>i k. entry it' i k = (if covers x i k then Some x else entry it i k))"
  using place_rows_ok [OF assms] unfolding place_def covers_def by blast

subsection \<open>The size computed covers every cell\<close>

lemma fold_max_ge: "(q::nat) \<le> fold (\<lambda>c q. max (f c) q) cs q"
  by (induction cs arbitrary: q) (auto intro: order_trans [OF max.cobounded2])

lemma fold_max_elem: "c \<in> set cs \<Longrightarrow> f c \<le> fold (\<lambda>c q. max (f c) q) cs (q::nat)"
  by (induction cs arbitrary: q) (auto intro: order_trans [OF max.cobounded1 fold_max_ge])

lemma getMaxRows_from_ge: "q \<le> getMaxRows_from i rs q"
  by (induction i rs q rule: getMaxRows_from.induct) (auto intro: order_trans [OF max.cobounded2])

lemma getMaxRows_from_cell:
  "j < length rs \<Longrightarrow> c \<in> set (rcells (rs ! j)) \<Longrightarrow> i + j + or1 (rowSpan c) \<le> getMaxRows_from i rs q"
proof (induction i rs q arbitrary: j rule: getMaxRows_from.induct)
  case (2 i r rs q)
  show ?case
  proof (cases j)
    case 0
    then have "or1 (rowSpan c) + i \<le> max (fold (\<lambda>cj q. max (or1 (rowSpan cj)) q) (rcells r) 1 + i) q"
      using 2 fold_max_elem [of c "rcells r" "\<lambda>c. or1 (rowSpan c)" 1] by (simp add: le_max_iff_disj)
    also have "\<dots> \<le> getMaxRows_from i (r # rs) q" by (simp add: getMaxRows_from_ge)
    finally show ?thesis using 0 by simp
  next
    case (Suc j')
    then show ?thesis using 2(1) [of j'] 2(2,3) by simp
  qed
qed simp

lemma getMaxRows_from_length: "i + length rs \<le> max (getMaxRows_from i rs q) i"
proof (induction i rs q rule: getMaxRows_from.induct)
  case (2 i r rs q)
  have "Suc i \<le> max (fold (\<lambda>cj q. max (or1 (rowSpan cj)) q) (rcells r) 1 + i) q"
    using fold_max_ge [of 1 "\<lambda>c. or1 (rowSpan c)" "rcells r"] by simp
  also have "\<dots> \<le> getMaxRows_from i (r # rs) q" by (simp add: getMaxRows_from_ge)
  finally show ?case using 2 by simp
qed simp

lemma getMaxRows_bounds:
  shows "length (rows t) \<le> getMaxRows t" "0 < getMaxRows t"
    and "j < length (rows t) \<Longrightarrow> c \<in> set (rcells (rows t ! j)) \<Longrightarrow> j + or1 (rowSpan c) \<le> getMaxRows t"
  using getMaxRows_from_length [of 0 "rows t" 1] getMaxRows_from_ge [of 1 0 "rows t"]
    getMaxRows_from_cell [of j "rows t" c 0 1]
  by (simp_all add: getMaxRows_def)

text \<open>So the correction of a row span inside \<open>update\<close> never changes anything.\<close>

lemma clamp_id:
  assumes "\<And>c. c \<in> set (rcells r) \<Longrightarrow> rowSpan c \<le> rn"
  shows "clamp rn r = r"
proof -
  have "map (\<lambda>x. x\<lparr>rowSpan := min rn (rowSpan x)\<rparr>) (rcells r) = rcells r"
    by (rule map_idI) (simp add: assms min_absorb2)
  then show ?thesis by (simp add: clamp_def)
qed

definition padded :: "uetable \<Rightarrow> trow list" where
  "padded t = rows t @ replicate (getMaxRows t - length (rows t)) new_row"

lemma padded_length [simp]: "length (padded t) = getMaxRows t"
  using getMaxRows_bounds(1) [of t] by (simp add: padded_def)

lemma padded_span:
  assumes "j < length (padded t)" "c \<in> set (rcells (padded t ! j))"
  shows "j + or1 (rowSpan c) \<le> getMaxRows t"
  using assms getMaxRows_bounds(3) [of j t c]
  by (auto simp: padded_def nth_append new_row_def split: if_splits)

lemma padded_clamp: "map (clamp (getMaxRows t)) (padded t) = padded t"
proof (rule map_idI)
  fix r assume "r \<in> set (padded t)"
  then obtain j where j: "j < length (padded t)" "r = padded t ! j" by (auto simp: in_set_conv_nth)
  show "clamp (getMaxRows t) r = r"
  proof (rule clamp_id)
    fix c assume "c \<in> set (rcells r)"
    then have "j + or1 (rowSpan c) \<le> getMaxRows t" using padded_span j by blast
    then show "rowSpan c \<le> getMaxRows t" using or1_pos(3) [of "rowSpan c"] by linarith
  qed
qed

subsection \<open>The filled index is sound\<close>

lemma sound_index_put:
  assumes "sound_index rs it" "describes rs x" "entry it (rowIndex x) (colIndex x) = None" "0 < irowSpan x" "0 < icolSpan x"
    and new: "\<And>i k. entry it' i k = (if covers x i k then Some x else entry it i k)"
  shows "sound_index rs it'"
proof -
  have corner: "covers x (rowIndex x) (colIndex x)" using assms(4,5) by (simp add: covers_def)
  have other: "rowIndex y \<noteq> rowIndex x \<or> colIndex y \<noteq> colIndex x" if "entry it i k = Some y" for i k y
    using assms(1,3) that unfolding sound_index_def by metis
  have old: "covers y i k \<and> describes rs y \<and> entry it (rowIndex y) (colIndex y) \<noteq> None" if "entry it i k = Some y" for i k y
    using assms(1) that unfolding sound_index_def by blast
  have same: "y = z" if "entry it i k = Some y" "entry it j l = Some z" "rowIndex y = rowIndex z" "colIndex y = colIndex z" for i k y j l z
    using assms(1) that unfolding sound_index_def by blast
  have one: "covers y i k \<and> describes rs y \<and> entry it' (rowIndex y) (colIndex y) \<noteq> None" if "entry it' i k = Some y" for i k y
    using that old corner assms(2) by (auto simp: new split: if_splits)
  have two: "y = z" if "entry it' i k = Some y" "entry it' j l = Some z" "rowIndex y = rowIndex z" "colIndex y = colIndex z" for i k y j l z
    using that other same by (auto simp: new split: if_splits)
  show ?thesis unfolding sound_index_def using one two by blast
qed

lemma first_free_entry: "i < length it \<Longrightarrow> entry it i (first_free (it ! i) c) = None"
proof -
  assume i: "i < length it"
  let ?w = "takeWhile (\<lambda>x. x \<noteq> None) (drop c (it ! i))"
  show ?thesis
  proof (cases "first_free (it ! i) c < length (it ! i)")
    case True
    then have "length ?w < length (drop c (it ! i))" by (simp add: first_free_def)
    then have "drop c (it ! i) ! length ?w = None" using nth_length_takeWhile [of "\<lambda>x. x \<noteq> None" "drop c (it ! i)"] by simp
    then show ?thesis using True i by (simp add: entry_def first_free_def)
  qed (simp add: entry_def)
qed

lemma fill_cell_sound:
  assumes "sound_index rs it" "length it = length rs" "ri < length rs" "ci < length (rcells (rs ! ri))"
    and "c = rcells (rs ! ri) ! ci" "ri + or1 (rowSpan c) \<le> length rs"
  shows "\<exists>it'. fill_cell (length rs) ri ci c it = Inr it' \<and> length it' = length rs \<and> sound_index rs it'"
proof -
  have min: "min (length rs) (rowSpan c) = rowSpan c" using assms(6) or1_pos(3) [of "rowSpan c"] by linarith
  let ?x = "\<lparr>rowIndex = ri, cellIndex = ci, colIndex = first_free (it ! ri) ci,
       irowSpan = or1 (rowSpan c), icolSpan = or1 (colSpan c)\<rparr>"
  have fc: "fill_cell (length rs) ri ci c it = place ?x it" using assms(2,3) min by (simp add: fill_cell_def nth_opt_def)
  obtain it' where "place ?x it = Inr it'" "length it' = length it"
    "\<forall>i k. entry it' i k = (if covers ?x i k then Some ?x else entry it i k)"
    using place_ok [of ?x it] assms(2,6) by auto
  moreover have "describes rs ?x" using assms(3,4,5) by (simp add: describes_def Let_def)
  ultimately show ?thesis
    using assms(1,2,3) fc sound_index_put [of rs it ?x it'] first_free_entry [of ri it ci] by simp
qed

lemma fill_row_sound:
  assumes "sound_index rs it" "length it = length rs" "ri < length rs"
    and "cs = drop ci (rcells (rs ! ri))" "\<And>c. c \<in> set cs \<Longrightarrow> ri + or1 (rowSpan c) \<le> length rs"
  shows "\<exists>it'. fill_row (length rs) ri ci cs it = Inr it' \<and> length it' = length rs \<and> sound_index rs it'"
  using assms
proof (induction cs arbitrary: ci it)
  case (Cons c cs)
  then have ci: "ci < length (rcells (rs ! ri))" "c = rcells (rs ! ri) ! ci" "cs = drop (Suc ci) (rcells (rs ! ri))"
    by (metis drop_all list.distinct(1) not_le_imp_less, metis nth_via_drop, metis drop_Suc list.sel(3) tl_drop)
  obtain it' where it': "fill_cell (length rs) ri ci c it = Inr it'" "length it' = length rs" "sound_index rs it'"
    using fill_cell_sound [OF Cons.prems(1,2,3) ci(1,2)] Cons.prems(5) by auto
  then show ?case using Cons.IH [OF it'(3,2) Cons.prems(3) ci(3)] Cons.prems(5) by simp
qed auto

lemma fill_rows_sound:
  assumes "sound_index rs it" "length it = length rs" "qs = drop ri rs"
    and "\<And>j c. j < length rs \<Longrightarrow> c \<in> set (rcells (rs ! j)) \<Longrightarrow> j + or1 (rowSpan c) \<le> length rs"
  shows "\<exists>it'. fill_rows (length rs) ri qs it = Inr it' \<and> length it' = length rs \<and> sound_index rs it'"
  using assms
proof (induction qs arbitrary: ri it)
  case (Cons r qs)
  then have ri: "ri < length rs" "r = rs ! ri" "qs = drop (Suc ri) rs"
    by (metis drop_all list.distinct(1) not_le_imp_less, metis nth_via_drop, metis drop_Suc list.sel(3) tl_drop)
  obtain it' where it': "fill_row (length rs) ri 0 (rcells r) it = Inr it'" "length it' = length rs" "sound_index rs it'"
    using fill_row_sound [OF Cons.prems(1,2) ri(1), of "rcells r" 0] Cons.prems(4) [OF ri(1)] ri(2) by auto
  then show ?case using Cons.IH [OF it'(3,2) ri(3) Cons.prems(4)] by simp
qed auto

lemma entry_blank [simp]: "entry (replicate n (replicate p None)) i k = None"
  by (auto simp: entry_def)

lemma fill_rows_ok:
  "\<exists>it. fill_rows (getMaxRows t) 0 (padded t) (replicate (getMaxRows t) (replicate cn None)) = Inr it \<and>
     length it = getMaxRows t \<and> sound_index (padded t) it"
  using fill_rows_sound [of "padded t" "replicate (getMaxRows t) (replicate cn None)" "padded t" 0] padded_span
  by (simp add: sound_index_def)

subsection \<open>Repairing\<close>

text \<open>What a repair keeps: the rows grow by cells without span, the index gains entries.\<close>

definition repairs :: "uetable \<Rightarrow> uetable \<Rightarrow> bool" where
  "repairs t t' \<longleftrightarrow> length (rows t') = length (rows t) \<and> rowsNum t' = rowsNum t \<and> colsNum t' = colsNum t \<and>
     selectedTds t' = selectedTds t \<and> cellsRange t' = cellsRange t \<and> tattrs t' = tattrs t \<and>
     (\<forall>i k x. entry (indexTable t) i k = Some x \<longrightarrow> entry (indexTable t') i k = Some x) \<and>
     (\<forall>i < length (rows t). \<exists>cs. rcells (rows t' ! i) = rcells (rows t ! i) @ cs \<and> 
        (\<forall>c \<in> set cs. rowSpan c = 1 \<and> colSpan c = 1 \<and> className c \<in> insert [] (className ` set (rcells (rows t ! i)))))"

definition repairable :: "uetable \<Rightarrow> bool" where
  "repairable t \<longleftrightarrow> length (indexTable t) = length (rows t) \<and> sound_index (rows t) (indexTable t)"

lemma repairs_refl [simp]: "repairs t t"
  by (simp add: repairs_def)

lemma repairs_row:
  assumes "repairs t t'" "i < length (rows t)"
  obtains cs where "rcells (rows t' ! i) = rcells (rows t ! i) @ cs"
    "\<And>c. c \<in> set cs \<Longrightarrow> rowSpan c = 1 \<and> colSpan c = 1"
    "className ` set cs \<subseteq> insert [] (className ` set (rcells (rows t ! i)))"
  using assms unfolding repairs_def by (metis (no_types, lifting) image_subsetI)

lemma repairs_trans:
  assumes a: "repairs t t'" and b: "repairs t' t''"
  shows "repairs t t''"
proof -
  have "\<exists>cs. rcells (rows t'' ! i) = rcells (rows t ! i) @ cs \<and>
      (\<forall>c \<in> set cs. rowSpan c = 1 \<and> colSpan c = 1 \<and> className c \<in> insert [] (className ` set (rcells (rows t ! i))))"
    if i: "i < length (rows t)" for i
  proof -
    obtain cs where cs: "rcells (rows t' ! i) = rcells (rows t ! i) @ cs"
      "\<And>c. c \<in> set cs \<Longrightarrow> rowSpan c = 1 \<and> colSpan c = 1"
      "className ` set cs \<subseteq> insert [] (className ` set (rcells (rows t ! i)))"
      using repairs_row [OF a i] by metis
    obtain ds where ds: "rcells (rows t'' ! i) = rcells (rows t' ! i) @ ds"
      "\<And>c. c \<in> set ds \<Longrightarrow> rowSpan c = 1 \<and> colSpan c = 1"
      "className ` set ds \<subseteq> insert [] (className ` set (rcells (rows t' ! i)))"
      using repairs_row [OF b, of i] a i unfolding repairs_def by metis
    have "className ` set ds \<subseteq> insert [] (className ` set (rcells (rows t ! i)))"
      using ds(3) cs(1,3) by auto
    then have "c \<in> set (cs @ ds) \<Longrightarrow> className c \<in> insert [] (className ` set (rcells (rows t ! i)))" for c
      using cs(3) by (metis (no_types, lifting) Un_iff image_eqI set_append subsetD)
    then show ?thesis using cs(1,2) ds(1,2) by (intro exI [of _ "cs @ ds"]) auto
  qed
  then show ?thesis using a b by (simp add: repairs_def)
qed

lemma describes_mono:
  assumes "describes rs x" "length rs' = length rs"
    "\<And>i. i < length rs \<Longrightarrow> \<exists>cs. rcells (rs' ! i) = rcells (rs ! i) @ cs"
  shows "describes rs' x"
proof -
  from assms(1) have i: "rowIndex x < length rs" by (simp add: describes_def)
  obtain cs where "rcells (rs' ! rowIndex x) = rcells (rs ! rowIndex x) @ cs" using assms(3) [OF i] by blast
  then show ?thesis using assms(1,2) by (auto simp: describes_def Let_def nth_append)
qed

lemma concat_map_update:
  assumes "i < length xs"
  shows "concat (map f (xs[i := y])) = concat (map f (take i xs)) @ f y @ concat (map f (drop (Suc i) xs))"
  using assms by (simp add: upd_conv_take_nth_drop)

lemma concat_map_split:
  assumes "i < length xs"
  shows "concat (map f xs) = concat (map f (take i xs)) @ f (xs ! i) @ concat (map f (drop (Suc i) xs))"
  using concat_map_update [OF assms, of f "xs ! i"] by simp

lemma fresh_ids_append:
  assumes "fresh_ids t" "j < length (rows t)" "cid c = fresh t"
  shows "fresh_ids (upd_row j (\<lambda>cs. cs @ [c]) (t\<lparr>fresh := Suc (fresh t)\<rparr>))"
proof -
  have old: "all_cells t = concat (map rcells (take j (rows t))) @ rcells (rows t ! j) @ concat (map rcells (drop (Suc j) (rows t)))"
    using concat_map_split [OF assms(2)] by (simp add: all_cells_def)
  have new: "all_cells (upd_row j (\<lambda>cs. cs @ [c]) (t\<lparr>fresh := Suc (fresh t)\<rparr>)) =
      concat (map rcells (take j (rows t))) @ (rcells (rows t ! j) @ [c]) @ concat (map rcells (drop (Suc j) (rows t)))"
    using assms(2) by (simp add: all_cells_def upd_row_def nth_opt_def concat_map_update)
  have fresh: "fresh t \<notin> cid ` set (all_cells t)" using assms(1) by (auto simp: fresh_ids_def)
  have "fresh (upd_row j (\<lambda>cs. cs @ [c]) (t\<lparr>fresh := Suc (fresh t)\<rparr>)) = Suc (fresh t)"
    by (simp add: upd_row_def split: option.splits)
  then show ?thesis using assms(1,3) fresh unfolding fresh_ids_def new
    unfolding old by (auto simp: less_Suc_eq)
qed

lemma repair_ok:
  assumes "repairable t" "j < length (rows t)"
  shows "\<exists>t'. repair ly (j, k) t = Inr t' \<and> repairs t t' \<and> repairable t' \<and> entry (indexTable t') j k \<noteq> None \<and>
    (fresh_ids t \<longrightarrow> fresh_ids t')"
proof (cases "entry (indexTable t) j k")
  case (Some x)
  then have "repair ly (j, k) t = Inr t"
    using assms by (auto simp: repair_def entry_def nth_opt_def repairable_def split: if_splits)
  then show ?thesis using Some assms by auto
next
  case None
  define cell where "cell = (setCellContent ly (if rcells (rows t ! j) = [] then new_cell (fresh t) ''TD''
      else (last (rcells (rows t ! j)))\<lparr>cid := fresh t\<rparr>))\<lparr>colSpan := 1, rowSpan := 1\<rparr>"
  define t1 where "t1 = upd_row j (\<lambda>cs. cs @ [cell]) (t\<lparr>fresh := Suc (fresh t)\<rparr>)"
  define x where "x = \<lparr>rowIndex = j, cellIndex = length (rcells (rows t ! j)), colIndex = k, irowSpan = 1, icolSpan = 1\<rparr>"
  have len: "length (indexTable t) = length (rows t)" using assms by (simp add: repairable_def)
  have t1: "rows t1 = (rows t)[j := (rows t ! j)\<lparr>rcells := rcells (rows t ! j) @ [cell]\<rparr>]" "indexTable t1 = indexTable t"
    "rowsNum t1 = rowsNum t" "colsNum t1 = colsNum t" "selectedTds t1 = selectedTds t" "cellsRange t1 = cellsRange t"
    "tattrs t1 = tattrs t"
    using assms by (simp_all add: t1_def upd_row_def nth_opt_def)
  obtain it where it: "put_index j k x (indexTable t) = Inr it" "length it = length (indexTable t)"
    "\<forall>i' k'. entry it i' k' = (if i' = j \<and> k' = k then Some x else entry (indexTable t) i' k')"
    using put_index_ok [of j "indexTable t" k x] assms len by auto
  let ?t' = "t1\<lparr>indexTable := it\<rparr>"
  have span: "rowSpan cell = 1" "colSpan cell = 1" by (simp_all add: cell_def)
  have cls: "className cell \<in> insert [] (className ` set (rcells (rows t ! j)))"
    by (auto simp: cell_def setCellContent_def new_cell_def)
  have run: "repair ly (j, k) t = Inr ?t'"
    using None assms len it(1) t1(2)
    by (auto simp: repair_def entry_def nth_opt_def row_at_def x_def t1_def cell_def Let_def split: option.splits)
  have rep: "repairs t ?t'"
    unfolding repairs_def using t1 it None assms span cls by (auto simp: nth_list_update)
  have "describes (rows t1) x"
    using assms t1 span by (simp add: describes_def x_def or1_def)
  moreover have "sound_index (rows t1) (indexTable t)"
  proof -
    have "describes (rows t1) y" if "describes (rows t) y" for y
      by (rule describes_mono [OF that]) (use assms t1 in \<open>auto simp: nth_list_update\<close>)
    then show ?thesis using assms(1) unfolding repairable_def sound_index_def by blast
  qed
  moreover have "covers x i k' \<longleftrightarrow> i = j \<and> k' = k" for i k' by (auto simp: covers_def x_def)
  ultimately have "repairable ?t'"
    using sound_index_put [of "rows t1" "indexTable t" x it] it t1 len None by (auto simp: repairable_def x_def)
  moreover have "fresh_ids t \<Longrightarrow> fresh_ids ?t'"
    using fresh_ids_append [of t j cell] assms
    by (simp add: t1_def cell_def new_cell_def setCellContent_def fresh_ids_def all_cells_def)
  ultimately show ?thesis using it run rep by auto
qed

lemma repairs_all:
  assumes "repairable t" "\<And>p. p \<in> set ps \<Longrightarrow> fst p < length (rows t)"
  shows "\<exists>t'. fold_res (repair ly) ps t = Inr t' \<and> repairs t t' \<and> repairable t' \<and>
    (\<forall>p \<in> set ps. entry (indexTable t') (fst p) (snd p) \<noteq> None) \<and> (fresh_ids t \<longrightarrow> fresh_ids t')"
  using assms
proof (induction ps arbitrary: t)
  case (Cons p ps)
  obtain j k where p: "p = (j, k)" by (cases p)
  obtain t1 where t1: "repair ly (j, k) t = Inr t1" "repairs t t1" "repairable t1" "entry (indexTable t1) j k \<noteq> None"
    "fresh_ids t \<longrightarrow> fresh_ids t1"
    using repair_ok [OF Cons.prems(1), of j ly k] Cons.prems(2) [of p] p by auto
  then have "\<And>q. q \<in> set ps \<Longrightarrow> fst q < length (rows t1)" using Cons.prems(2) by (auto simp: repairs_def)
  then obtain t2 where t2: "fold_res (repair ly) ps t1 = Inr t2" "repairs t1 t2" "repairable t2"
    "\<forall>p \<in> set ps. entry (indexTable t2) (fst p) (snd p) \<noteq> None" "fresh_ids t1 \<longrightarrow> fresh_ids t2"
    using Cons.IH t1(3) by blast
  have "entry (indexTable t2) j k \<noteq> None" using t1(4) t2(2) by (auto simp: repairs_def)
  then show ?case using p t1 t2 repairs_trans by auto
qed auto

definition prepared :: "uetable \<Rightarrow> uetable" where
  "prepared t = t\<lparr>rows := padded t, rowsNum := getMaxRows t, colsNum := getMaxCols t, selectedTds := Some [], cellsRange := None,
     indexTable := []\<rparr>"

lemma prepared_simps [simp]:
  "rows (prepared t) = padded t" "rowsNum (prepared t) = getMaxRows t" "colsNum (prepared t) = getMaxCols t"
  "selectedTds (prepared t) = Some []" "cellsRange (prepared t) = None" "tattrs (prepared t) = tattrs t"
  "indexTable (prepared t) = []"
  by (simp_all add: prepared_def)

lemma all_cells_padded: "concat (map rcells (padded t)) = all_cells t"
proof -
  have "rcells new_row = []" by (simp add: new_row_def)
  then show ?thesis by (simp add: padded_def all_cells_def)
qed

theorem reindex_ok:
  "\<exists>t'. reindex ly t = Inr t' \<and> indexed t' \<and> repairs (prepared t) t' \<and> (fresh_ids t \<longrightarrow> fresh_ids t')"
proof -
  obtain it where it: "fill_rows (getMaxRows t) 0 (padded t) (replicate (getMaxRows t) (replicate (getMaxCols t) None)) = Inr it"
    "length it = getMaxRows t" "sound_index (padded t) it" using fill_rows_ok by blast
  let ?t = "(prepared t)\<lparr>indexTable := it\<rparr>"
  have "\<And>p. p \<in> set (grid (getMaxRows t) (getMaxCols t)) \<Longrightarrow> fst p < getMaxRows t" by (auto simp: grid_def)
  moreover
  have "repairable ?t" using it by (simp add: repairable_def)
  ultimately obtain t' where t': "fold_res (repair ly) (grid (getMaxRows t) (getMaxCols t)) ?t = Inr t'" "repairs ?t t'" "repairable t'"
    "\<forall>p \<in> set (grid (getMaxRows t) (getMaxCols t)). entry (indexTable t') (fst p) (snd p) \<noteq> None" "fresh_ids ?t \<longrightarrow> fresh_ids t'"
    using repairs_all [of ?t "grid (getMaxRows t) (getMaxCols t)" ly] by auto
  have "reindex ly t = Inr t'"
    using it t'(1) padded_clamp [of t] unfolding reindex_def Let_def padded_def [symmetric] prepared_def by simp
  moreover have "indexed t'"
    using t' getMaxRows_bounds(2) [of t] unfolding indexed_def repairs_def repairable_def grid_def by fastforce
  moreover have "repairs (prepared t) t'" using t'(2) unfolding repairs_def by (simp add: entry_def)
  moreover have "fresh_ids t \<longrightarrow> fresh_ids ?t" by (simp add: fresh_ids_def all_cells_def all_cells_padded [unfolded all_cells_def] prepared_def)
  ultimately show ?thesis using t'(5) by blast
qed

subsection \<open>Cells and positions\<close>

lemma pos_in_SomeD:
  "pos_in c i rs = Some (ri, ci) \<Longrightarrow>
    i \<le> ri \<and> ri - i < length rs \<and> ci < length (rcells (rs ! (ri - i))) \<and> cid (rcells (rs ! (ri - i)) ! ci) = c"
proof (induction c i rs rule: pos_in.induct)
  case (2 c i r rs)
  show ?case
  proof (cases "index_of c (map cid (rcells r))")
    case (Some j)
    then show ?thesis using 2(2) index_of_SomeD [OF Some] by auto
  next
    case None
    then have "pos_in c (Suc i) rs = Some (ri, ci)" using 2(2) by (simp only: pos_in.simps option.case)
    then have "Suc i \<le> ri" "ri - Suc i < length rs" "ci < length (rcells (rs ! (ri - Suc i)))" "cid (rcells (rs ! (ri - Suc i)) ! ci) = c"
      using 2(1) None by auto
    moreover from this have "ri - i = Suc (ri - Suc i)" by simp
    ultimately show ?thesis by simp
  qed
qed simp

lemma pos_of_SomeD:
  "pos_of t c = Some (ri, ci) \<Longrightarrow>
    ri < length (rows t) \<and> ci < length (rcells (rows t ! ri)) \<and> cid (rcells (rows t ! ri) ! ci) = c"
  unfolding pos_of_def by (drule pos_in_SomeD) simp

lemma pos_in_None: "pos_in c i rs = None \<longleftrightarrow> c \<notin> cid ` set (concat (map rcells rs))"
proof (induction c i rs rule: pos_in.induct)
  case (2 c i r rs)
  show ?case
  proof (cases "index_of c (map cid (rcells r))")
    case (Some j)
    then have "c \<in> set (map cid (rcells r))" by (metis index_of_SomeD nth_mem)
    then show ?thesis using Some by auto
  next
    case None
    then have "pos_in c i (r # rs) = pos_in c (Suc i) rs" by (simp only: pos_in.simps option.case)
    moreover from None have "c \<notin> cid ` set (rcells r)" by simp
    ultimately show ?thesis using 2 [OF None] by (simp del: pos_in.simps add: image_Un)
  qed
qed simp

lemma pos_of_None: "pos_of t c = None \<longleftrightarrow> c \<notin> cid ` set (all_cells t)"
  by (simp add: pos_of_def pos_in_None all_cells_def)

lemma getCellInfo_loop_ok:
  assumes "\<And>k. k \<in> set ks \<Longrightarrow> entry (indexTable t) ri k \<noteq> None"
  shows "\<exists>y. getCellInfo_loop t ri ci ks = Inr y \<and>
    (\<forall>x. y = Some x \<longrightarrow> rowIndex x = ri \<and> cellIndex x = ci \<and> (\<exists>k \<in> set ks. entry (indexTable t) ri k = Some x))"
  using assms
proof (induction ks)
  case (Cons k ks)
  then obtain x where x: "entry (indexTable t) ri k = Some x" by auto
  show ?case
  proof (cases "rowIndex x = ri \<and> cellIndex x = ci")
    case True
    then show ?thesis using x by (auto simp: idx_entry)
  next
    case False
    then have "getCellInfo_loop t ri ci (k # ks) = getCellInfo_loop t ri ci ks" using x by (auto simp: idx_entry)
    moreover have "\<exists>y. getCellInfo_loop t ri ci ks = Inr y \<and>
      (\<forall>x. y = Some x \<longrightarrow> rowIndex x = ri \<and> cellIndex x = ci \<and> (\<exists>k \<in> set ks. entry (indexTable t) ri k = Some x))"
      using Cons by (meson list.set_intros(2))
    ultimately show ?thesis by (metis list.set_intros(2))
  qed
qed simp

text \<open>On an index that \<open>update\<close> made, looking up a cell of the table never throws, and what it finds
  names that cell.\<close>

lemma getCellInfo_ok:
  assumes "indexed t" "pos_of t c = Some (ri, ci)"
  shows "\<exists>y. getCellInfo t (Some c) = Inr y \<and>
    (\<forall>x. y = Some x \<longrightarrow> rowIndex x = ri \<and> cellIndex x = ci \<and> (\<exists>k < colsNum t. entry (indexTable t) ri k = Some x))"
proof -
  have "ri < rowsNum t" using pos_of_SomeD [OF assms(2)] assms(1) by (simp add: indexed_def)
  then have "\<And>k. k \<in> set [ci..<colsNum t] \<Longrightarrow> entry (indexTable t) ri k \<noteq> None" using assms(1) by (simp add: indexed_def)
  from getCellInfo_loop_ok [OF this] obtain y where y: "getCellInfo_loop t ri ci [ci..<colsNum t] = Inr y"
    "\<forall>x. y = Some x \<longrightarrow> rowIndex x = ri \<and> cellIndex x = ci \<and> (\<exists>k \<in> set [ci..<colsNum t]. entry (indexTable t) ri k = Some x)"
    by blast
  have "getCellInfo t (Some c) = Inr y" using y(1) assms(2) by (simp add: getCellInfo_def)
  moreover have "\<forall>x. y = Some x \<longrightarrow> rowIndex x = ri \<and> cellIndex x = ci \<and> (\<exists>k < colsNum t. entry (indexTable t) ri k = Some x)"
    using y(2) by (metis atLeastLessThan_iff set_upt)
  ultimately show ?thesis by blast
qed

lemma getCell_indexed:
  assumes "indexed t" "describes (rows t) x"
  shows "cell_of_info t x = Inr (Some (cid (rcells (rows t ! rowIndex x) ! cellIndex x)))"
  using assms by (simp add: cell_of_info_def getCell_def row_at_def nth_opt_def describes_def indexed_def Let_def)

lemma indexed_cell_at:
  assumes "indexed t" "i < rowsNum t" "k < colsNum t"
  shows "\<exists>x c. idx t i k = Inr x \<and> covers x i k \<and> describes (rows t) x \<and> cell_at t i k = Inr (Some c)"
proof -
  obtain x where x: "entry (indexTable t) i k = Some x" using assms unfolding indexed_def by blast
  then have "covers x i k" "describes (rows t) x" using assms(1) by (auto simp: indexed_def sound_index_def)
  then show ?thesis using x getCell_indexed [OF assms(1)] by (auto simp: idx_entry cell_at_def)
qed

subsection \<open>The state after update\<close>

lemma mark_first_row_cells [simp]: "map rcells (mark_first_row rs) = map rcells rs"
  by (auto simp: mark_first_row_def split: list.splits)

lemma mark_first_row_length [simp]: "length (mark_first_row rs) = length rs"
  by (auto simp: mark_first_row_def split: list.splits)

lemma mark_first_row_nth [simp]: "i < length rs \<Longrightarrow> rcells (mark_first_row rs ! i) = rcells (rs ! i)"
  by (metis mark_first_row_cells mark_first_row_length nth_map)

lemma describes_mark [simp]: "describes (mark_first_row rs) x = describes rs x"
  by (auto simp: describes_def Let_def)

lemma indexed_mark: "indexed t \<Longrightarrow> indexed (t\<lparr>rows := mark_first_row (rows t)\<rparr>)"
  by (auto simp: indexed_def sound_index_def)

lemma fresh_ids_mark: "fresh_ids t \<Longrightarrow> fresh_ids (t\<lparr>rows := mark_first_row (rows t)\<rparr>)"
  by (simp add: fresh_ids_def all_cells_def)

lemma reselect_keeps:
  assumes "reselect t = Inr t'"
  shows "rows t' = rows t \<and> indexTable t' = indexTable t \<and> rowsNum t' = rowsNum t \<and> colsNum t' = colsNum t \<and> fresh t' = fresh t"
proof (cases "map cid (filter (\<lambda>x. ctag x = ''TD'' \<and> hasClass selectTdClass (className x)) (all_cells t)) = []")
  case True
  then show ?thesis using assms by (simp add: reselect_def)
next
  case False
  then show ?thesis using assms
    by (auto simp: reselect_def Let_def bind_res_def split: sum.splits)
qed

lemma update_indexed:
  assumes "update ly t = Inr t'"
  shows "indexed t' \<and> (fresh_ids t \<longrightarrow> fresh_ids t')"
proof -
  obtain t1 where t1: "reindex ly t = Inr t1" "indexed t1" "fresh_ids t \<longrightarrow> fresh_ids t1" using reindex_ok by blast
  then obtain t2 where t2: "reselect t1 = Inr t2" "t' = t2\<lparr>rows := mark_first_row (rows t2)\<rparr>"
    using assms by (auto simp: update_def bind_res_def split: sum.splits)
  have k: "rows t2 = rows t1 \<and> indexTable t2 = indexTable t1 \<and> rowsNum t2 = rowsNum t1 \<and> colsNum t2 = colsNum t1 \<and> fresh t2 = fresh t1"
    using t2(1) by (rule reselect_keeps)
  then have "indexed t2" "fresh_ids t1 \<longrightarrow> fresh_ids t2" using t1(2) by (auto simp: indexed_def fresh_ids_def all_cells_def)
  then show ?thesis using t1(3) t2(2) indexed_mark fresh_ids_mark by blast
qed

definition unmarked :: "uetable \<Rightarrow> bool" where
  "unmarked t \<longleftrightarrow> (\<forall>c \<in> set (all_cells t). \<not> hasClass selectTdClass (className c))"

lemma hasClass_Nil: "\<not> hasClass selectTdClass []"
  by code_simp

lemma repairs_unmarked:
  assumes "repairs t t'" "unmarked t"
  shows "unmarked t'"
  unfolding unmarked_def
proof
  fix c assume "c \<in> set (all_cells t')"
  then obtain r where "r \<in> set (rows t')" "c \<in> set (rcells r)" by (auto simp: all_cells_def intro: nth_mem)
  then obtain i where i: "i < length (rows t')" "c \<in> set (rcells (rows t' ! i))" by (metis in_set_conv_nth)
  then have i': "i < length (rows t)" using assms by (simp add: repairs_def)
  then have sub: "set (rcells (rows t ! i)) \<subseteq> set (all_cells t)" using nth_mem by (fastforce simp: all_cells_def)
  obtain cs where "rcells (rows t' ! i) = rcells (rows t ! i) @ cs"
    "className ` set cs \<subseteq> insert [] (className ` set (rcells (rows t ! i)))"
    using repairs_row [OF assms(1) i'] by metis
  then have "className c \<in> insert [] (className ` set (all_cells t))" using i sub by auto
  then show "\<not> hasClass selectTdClass (className c)" using assms(2) hasClass_Nil by (auto simp: unmarked_def)
qed

lemma update_unmarked:
  assumes "unmarked t"
  shows "\<exists>t1. reindex ly t = Inr t1 \<and> indexed t1 \<and> repairs (prepared t) t1 \<and> unmarked t1 \<and>
    update ly t = Inr (t1\<lparr>rows := mark_first_row (rows t1)\<rparr>)"
proof -
  obtain t1 where t1: "reindex ly t = Inr t1" "indexed t1" "repairs (prepared t) t1" using reindex_ok by blast
  have "all_cells (prepared t) = all_cells t" using all_cells_padded by (simp add: all_cells_def prepared_def)
  then have "unmarked t1" using assms repairs_unmarked [OF t1(3)] by (simp add: unmarked_def)
  moreover from this have "reselect t1 = Inr t1" by (simp add: reselect_def unmarked_def filter_empty_conv)
  ultimately show ?thesis using t1 by (auto simp: update_def)
qed

subsection \<open>Tables without merged cells\<close>

definition plain_cell :: "tcell \<Rightarrow> bool" where
  "plain_cell c \<longleftrightarrow> rowSpan c = 1 \<and> colSpan c = 1"

definition regular :: "nat \<Rightarrow> uetable \<Rightarrow> bool" where
  "regular n t \<longleftrightarrow> rows t \<noteq> [] \<and> (\<forall>r \<in> set (rows t). length (rcells r) = n \<and> (\<forall>c \<in> set (rcells r). plain_cell c))"

definition unit_info :: "nat \<Rightarrow> nat \<Rightarrow> info" where
  "unit_info i k = \<lparr>rowIndex = i, cellIndex = k, colIndex = k, irowSpan = 1, icolSpan = 1\<rparr>"

lemma regular_row:
  "regular n t \<Longrightarrow> i < length (rows t) \<Longrightarrow> length (rcells (rows t ! i)) = n \<and> (\<forall>c \<in> set (rcells (rows t ! i)). plain_cell c)"
  unfolding regular_def using nth_mem by blast

lemma fold_const: "(\<And>x. x \<in> set xs \<Longrightarrow> f x s = s) \<Longrightarrow> fold f xs s = s"
  by (induction xs) auto

lemma getMaxRows_from_regular:
  "\<forall>r \<in> set rs. \<forall>c \<in> set (rcells r). plain_cell c \<Longrightarrow> getMaxRows_from i rs p = (if rs = [] then p else max p (i + length rs))"
proof (induction i rs p rule: getMaxRows_from.induct)
  case (2 i r rs p)
  then have "fold (\<lambda>cj m. max (or1 (rowSpan cj)) m) (rcells r) 1 = 1"
    by (intro fold_const) (auto simp: plain_cell_def or1_def)
  then have "getMaxRows_from i (r # rs) p = (if rs = [] then max (1 + i) p else max (max (1 + i) p) (Suc i + length rs))"
    using 2 by simp
  then show ?case by auto
qed simp

lemma getMaxRows_regular: "regular n t \<Longrightarrow> getMaxRows t = length (rows t)"
  using getMaxRows_from_regular [of "rows t" 0 1] by (cases "rows t") (auto simp: getMaxRows_def regular_def)

lemma getMaxCols_from_regular:
  "\<forall>r \<in> set rs. length (rcells r) = n \<and> (\<forall>c \<in> set (rcells r). plain_cell c) \<Longrightarrow>
   getMaxCols_from i rs (\<lambda>_. 0) p = (if rs = [] then p else max p n)"
proof (induction rs arbitrary: i p)
  case (Cons r rs)
  have "map (\<lambda>cj. or1 (colSpan cj)) (rcells r) = replicate n 1"
    using Cons.prems by (auto simp: plain_cell_def or1_def intro!: nth_equalityI)
  then have "sum_list (map (\<lambda>cj. or1 (colSpan cj)) (rcells r)) = n" by (simp add: sum_list_replicate)
  moreover have "fold (add_cellRows i) (rcells r) (\<lambda>_. 0) = (\<lambda>_. 0)"
    using Cons.prems by (intro fold_const) (auto simp: add_cellRows_def plain_cell_def)
  ultimately show ?case using Cons by (simp add: max_def)
qed simp

lemma getMaxCols_regular: "regular n t \<Longrightarrow> getMaxCols t = n"
  using getMaxCols_from_regular [of "rows t" n 0 0] by (simp add: getMaxCols_def regular_def)

definition filled_to :: "nat \<Rightarrow> nat \<Rightarrow> nat \<Rightarrow> info option list list \<Rightarrow> bool" where
  "filled_to n ri ci it \<longleftrightarrow>
     (\<forall>i k. entry it i k = (if k < n \<and> (i < ri \<or> i = ri \<and> k < ci) then Some (unit_info i k) else None))"

lemma first_free_None: "i < length it \<Longrightarrow> entry it i c = None \<Longrightarrow> first_free (it ! i) c = c"
  by (cases "drop c (it ! i)") (auto simp: first_free_def entry_def nth_via_drop split: if_splits dest: nth_via_drop)

lemma fill_cell_regular:
  assumes "filled_to n ri ci it" "ri < length it" "plain_cell c" "ci < n" "0 < rn"
  shows "\<exists>it'. fill_cell rn ri ci c it = Inr it' \<and> length it' = length it \<and> filled_to n ri (Suc ci) it'"
proof -
  have ff: "first_free (it ! ri) ci = ci" using assms by (intro first_free_None) (auto simp: filled_to_def)
  have "fill_cell rn ri ci c it = place (unit_info ri ci) it"
    using assms ff by (simp add: fill_cell_def nth_opt_def unit_info_def plain_cell_def or1_def min_absorb2)
  moreover obtain it' where "place (unit_info ri ci) it = Inr it'" "length it' = length it"
    "\<forall>i k. entry it' i k = (if covers (unit_info ri ci) i k then Some (unit_info ri ci) else entry it i k)"
    using place_ok [of "unit_info ri ci" it] assms(2) by (auto simp: unit_info_def)
  moreover have "covers (unit_info ri ci) i k \<longleftrightarrow> i = ri \<and> k = ci" for i k by (auto simp: covers_def unit_info_def)
  ultimately show ?thesis using assms(1,4) by (auto simp: filled_to_def less_Suc_eq)
qed

lemma fill_row_regular:
  assumes "filled_to n ri ci it" "ri < length it" "\<forall>c \<in> set cs. plain_cell c" "ci + length cs = n" "0 < rn"
  shows "\<exists>it'. fill_row rn ri ci cs it = Inr it' \<and> length it' = length it \<and> filled_to n ri n it'"
  using assms
proof (induction cs arbitrary: ci it)
  case (Cons c cs)
  obtain it' where it': "fill_cell rn ri ci c it = Inr it'" "length it' = length it" "filled_to n ri (Suc ci) it'"
    using fill_cell_regular [of n ri ci it c rn] Cons.prems by auto
  then show ?case using Cons.IH [of "Suc ci" it'] Cons.prems by simp
qed auto

lemma filled_next: "filled_to n ri n it = filled_to n (Suc ri) 0 it"
  by (auto simp: filled_to_def less_Suc_eq)

lemma fill_rows_regular:
  assumes "filled_to n ri 0 it" "ri + length rs = length it" "\<forall>r \<in> set rs. length (rcells r) = n \<and> (\<forall>c \<in> set (rcells r). plain_cell c)"
    and "0 < rn"
  shows "\<exists>it'. fill_rows rn ri rs it = Inr it' \<and> length it' = length it \<and> filled_to n (length it) 0 it'"
  using assms
proof (induction rs arbitrary: ri it)
  case (Cons r rs)
  obtain it' where it': "fill_row rn ri 0 (rcells r) it = Inr it'" "length it' = length it" "filled_to n ri n it'"
    using fill_row_regular [of n ri 0 it "rcells r" rn] Cons.prems by auto
  then show ?case using Cons.IH [of "Suc ri" it'] Cons.prems by (simp add: filled_next)
qed auto

lemma repair_none:
  "(\<And>p. p \<in> set ps \<Longrightarrow> entry (indexTable t) (fst p) (snd p) \<noteq> None) \<Longrightarrow> fold_res (repair ly) ps t = Inr t"
proof (induction ps)
  case (Cons p ps)
  then have "entry (indexTable t) (fst p) (snd p) \<noteq> None" by simp
  then have "repair ly p t = Inr t"
    by (cases p) (auto simp: repair_def entry_def nth_opt_def split: if_splits)
  with Cons show ?case by simp
qed simp

lemma reindex_regular:
  assumes "regular n t"
  shows "\<exists>it. reindex ly t = Inr ((prepared t)\<lparr>indexTable := it\<rparr>) \<and> padded t = rows t \<and>
    length it = length (rows t) \<and> filled_to n (length (rows t)) 0 it"
proof -
  have R: "getMaxRows t = length (rows t)" "getMaxCols t = n"
    using assms getMaxRows_regular getMaxCols_regular by auto
  then have pad: "padded t = rows t" by (simp add: padded_def)
  obtain it where it: "fill_rows (length (rows t)) 0 (rows t) (replicate (length (rows t)) (replicate n None)) = Inr it"
    "length it = length (rows t)" "filled_to n (length (rows t)) 0 it"
    using fill_rows_regular [of n 0 "replicate (length (rows t)) (replicate n None)" "rows t" "length (rows t)"] assms
    by (auto simp: filled_to_def regular_def)
  have "fold_res (repair ly) (grid (length (rows t)) n) ((prepared t)\<lparr>indexTable := it\<rparr>) = Inr ((prepared t)\<lparr>indexTable := it\<rparr>)"
    using it(3) by (intro repair_none) (auto simp: grid_def filled_to_def)
  then have "reindex ly t = Inr ((prepared t)\<lparr>indexTable := it\<rparr>)"
    using it(1) padded_clamp [of t] pad R unfolding reindex_def Let_def prepared_def padded_def by simp
  then show ?thesis using it pad by blast
qed

text \<open>The table after \<open>update\<close>, when no cell is merged or marked.\<close>

definition settled :: "nat \<Rightarrow> uetable \<Rightarrow> bool" where
  "settled n t \<longleftrightarrow> regular n t \<and> rowsNum t = length (rows t) \<and> colsNum t = n \<and> length (indexTable t) = length (rows t) \<and>
     filled_to n (length (rows t)) 0 (indexTable t) \<and> unmarked t \<and> fresh_ids t"

lemma update_regular:
  assumes "regular n t" "unmarked t" "fresh_ids t"
  shows "\<exists>t'. update ly t = Inr t' \<and> settled n t' \<and> map rcells (rows t') = map rcells (rows t) \<and>
    rows t' = mark_first_row (rows t) \<and> tattrs t' = tattrs t \<and> selectedTds t' = Some [] \<and> cellsRange t' = None \<and> fresh t' = fresh t"
proof -
  obtain it where it: "reindex ly t = Inr ((prepared t)\<lparr>indexTable := it\<rparr>)" "padded t = rows t"
    "length it = length (rows t)" "filled_to n (length (rows t)) 0 it" using reindex_regular [OF assms(1)] by blast
  let ?t1 = "(prepared t)\<lparr>indexTable := it\<rparr>"
  let ?t2 = "?t1\<lparr>rows := mark_first_row (rows t)\<rparr>"
  have cells: "all_cells ?t1 = all_cells t" "all_cells ?t2 = all_cells t" using it(2) by (simp_all add: all_cells_def)
  have "reselect ?t1 = Inr ?t1" using assms(2) cells by (simp add: reselect_def unmarked_def filter_empty_conv)
  then have "update ly t = Inr ?t2" using it(1,2) by (simp add: update_def)
  moreover have "regular n ?t2"
  proof -
    have reg: "regular n u \<longleftrightarrow> map rcells (rows u) \<noteq> [] \<and> (\<forall>cs \<in> set (map rcells (rows u)). length cs = n \<and> (\<forall>c \<in> set cs. plain_cell c))" for u
      by (simp add: regular_def)
    show ?thesis using assms(1) by (simp only: reg) simp
  qed
  then have "settled n ?t2"
    using it assms cells getMaxRows_regular [OF assms(1)] getMaxCols_regular [OF assms(1)]
    by (simp add: settled_def unmarked_def fresh_ids_def prepared_def)
  ultimately show ?thesis by (auto simp: prepared_def)
qed

subsection \<open>Properties\<close>

text \<open>A table with a cell over two rows and a short second row.\<close>

definition demo_layout :: layout where
  "demo_layout = \<lparr>ie = False, ie6 = False, tableOffsetWidth = (\<lambda>_. 300), tableWidth = (\<lambda>_. 300), bodyOffsetWidth = (\<lambda>_. 800),
     cellX = (\<lambda>_ _. 0), cellY = (\<lambda>_ _. 0), cellOffsetWidth = (\<lambda>_ _. 100), cellOffsetHeight = (\<lambda>_ _. 20)\<rparr>"

definition demo_cell :: "nat \<Rightarrow> nat \<Rightarrow> nat \<Rightarrow> tcell" where
  "demo_cell n rs cs = (new_cell n ''TD'')\<lparr>rowSpan := rs, colSpan := cs\<rparr>"

definition demo_table :: uetable where
  "demo_table = \<lparr>rows = [\<lparr>rcells = [demo_cell 0 2 1, demo_cell 1 1 1, demo_cell 2 1 1], rclass = []\<rparr>,
       \<lparr>rcells = [demo_cell 3 1 1], rclass = []\<rparr>], tattrs = [], indexTable = [], rowsNum = 0, colsNum = 0,
     selectedTds = Some [], cellsRange = None, fresh = 4\<rparr>"

text \<open>C16. Building the index never throws on a table without marked cells, whatever the spans are. Afterwards
  every position of the grid is covered by exactly the cell that its entry names: the entry lies inside
  the area of that cell, the cell exists and has the recorded spans. The table keeps its cells in order; a row can
  only gain cells without span at its end, and cells keep distinct identities.\<close>

theorem update_builds_index:
  assumes "unmarked t" "fresh_ids t"
  shows "\<exists>t'. update ly t = Inr t' \<and> rowsNum t' = length (rows t') \<and> length (rows t) \<le> rowsNum t' \<and>
    (\<forall>i < rowsNum t'. \<forall>k < colsNum t'. \<exists>x. idx t' i k = Inr x \<and> covers x i k \<and> describes (rows t') x) \<and>
    (\<forall>i < length (rows t). \<exists>cs. rcells (rows t' ! i) = rcells (rows t ! i) @ cs \<and> (\<forall>c \<in> set cs. rowSpan c = 1 \<and> colSpan c = 1)) \<and>
    fresh_ids t'"
proof -
  obtain t1 where t1: "indexed t1" "repairs (prepared t) t1" "update ly t = Inr (t1\<lparr>rows := mark_first_row (rows t1)\<rparr>)"
    using update_unmarked [OF assms(1)] by blast
  let ?t' = "t1\<lparr>rows := mark_first_row (rows t1)\<rparr>"
  have i: "indexed ?t'" "fresh_ids ?t'" using update_indexed [OF t1(3)] assms(2) by auto
  then have "\<forall>i < rowsNum ?t'. \<forall>k < colsNum ?t'. \<exists>x. idx ?t' i k = Inr x \<and> covers x i k \<and> describes (rows ?t') x"
    using indexed_cell_at [OF i(1)] by blast
  moreover have len: "length (rows t1) = getMaxRows t" using t1(2) by (simp add: repairs_def)
  moreover have "\<exists>cs. rcells (rows ?t' ! i) = rcells (rows t ! i) @ cs \<and> (\<forall>c \<in> set cs. rowSpan c = 1 \<and> colSpan c = 1)"
    if i: "i < length (rows t)" for i
  proof -
    have i': "i < length (rows (prepared t))" "rows (prepared t) ! i = rows t ! i"
      using i getMaxRows_bounds(1) [of t] by (simp_all add: padded_def nth_append)
    obtain cs where "rcells (rows t1 ! i) = rcells (rows t ! i) @ cs" "\<And>c. c \<in> set cs \<Longrightarrow> rowSpan c = 1 \<and> colSpan c = 1"
      using repairs_row [OF t1(2) i'(1)] i'(2) by metis
    then show ?thesis using i len getMaxRows_bounds(1) [of t] by auto
  qed
  ultimately show ?thesis using t1(3) i getMaxRows_bounds(1) [of t] by (intro exI [of _ ?t']) (simp add: indexed_def)
qed

lemma demo_table_ok: "unmarked demo_table" "fresh_ids demo_table"
  by (simp_all add: unmarked_def fresh_ids_def all_cells_def demo_table_def demo_cell_def new_cell_def hasClass_Nil)

theorem update_builds_index_witness:
  "\<exists>t'. update demo_layout demo_table = Inr t' \<and> rowsNum t' = length (rows t') \<and> fresh_ids t'"
  using update_builds_index [OF demo_table_ok, of demo_layout] by blast

text \<open>After \<open>update\<close>, \<open>getCellInfo\<close> never throws on a cell of the table, and what it returns leads back to that
  cell through \<open>getCell\<close>.\<close>

theorem getCellInfo_roundtrip:
  assumes "update ly t = Inr t'" "c \<in> cid ` set (all_cells t')"
  shows "\<exists>y. getCellInfo t' (Some c) = Inr y \<and>
    (\<forall>x. y = Some x \<longrightarrow> getCell t' (rowIndex x) (cellIndex x) = Inr (Some c))"
proof -
  have i: "indexed t'" using update_indexed [OF assms(1)] by blast
  obtain ri ci where p: "pos_of t' c = Some (ri, ci)" using assms(2) pos_of_None [of t' c] by (cases "pos_of t' c") auto
  obtain y where y: "getCellInfo t' (Some c) = Inr y" "\<forall>x. y = Some x \<longrightarrow> rowIndex x = ri \<and> cellIndex x = ci"
    using getCellInfo_ok [OF i p] by blast
  have "getCell t' ri ci = Inr (Some c)"
    using pos_of_SomeD [OF p] i by (simp add: getCell_def row_at_def nth_opt_def indexed_def)
  then show ?thesis using y by auto
qed

definition demo_cell_info :: "nat \<Rightarrow> (nat list list \<times> info option) option" where
  "demo_cell_info c = (case update demo_layout demo_table of
     Inr t' \<Rightarrow> (case getCellInfo t' (Some c) of Inr y \<Rightarrow> Some (map (\<lambda>r. map cid (rcells r)) (rows t'), y) | Inl _ \<Rightarrow> None)
   | Inl _ \<Rightarrow> None)"

lemma demo_cell_info:
  "demo_cell_info 3 = Some ([[0, 1, 2], [3, 4]], Some \<lparr>rowIndex = 1, cellIndex = 0, colIndex = 1, irowSpan = 1, icolSpan = 1\<rparr>)"
  by code_simp

theorem getCellInfo_roundtrip_witness:
  "\<exists>t'. update demo_layout demo_table = Inr t' \<and> getCell t' 1 0 = Inr (Some 3)"
proof -
  obtain t' y where t': "update demo_layout demo_table = Inr t'" "getCellInfo t' (Some 3) = Inr y"
      "map (\<lambda>r. map cid (rcells r)) (rows t') = [[0, 1, 2], [3, 4]]"
      "y = Some \<lparr>rowIndex = 1, cellIndex = 0, colIndex = 1, irowSpan = 1, icolSpan = 1\<rparr>"
    using demo_cell_info by (auto simp: demo_cell_info_def split: sum.splits)
  have "map cid (all_cells t') = concat (map (\<lambda>r. map cid (rcells r)) (rows t'))"
    by (simp add: all_cells_def map_concat comp_def)
  then have "map cid (all_cells t') = [0, 1, 2, 3, 4]" using t'(3) by simp
  then have "3 \<in> set (map cid (all_cells t'))" by simp
  then have "3 \<in> cid ` set (all_cells t')" by simp
  from getCellInfo_roundtrip [OF t'(1) this] show ?thesis using t' by auto
qed

end
