(* ===== verification/TableRange.thy ===== *)
theory TableRange
  imports UETable
begin

text \<open>
  \<open>plugins/table.core.js\<close>: moving from cell to cell and selecting. \<open>getCellsRange\<close> widens the
  rectangle of two cells until no merged cell sticks out, \<open>getCells\<close> lists the cells of a
  rectangle, \<open>setSelected\<close> marks them. A function that the source wraps in \<open>try .. catch\<close>
  returns \<open>None\<close> (\<open>undefined\<close>) when something inside throws.
\<close>

definition try_opt :: "'a option res \<Rightarrow> 'a option" where
  "try_opt r = (case r of Inr x \<Rightarrow> x | Inl _ \<Rightarrow> None)"

subsection \<open>Neighbours\<close>

definition selected_len :: "uetable \<Rightarrow> nat res" where
  "selected_len t = bind_res (need (selectedTds t)) (\<lambda>s. Inr (length s))"

text \<open>
  The cell beside a cell, or beside the selection when there is one. The fields of \<open>range\<close> are
  \<open>undefined\<close> without a selection; the sources read them only when cells are selected.
\<close>

definition getHSideCell :: "uetable \<Rightarrow> nat option \<Rightarrow> bool \<Rightarrow> nat option" where
  "getHSideCell t cell right = try_opt
     (bind_res (getCellInfo t cell) (\<lambda>ci. bind_res (selected_len t) (\<lambda>len.
        if len = 0
        then bind_res (need ci) (\<lambda>x.
          if (\<not> right \<and> colIndex x = 0) \<or> (right \<and> Suc (colIndex x) = colsNum t) then Inr None
          else cell_at t (rowIndex x) (if right then colIndex x + 1 else colIndex x - 1))
        else (case cellsRange t of None \<Rightarrow> Inl TypeError | Some rg \<Rightarrow>
          if (\<not> right \<and> beginColIndex rg = 0) \<or> (right \<and> Suc (endColIndex rg) = colsNum t) then Inr None
          else cell_at t (beginRowIndex rg) (if right then endColIndex rg + 1 else beginColIndex rg - 1)))))"

definition getTabNextCell :: "uetable \<Rightarrow> nat option \<Rightarrow> nat option \<Rightarrow> nat option res" where
  "getTabNextCell t cell preRowIndex =
     bind_res (cellInfo_of t cell) (\<lambda>x.
       let ri = (case preRowIndex of Some r \<Rightarrow> if r = 0 then rowIndex x else r | None \<Rightarrow> rowIndex x);
           ci = colIndex x + 1 + (icolSpan x - 1)
       in Inr (case cell_at t ri ci of Inr c \<Rightarrow> c | Inl _ \<Rightarrow> try_opt (cell_at t (ri + 1) 0)))"

definition getVSideCell :: "uetable \<Rightarrow> nat option \<Rightarrow> bool \<Rightarrow> bool \<Rightarrow> nat option" where
  "getVSideCell t cell bottom ignoreRange = try_opt
     (bind_res (getCellInfo t cell) (\<lambda>ci. bind_res (selected_len t) (\<lambda>len.
        let single = (len = 0 \<or> ignoreRange) in
        bind_res (if bottom \<and> \<not> single then Inr False else bind_res (need ci) (\<lambda>x.
            Inr (if bottom then rowsNum t \<le> rowIndex x + irowSpan x else rowIndex x = 0))) (\<lambda>at_border.
        if at_border then Inr None
        else if single then bind_res (need ci) (\<lambda>x.
            cell_at t (if bottom then rowIndex x + irowSpan x else rowIndex x - 1) (colIndex x))
        else (case cellsRange t of None \<Rightarrow> Inl TypeError | Some rg \<Rightarrow>
            if bottom \<and> Suc (endRowIndex rg) = rowsNum t then Inr None
            else if \<not> bottom \<and> beginRowIndex rg = 0 then Inl TypeError
            else cell_at t (if bottom then endRowIndex rg + 1 else beginRowIndex rg - 1) (beginColIndex rg))))))"

text \<open>\<open>getNextCell\<close> has the body of \<open>getVSideCell\<close>.\<close>

definition getNextCell :: "uetable \<Rightarrow> nat option \<Rightarrow> bool \<Rightarrow> bool \<Rightarrow> nat option" where
  "getNextCell t cell bottom ignoreRange = getVSideCell t cell bottom ignoreRange"

definition getPreviewCell :: "uetable \<Rightarrow> nat option \<Rightarrow> bool \<Rightarrow> nat option" where
  "getPreviewCell t cell up = try_opt
     (bind_res (getCellInfo t cell) (\<lambda>ci. bind_res (selected_len t) (\<lambda>len.
        if len = 0
        then bind_res (need ci) (\<lambda>x.
          if (\<not> up \<and> colIndex x = 0) \<or> (up \<and> colsNum t \<le> rowIndex x) then Inr None
          else if up then cell_at t (rowIndex x - 1) (colIndex x)
          else cell_at t (rowIndex x) (colIndex x - 1))
        else (case cellsRange t of None \<Rightarrow> Inl TypeError | Some rg \<Rightarrow>
          if (\<not> up \<and> beginColIndex rg = 0) \<or> (up \<and> Suc (endColIndex rg) = colsNum t) then Inr None
          else cell_at t (beginRowIndex rg) (if up then endColIndex rg + 1 else beginColIndex rg - 1)))))"

subsection \<open>Cells at a border line\<close>

definition cell_end :: "layout \<Rightarrow> uetable \<Rightarrow> bool \<Rightarrow> nat \<Rightarrow> int" where
  "cell_end ly t flag c = (if flag then cellX ly t c + cellOffsetWidth ly t c else cellY ly t c + cellOffsetHeight ly t c)"

fun same_end_row :: "layout \<Rightarrow> uetable \<Rightarrow> bool \<Rightarrow> nat \<Rightarrow> tcell list \<Rightarrow> nat list" where
  "same_end_row ly t flag cell [] = []"
| "same_end_row ly t flag cell (tmp # cs) =
     (let tmpEnd = cell_end ly t flag (cid tmp); e = cell_end ly t flag cell in
      if tmpEnd > e \<and> flag then []
      else if cell = cid tmp \<or> e = tmpEnd
      then (if (if flag then colSpan tmp else rowSpan tmp) = 1 then [cid tmp] else []) @
           (if flag then [] else same_end_row ly t flag cell cs)
      else same_end_row ly t flag cell cs)"

definition rows_upto :: "uetable \<Rightarrow> trow list res" where
  "rows_upto t = (if rowsNum t \<le> length (rows t) then Inr (take (rowsNum t) (rows t)) else Inl TypeError)"

definition getSameEndPosCells :: "layout \<Rightarrow> uetable \<Rightarrow> nat \<Rightarrow> string \<Rightarrow> nat list option" where
  "getSameEndPosCells ly t cell xOrY = try_opt (bind_res (rows_upto t) (\<lambda>rs.
     Inr (Some (concat (map (\<lambda>r. same_end_row ly t (toLowerCase xOrY = ''x'') cell (rcells r)) rs)))))"

fun same_start_row :: "layout \<Rightarrow> uetable \<Rightarrow> int \<Rightarrow> tcell list \<Rightarrow> nat list" where
  "same_start_row ly t start [] = []"
| "same_start_row ly t start (tmp # cs) =
     (let tmpStart = cellX ly t (cid tmp) in
      if tmpStart > start then []
      else if tmpStart = start \<and> colSpan tmp = 1 then [cid tmp]
      else same_start_row ly t start cs)"

definition getSameStartPosXCells :: "layout \<Rightarrow> uetable \<Rightarrow> nat \<Rightarrow> nat list option" where
  "getSameStartPosXCells ly t cell = try_opt (bind_res (rows_upto t) (\<lambda>rs.
     Inr (Some (concat (map (\<lambda>r. same_start_row ly t (cellX ly t cell + cellOffsetWidth ly t cell) (rcells r)) rs)))))"

subsection \<open>Rectangles\<close>

text \<open>One of the four loops of \<open>checkRange\<close>: the extreme value over some positions of the index.\<close>

fun scan :: "(info \<Rightarrow> nat) \<Rightarrow> (nat \<Rightarrow> nat \<Rightarrow> nat) \<Rightarrow> uetable \<Rightarrow> (nat \<times> nat) list \<Rightarrow> nat \<Rightarrow> nat res" where
  "scan f better t [] v = Inr v"
| "scan f better t ((i, j) # ps) v = bind_res (idx t i j) (\<lambda>x. scan f better t ps (better (f x) v))"

definition row_end :: "info \<Rightarrow> nat" where "row_end x = rowIndex x + irowSpan x - 1"
definition col_end :: "info \<Rightarrow> nat" where "col_end x = colIndex x + icolSpan x - 1"

definition check_step :: "uetable \<Rightarrow> range \<Rightarrow> range res" where
  "check_step t rg =
     (let br = beginRowIndex rg; bc = beginColIndex rg; er = endRowIndex rg; ec = endColIndex rg;
          horizontal = (\<lambda>r. map (Pair r) [bc..<ec]); vertical = (\<lambda>c. map (\<lambda>r. (r, c)) [br..<er])
      in bind_res (scan rowIndex min t (if br > 0 then horizontal br else []) br) (\<lambda>br'.
         bind_res (scan col_end max t (if ec < colsNum t then vertical ec else []) ec) (\<lambda>ec'.
         bind_res (scan row_end max t (if er < rowsNum t then horizontal er else []) er) (\<lambda>er'.
         bind_res (scan colIndex min t (if bc > 0 then vertical bc else []) bc) (\<lambda>bc'.
           Inr \<lparr>beginRowIndex = br', beginColIndex = bc', endRowIndex = er', endColIndex = ec'\<rparr>)))))"

lemma bind_res_cong [fundef_cong]:
  "r = r' \<Longrightarrow> (\<And>x. r' = Inr x \<Longrightarrow> f x = g x) \<Longrightarrow> bind_res r f = bind_res r' g"
  by (cases r') auto

text \<open>The greatest row and column that an entry of the index reaches.\<close>

definition infos :: "uetable \<Rightarrow> info list" where
  "infos t = concat (map (List.map_filter id) (indexTable t))"

definition max_of :: "(info \<Rightarrow> nat) \<Rightarrow> uetable \<Rightarrow> nat" where
  "max_of f t = fold (\<lambda>x v. max (f x) v) (infos t) 0"

lemma idx_infos: "idx t i j = Inr x \<Longrightarrow> x \<in> set (infos t)"
proof -
  assume "idx t i j = Inr x"
  then have "i < length (indexTable t)" "j < length (indexTable t ! i)" "indexTable t ! i ! j = Some x"
    by (auto simp: idx_entry entry_def split: option.splits if_splits)
  then have "indexTable t ! i \<in> set (indexTable t)" "Some x \<in> set (indexTable t ! i)"
    by (auto simp: in_set_conv_nth)
  then show ?thesis by (force simp: infos_def map_filter_def)
qed

lemma max_of_ge: "idx t i j = Inr x \<Longrightarrow> f x \<le> max_of f t"
  using fold_max_elem [of x "infos t" f 0] idx_infos by (simp add: max_of_def)

lemma scan_max:
  "scan f max t ps v = Inr v' \<Longrightarrow> v \<le> v' \<and> (v' = v \<or> v' \<le> max_of f t)"
proof (induction f "max :: nat \<Rightarrow> nat \<Rightarrow> nat" t ps v rule: scan.induct)
  case (2 f t i j ps v)
  then obtain x where x: "idx t i j = Inr x" "scan f max t ps (max (f x) v) = Inr v'"
    by (auto simp: bind_res_def split: sum.splits)
  then have "max (f x) v \<le> v' \<and> (v' = max (f x) v \<or> v' \<le> max_of f t)" using 2(1) by blast
  then show ?case using max_of_ge [OF x(1), of f] by (auto simp: max_def split: if_splits)
qed simp

lemma scan_min: "scan f min t ps v = Inr v' \<Longrightarrow> v' \<le> v"
proof (induction f "min :: nat \<Rightarrow> nat \<Rightarrow> nat" t ps v rule: scan.induct)
  case (2 f t i j ps v)
  then obtain x where x: "idx t i j = Inr x" "scan f min t ps (min (f x) v) = Inr v'"
    by (auto simp: bind_res_def split: sum.splits)
  then show ?case using 2(1) by fastforce
qed simp

lemma check_step_grows:
  assumes "check_step t rg = Inr rg'"
  shows "beginRowIndex rg' \<le> beginRowIndex rg" "beginColIndex rg' \<le> beginColIndex rg"
    "endRowIndex rg \<le> endRowIndex rg' \<and> (endRowIndex rg' = endRowIndex rg \<or> endRowIndex rg' \<le> max_of row_end t)"
    "endColIndex rg \<le> endColIndex rg' \<and> (endColIndex rg' = endColIndex rg \<or> endColIndex rg' \<le> max_of col_end t)"
  using assms
  by (auto simp: check_step_def Let_def bind_res_def split: sum.splits dest: scan_min scan_max)

function checkRange :: "uetable \<Rightarrow> range \<Rightarrow> range res" where
  "checkRange t rg = bind_res (check_step t rg) (\<lambda>rg'. if rg' \<noteq> rg then checkRange t rg' else Inr rg)"
  by pat_completeness auto

termination checkRange
proof (relation "measure (\<lambda>(t, rg). beginRowIndex rg + beginColIndex rg + (max_of row_end t - endRowIndex rg) + (max_of col_end t - endColIndex rg))")
  fix t rg rg'
  assume "check_step t rg = Inr rg'" and "rg' \<noteq> rg"
  note g = check_step_grows [OF this(1)]
  have "beginRowIndex rg' < beginRowIndex rg \<or> beginColIndex rg' < beginColIndex rg \<or>
      endRowIndex rg < endRowIndex rg' \<or> endColIndex rg < endColIndex rg'"
    using g \<open>rg' \<noteq> rg\<close> by (cases rg; cases rg') auto
  with g show "((t, rg'), (t, rg)) \<in> measure (\<lambda>(t, rg). beginRowIndex rg + beginColIndex rg +
      (max_of row_end t - endRowIndex rg) + (max_of col_end t - endColIndex rg))"
    by auto
qed simp

declare checkRange.simps [simp del]

definition cell_range :: "info \<Rightarrow> range" where
  "cell_range x = \<lparr>beginRowIndex = rowIndex x, beginColIndex = colIndex x, endRowIndex = row_end x, endColIndex = col_end x\<rparr>"

definition getCellsRange :: "uetable \<Rightarrow> nat option \<Rightarrow> nat option \<Rightarrow> range option" where
  "getCellsRange t cellA cellB = try_opt
     (bind_res (getCellInfo t cellA) (\<lambda>a.
      if cellA = cellB then bind_res (need a) (\<lambda>a. Inr (Some (cell_range a)))
      else bind_res (getCellInfo t cellB) (\<lambda>b. bind_res (need a) (\<lambda>a. bind_res (need b) (\<lambda>b.
        bind_res (checkRange t \<lparr>beginRowIndex = min (rowIndex a) (rowIndex b), beginColIndex = min (colIndex a) (colIndex b),
            endRowIndex = max (row_end a) (row_end b), endColIndex = max (col_end a) (col_end b)\<rparr>)
          (\<lambda>rg. Inr (Some rg)))))))"

definition positions :: "range \<Rightarrow> (nat \<times> nat) list" where
  "positions rg = concat (map (\<lambda>i. map (Pair i) [beginColIndex rg..<Suc (endColIndex rg)]) [beginRowIndex rg..<Suc (endRowIndex rg)])"

text \<open>The loop of \<open>getCells\<close>; \<open>None\<close> is the result \<open>null\<close> for a rectangle that cuts a cell.\<close>

fun getCells_loop :: "uetable \<Rightarrow> range \<Rightarrow> (nat \<times> nat) list \<Rightarrow> (nat \<times> nat) list \<Rightarrow> nat list \<Rightarrow> nat list option res" where
  "getCells_loop t rg [] tdHash returnTds = Inr (Some returnTds)"
| "getCells_loop t rg ((i, j) # ps) tdHash returnTds =
     bind_res (idx t i j) (\<lambda>x.
       if (rowIndex x, colIndex x) \<in> set tdHash then getCells_loop t rg ps tdHash returnTds
       else if rowIndex x < i \<or> colIndex x < j \<or> row_end x > endRowIndex rg \<or> col_end x > endColIndex rg then Inr None
       else bind_res (cell_of_info t x) (\<lambda>c. bind_res (need c) (\<lambda>c.
         getCells_loop t rg ps ((rowIndex x, colIndex x) # tdHash) (returnTds @ [c]))))"

definition clearSelected :: "uetable \<Rightarrow> uetable" where
  "clearSelected t = (removeSelectedClass (case selectedTds t of Some s \<Rightarrow> s | None \<Rightarrow> []) t)
     \<lparr>selectedTds := Some [], cellsRange := None\<rparr>"

definition getCells :: "uetable \<Rightarrow> range option \<Rightarrow> (uetable \<times> nat list option) res" where
  "getCells t rng = (let t = clearSelected t in
     bind_res (need rng) (\<lambda>rg. bind_res (getCells_loop t rg (positions rg) [] []) (\<lambda>cs. Inr (t, cs))))"

definition setSelected :: "uetable \<Rightarrow> range option \<Rightarrow> uetable res" where
  "setSelected t rng = bind_res (getCells t rng) (\<lambda>(t, cells).
     Inr ((addSelectedClass (case cells of Some cs \<Rightarrow> cs | None \<Rightarrow> []) t)\<lparr>selectedTds := cells, cellsRange := rng\<rparr>))"

definition isFullRow :: "uetable \<Rightarrow> bool" where
  "isFullRow t = (case cellsRange t of None \<Rightarrow> False
     | Some rg \<Rightarrow> int (endColIndex rg) - int (beginColIndex rg) + 1 = int (colsNum t))"

definition isFullCol :: "uetable \<Rightarrow> bool" where
  "isFullCol t = (case cellsRange t of None \<Rightarrow> False
     | Some rg \<Rightarrow> (let ths = filter (\<lambda>c. ctag c = ''TH'') (all_cells t);
          rs = int (endRowIndex rg) - int (beginRowIndex rg) + 1
        in if ths = [] then rs = int (rowsNum t) else rs = int (rowsNum t) \<or> rs = int (rowsNum t) - 1))"

definition selectRow :: "uetable \<Rightarrow> nat \<Rightarrow> uetable res" where
  "selectRow t ri =
     bind_res (cell_at t ri 0) (\<lambda>start. bind_res (if colsNum t = 0 then Inl TypeError else cell_at t ri (colsNum t - 1)) (\<lambda>e.
       setSelected t (getCellsRange t start e)))"

definition selectTable :: "uetable \<Rightarrow> uetable res" where
  "selectTable t = setSelected t
     (getCellsRange t (nth_opt (tds t) 0) (if tds t = [] then None else nth_opt (tds t) (length (tds t) - 1)))"

text \<open>\<open>isLastCell\<close>, with the row count given by the test that \<open>rowIndex + rowSpan\<close> has to pass: the
  count that \<open>getLastCell\<close> passes is a quotient.\<close>

definition isLastCell_by :: "uetable \<Rightarrow> nat \<Rightarrow> (nat \<Rightarrow> bool) \<Rightarrow> nat \<Rightarrow> bool res" where
  "isLastCell_by t cell is_rows cn = bind_res (cellInfo_of t (Some cell)) (\<lambda>x.
     Inr (is_rows (rowIndex x + irowSpan x) \<and> colIndex x + icolSpan x = (if cn = 0 then colsNum t else cn)))"

definition isLastCell :: "uetable \<Rightarrow> nat \<Rightarrow> nat \<Rightarrow> nat \<Rightarrow> bool res" where
  "isLastCell t cell rn cn = isLastCell_by t cell (\<lambda>r. r = (if rn = 0 then rowsNum t else rn)) cn"

fun find_last :: "uetable \<Rightarrow> (nat \<Rightarrow> bool) \<Rightarrow> nat \<Rightarrow> nat list \<Rightarrow> nat \<Rightarrow> nat res" where
  "find_last t is_rows cn [] dflt = Inr dflt"
| "find_last t is_rows cn (c # cs) dflt =
     bind_res (isLastCell_by t c is_rows cn) (\<lambda>b. if b then Inr c else find_last t is_rows cn cs dflt)"

definition getLastCell :: "uetable \<Rightarrow> nat list option \<Rightarrow> nat res" where
  "getLastCell t cells = (case (case cells of Some cs \<Rightarrow> cs | None \<Rightarrow> tds t) of
     [] \<Rightarrow> Inl TypeError
   | c0 # cs \<Rightarrow>
      bind_res (getCellInfo t (Some c0)) (\<lambda>_.
      bind_res (seq_map (\<lambda>c. bind_res (the_cell t c) (\<lambda>x. Inr [x])) (c0 # cs)) (\<lambda>xs.
        let tr = map_option fst (pos_of t c0);
            cols = sum_list (map (\<lambda>x. or1 (colSpan x)) (filter (\<lambda>x. map_option fst (pos_of t (cid x)) = tr) xs));
            cellsNum = sum_list (map (\<lambda>x. or1 (rowSpan x * colSpan x)) xs)
        in find_last t (\<lambda>r. r * cols = cellsNum) cols (c0 # cs) c0)))"

subsection \<open>Background\<close>

datatype background = Colour string | Colours "bool option" "string list option"

definition getColor :: "string list \<Rightarrow> nat \<Rightarrow> bool \<Rightarrow> string" where
  "getColor xs index again = (if index < length xs \<and> xs ! index \<noteq> [] then xs ! index
     else if again then (if xs = [] then [] else xs ! (index mod length xs)) else [])"

fun stripes :: "string list \<Rightarrow> bool \<Rightarrow> nat \<Rightarrow> nat \<Rightarrow> nat list \<Rightarrow> uetable \<Rightarrow> uetable res" where
  "stripes colors again ri cnt [] t = Inr t"
| "stripes colors again ri cnt (c # cs) t =
     bind_res (cellInfo_of t (Some c)) (\<lambda>x.
       let cnt = (if ri + cnt = rowIndex x then cnt else Suc cnt)
       in stripes colors again ri cnt cs (upd_cell c (set_style ''background-color'' (getColor colors cnt again)) t))"

definition setBackground :: "uetable \<Rightarrow> nat list \<Rightarrow> background \<Rightarrow> uetable res" where
  "setBackground t cells value = (case value of
     Colour v \<Rightarrow> Inr (fold (\<lambda>c. upd_cell c (set_style ''background-color'' v)) cells t)
   | Colours again colors \<Rightarrow>
       bind_res (cellInfo_of t (nth_opt cells 0)) (\<lambda>x.
         stripes (case colors of Some xs \<Rightarrow> xs | None \<Rightarrow> [''#ddd'', ''#fff'']) (case again of Some b \<Rightarrow> b | None \<Rightarrow> True)
           (rowIndex x) 0 cells t))"

definition removeBackground :: "uetable \<Rightarrow> nat list \<Rightarrow> uetable" where
  "removeBackground t cells = fold (\<lambda>c. upd_cell c (set_style ''background-color'' [])) cells t"

subsection \<open>The rectangle of two cells\<close>

definition inside :: "range \<Rightarrow> range \<Rightarrow> bool" where
  "inside a b \<longleftrightarrow> beginRowIndex b \<le> beginRowIndex a \<and> beginColIndex b \<le> beginColIndex a \<and>
     endRowIndex a \<le> endRowIndex b \<and> endColIndex a \<le> endColIndex b"

lemma inside_trans: "inside a b \<Longrightarrow> inside b c \<Longrightarrow> inside a c"
  by (auto simp: inside_def)

lemma inside_refl [simp]: "inside a a"
  by (simp add: inside_def)

lemma checkRange_ok:
  assumes "checkRange t rg = Inr rg'"
  shows "inside rg rg' \<and> check_step t rg' = Inr rg'"
  using assms
proof (induction t rg rule: checkRange.induct)
  case (1 t rg)
  from 1(2) obtain r1 where r1: "check_step t rg = Inr r1" "(if r1 \<noteq> rg then checkRange t r1 else Inr rg) = Inr rg'"
    by (subst (asm) checkRange.simps) (auto simp: bind_res_def split: sum.splits)
  have "inside rg r1" using check_step_grows [OF r1(1)] by (simp add: inside_def)
  with r1 1(1) [OF r1(1)] show ?case by (auto intro: inside_trans split: if_splits)
qed

lemma clearSelected_keeps:
  "indexTable (clearSelected t) = indexTable t \<and> rowsNum (clearSelected t) = rowsNum t \<and> colsNum (clearSelected t) = colsNum t \<and>
   map (\<lambda>r. map cid (rcells r)) (rows (clearSelected t)) = map (\<lambda>r. map cid (rcells r)) (rows t)"
proof -
  have "indexTable (removeSelectedClass cs t) = indexTable t \<and> rowsNum (removeSelectedClass cs t) = rowsNum t \<and>
      colsNum (removeSelectedClass cs t) = colsNum t \<and>
      map (\<lambda>r. map cid (rcells r)) (rows (removeSelectedClass cs t)) = map (\<lambda>r. map cid (rcells r)) (rows t)" for cs t
    unfolding removeSelectedClass_def
    by (induction cs arbitrary: t) (auto simp: upd_cell_def comp_def)
  then show ?thesis by (simp add: clearSelected_def)
qed

lemma getCell_cids:
  "getCell t ri ci = (if ri < rowsNum t then (case nth_opt (map (\<lambda>r. map cid (rcells r)) (rows t)) ri of
     None \<Rightarrow> Inl TypeError | Some ids \<Rightarrow> Inr (nth_opt ids ci)) else Inr None)"
  by (auto simp: getCell_def row_at_def nth_opt_def)

lemma clearSelected_reads [simp]:
  "idx (clearSelected t) i j = idx t i j" "cell_of_info (clearSelected t) x = cell_of_info t x"
  by (simp_all add: idx_def cell_of_info_def getCell_cids clearSelected_keeps)

text \<open>What \<open>getCells_loop\<close> has collected after some positions: every cell that covers one of them was
  seen before or lies inside the rectangle and is listed, and every cell listed covers one.\<close>

definition collected :: "uetable \<Rightarrow> range \<Rightarrow> (nat \<times> nat) list \<Rightarrow> (nat \<times> nat) list \<Rightarrow> nat list \<Rightarrow> bool" where
  "collected t rg ps hash ds \<longleftrightarrow>
     (\<forall>p \<in> set ps. \<exists>x. idx t (fst p) (snd p) = Inr x \<and> ((rowIndex x, colIndex x) \<in> set hash \<or>
        inside (cell_range x) rg \<and> (\<exists>c \<in> set ds. cell_of_info t x = Inr (Some c)))) \<and>
     (\<forall>c \<in> set ds. \<exists>p \<in> set ps. cell_at t (fst p) (snd p) = Inr (Some c))"

lemma collected_skip:
  assumes "collected t rg ps hash ds" "idx t i j = Inr x" "(rowIndex x, colIndex x) \<in> set hash"
  shows "collected t rg ((i, j) # ps) hash ds"
  using assms by (auto simp: collected_def)

lemma collected_push:
  assumes "collected t rg ps ((rowIndex x, colIndex x) # hash) ds" "idx t i j = Inr x" "inside (cell_range x) rg"
    and "cell_of_info t x = Inr (Some c)"
    and key: "\<And>i' j' y. idx t i' j' = Inr y \<Longrightarrow> rowIndex y = rowIndex x \<Longrightarrow> colIndex y = colIndex x \<Longrightarrow> y = x"
  shows "collected t rg ((i, j) # ps) hash (c # ds)"
proof -
  have "\<exists>y. idx t (fst p) (snd p) = Inr y \<and> ((rowIndex y, colIndex y) \<in> set hash \<or>
        inside (cell_range y) rg \<and> (\<exists>c \<in> set (c # ds). cell_of_info t y = Inr (Some c)))" if p: "p \<in> set ps" for p
  proof -
    obtain y where y: "idx t (fst p) (snd p) = Inr y" "(rowIndex y, colIndex y) \<in> set ((rowIndex x, colIndex x) # hash) \<or>
        inside (cell_range y) rg \<and> (\<exists>c \<in> set ds. cell_of_info t y = Inr (Some c))"
      using assms(1) p unfolding collected_def by blast
    then show ?thesis using key [OF y(1)] assms(3,4) by auto
  qed
  then show ?thesis using assms by (auto simp: collected_def cell_at_def)
qed

lemma index_key:
  assumes "indexed t" "idx t i j = Inr x" "idx t i' j' = Inr y" "rowIndex y = rowIndex x" "colIndex y = colIndex x"
  shows "y = x"
  using assms unfolding indexed_def sound_index_def idx_entry by (auto split: option.splits)

lemma getCells_loop_ok:
  assumes ix: "indexed t" and ps: "\<And>p. p \<in> set ps \<Longrightarrow>
      fst p < rowsNum t \<and> snd p < colsNum t \<and> beginRowIndex rg \<le> fst p \<and> beginColIndex rg \<le> snd p"
  shows "\<exists>r. getCells_loop t rg ps hash acc = Inr r \<and> (\<forall>cs. r = Some cs \<longrightarrow> (\<exists>ds. cs = acc @ ds \<and> collected t rg ps hash ds))"
  using ps
proof (induction ps arbitrary: hash acc)
  case (Cons p ps)
  obtain i j where p: "p = (i, j)" by (cases p)
  have b: "i < rowsNum t" "j < colsNum t" "beginRowIndex rg \<le> i" "beginColIndex rg \<le> j"
    using Cons.prems [of p] p by auto
  obtain x c where x: "idx t i j = Inr x" and c: "cell_of_info t x = Inr (Some c)"
    using indexed_cell_at [OF ix b(1,2)] by (auto simp: cell_at_def)
  note IH = Cons.IH [OF Cons.prems, simplified]
  consider (seen) "(rowIndex x, colIndex x) \<in> set hash"
    | (cut) "getCells_loop t rg (p # ps) hash acc = Inr None"
    | (new) "getCells_loop t rg (p # ps) hash acc = getCells_loop t rg ps ((rowIndex x, colIndex x) # hash) (acc @ [c])"
        "inside (cell_range x) rg"
  proof (cases "(rowIndex x, colIndex x) \<in> set hash \<or>
      rowIndex x < i \<or> colIndex x < j \<or> row_end x > endRowIndex rg \<or> col_end x > endColIndex rg")
    case True
    then show ?thesis using seen cut x p by force
  next
    case False
    then have "getCells_loop t rg (p # ps) hash acc = getCells_loop t rg ps ((rowIndex x, colIndex x) # hash) (acc @ [c])"
      using x p c by (simp add: need_def)
    moreover have "inside (cell_range x) rg" using False b by (simp add: inside_def cell_range_def)
    ultimately show ?thesis by (rule new)
  qed
  then show ?case
  proof cases
    case seen
    then show ?thesis using IH [of hash acc] x p collected_skip by fastforce
  next
    case new
    then show ?thesis
      using IH [of "(rowIndex x, colIndex x) # hash" "acc @ [c]"] p collected_push [OF _ x new(2) c index_key [OF ix x]] by fastforce
  qed simp
qed (simp add: collected_def)

lemma positions_set:
  "set (positions rg) = {beginRowIndex rg..endRowIndex rg} \<times> {beginColIndex rg..endColIndex rg}"
  by (force simp: positions_def atLeastLessThanSuc_atLeastAtMost simp del: upt_Suc)

subsection \<open>Properties\<close>

text \<open>C37. Listing the cells of a rectangle inside the grid never throws. When it gives a list, the cells listed are
  exactly the cells that cover some position of the rectangle, and each of them lies inside it
  as a whole; otherwise the result is \<open>null\<close>.\<close>

theorem getCells_whole_cells:
  assumes "update ly t0 = Inr t" "endRowIndex rg < rowsNum t" "endColIndex rg < colsNum t"
  shows "\<exists>r. getCells t (Some rg) = Inr (clearSelected t, r) \<and> (\<forall>cs. r = Some cs \<longrightarrow>
    (\<forall>p \<in> set (positions rg). \<exists>x c. idx t (fst p) (snd p) = Inr x \<and> inside (cell_range x) rg \<and>
       c \<in> set cs \<and> cell_at t (fst p) (snd p) = Inr (Some c)) \<and>
    (\<forall>c \<in> set cs. \<exists>p \<in> set (positions rg). cell_at t (fst p) (snd p) = Inr (Some c)))"
proof -
  have ix: "indexed t" using update_indexed [OF assms(1)] by blast
  have in_grid: "\<And>p. p \<in> set (positions rg) \<Longrightarrow>
      fst p < rowsNum t \<and> snd p < colsNum t \<and> beginRowIndex rg \<le> fst p \<and> beginColIndex rg \<le> snd p"
    using assms(2,3) by (auto simp: positions_set)
  have loop: "getCells_loop (clearSelected t) rg ps hash acc = getCells_loop t rg ps hash acc" for ps hash acc
    by (induction t rg ps hash acc rule: getCells_loop.induct) (auto intro!: bind_res_cong)
  obtain r where r: "getCells_loop t rg (positions rg) [] [] = Inr r"
    "\<forall>cs. r = Some cs \<longrightarrow> (\<exists>ds. cs = [] @ ds \<and> collected t rg (positions rg) [] ds)"
    using getCells_loop_ok [OF ix, of "positions rg" rg "[]" "[]"] in_grid by blast
  then have "getCells t (Some rg) = Inr (clearSelected t, r)" by (simp add: getCells_def need_def loop)
  moreover have "collected t rg (positions rg) [] cs \<Longrightarrow> p \<in> set (positions rg) \<Longrightarrow>
      \<exists>x c. idx t (fst p) (snd p) = Inr x \<and> inside (cell_range x) rg \<and> c \<in> set cs \<and> cell_at t (fst p) (snd p) = Inr (Some c)" for cs p
    unfolding collected_def cell_at_def by fastforce
  ultimately show ?thesis using r(2) by (auto simp: collected_def)
qed

text \<open>Three rows; the second cell of the first row reaches into the second row.\<close>

definition corner_table :: uetable where
  "corner_table = demo_table\<lparr>rows := [\<lparr>rcells = [demo_cell 0 1 1, demo_cell 1 2 1], rclass = []\<rparr>,
     \<lparr>rcells = [demo_cell 2 1 1], rclass = []\<rparr>, \<lparr>rcells = [demo_cell 3 1 1, demo_cell 4 1 1], rclass = []\<rparr>], fresh := 5\<rparr>"

definition corner_select :: "nat \<Rightarrow> nat \<Rightarrow> (nat \<times> nat \<times> range \<times> nat list option) option" where
  "corner_select a b = (case update demo_layout corner_table of Inl _ \<Rightarrow> None | Inr t \<Rightarrow>
     (case getCellsRange t (Some a) (Some b) of None \<Rightarrow> None | Some rg \<Rightarrow>
       (case setSelected t (Some rg) of Inl _ \<Rightarrow> None | Inr t' \<Rightarrow> Some (rowsNum t, colsNum t, rg, selectedTds t'))))"

lemma corner_select_eval:
  "corner_select 2 4 = Some (3, 2, \<lparr>beginRowIndex = 1, beginColIndex = 0, endRowIndex = 2, endColIndex = 1\<rparr>, None)"
  "corner_select 2 3 = Some (3, 2, \<lparr>beginRowIndex = 1, beginColIndex = 0, endRowIndex = 2, endColIndex = 0\<rparr>, Some [2, 3])"
  by code_simp+

theorem getCells_whole_cells_witness:
  "\<exists>t r. update demo_layout corner_table = Inr t \<and>
    getCells t (Some \<lparr>beginRowIndex = 1, beginColIndex = 0, endRowIndex = 2, endColIndex = 0\<rparr>) = Inr (clearSelected t, r)"
proof -
  obtain t where t: "update demo_layout corner_table = Inr t" "rowsNum t = 3" "colsNum t = 2"
    using corner_select_eval(1) by (auto simp: corner_select_def split: sum.splits option.splits)
  show ?thesis
    using getCells_whole_cells [OF t(1), of "\<lparr>beginRowIndex = 1, beginColIndex = 0, endRowIndex = 2, endColIndex = 0\<rparr>"] t by auto
qed



text \<open>The widening looks at every border position but the last one of each side. A merged cell that sticks out at
  the corner of the rectangle is missed: selecting from the first cell of the second row to the last cell of the third
  gives a rectangle that cuts the cell above the corner, and the selection becomes \<open>null\<close>.\<close>

theorem getCellsRange_misses_corner:
  "\<exists>t rg t'. update demo_layout corner_table = Inr t \<and> getCellsRange t (Some 2) (Some 4) = Some rg \<and>
    setSelected t (Some rg) = Inr t' \<and> selectedTds t' = None"
  using corner_select_eval(1) by (auto simp: corner_select_def split: sum.splits option.splits)

text \<open>Two cells of two rows and two columns above a single cell.\<close>

definition wide_table :: uetable where
  "wide_table = demo_table\<lparr>rows := [\<lparr>rcells = [demo_cell 0 2 2, demo_cell 1 2 2], rclass = []\<rparr>,
     \<lparr>rcells = [demo_cell 2 1 1], rclass = []\<rparr>], fresh := 3\<rparr>"

definition wide_info :: "(nat \<times> info option) option" where
  "wide_info = (case update demo_layout wide_table of Inl _ \<Rightarrow> None | Inr t \<Rightarrow>
     (case getCellInfo t (Some 2) of Inl _ \<Rightarrow> None | Inr y \<Rightarrow> Some (colsNum t, y)))"

lemma wide_info_eval: "wide_info = Some (4, None)"
  by code_simp

text \<open>\<open>getMaxCols\<close> counts one column for the second cell that reaches into a row, whatever its span: in a table whose
  first row has two cells of two rows and two columns, the cell of the second row is not found by \<open>getCellInfo\<close>.\<close>

theorem getMaxCols_undercounts:
  "\<exists>t. update demo_layout wide_table = Inr t \<and> pos_of wide_table 2 = Some (1, 0) \<and> getCellInfo t (Some 2) = Inr None"
proof -
  have "pos_of wide_table 2 = Some (1, 0)" by code_simp
  then show ?thesis using wide_info_eval by (auto simp: wide_info_def split: sum.splits)
qed

end
