(* ===== verification/TableOps.thy ===== *)
theory TableOps
  imports TableRange "HOL-Library.Multiset"
begin

text \<open>
  \<open>plugins/table.core.js\<close>: the operations that edit a table: merging and splitting cells, inserting and
  deleting rows and columns. Each reads the index, changes rows and cells and ends with
  \<open>update\<close>. The first part defines them, the second shows that every one that returns leaves a
  correct index, the third what they do to a table without merged cells.
\<close>

subsection \<open>Deleting cells, moving content\<close>

definition put_at :: "nat \<Rightarrow> 'a \<Rightarrow> 'a list \<Rightarrow> 'a list" where
  "put_at i c cs = take i cs @ c # drop i cs"

definition delete_at :: "nat \<Rightarrow> nat \<Rightarrow> uetable \<Rightarrow> uetable res" where
  "delete_at ri ci t = bind_res (row_at t ri) (\<lambda>r.
     if ci < length (rcells r) then Inr (upd_row ri (\<lambda>cs. take ci cs @ drop (Suc ci) cs) t) else Inl DomError)"

definition deleteCell :: "nat \<Rightarrow> nat option \<Rightarrow> uetable \<Rightarrow> uetable res" where
  "deleteCell cell ri t = (case pos_of t cell of
     None \<Rightarrow> Inl TypeError
   | Some (r, c) \<Rightarrow> delete_at (case ri of Some i \<Rightarrow> i | None \<Rightarrow> r) c t)"

definition mergeRight :: "layout \<Rightarrow> nat \<Rightarrow> uetable \<Rightarrow> uetable res" where
  "mergeRight ly cell t =
     bind_res (cellInfo_of t (Some cell)) (\<lambda>x.
     bind_res (idx t (rowIndex x) (colIndex x + icolSpan x)) (\<lambda>rx.
     bind_res (cell_of_info t rx) (\<lambda>rightCell. bind_res (need rightCell) (\<lambda>rightCell.
       let t = upd_cell cell (\<lambda>c. del_attr ''width'' (c\<lparr>colSpan := icolSpan x + icolSpan rx\<rparr>)) t in
       bind_res (moveContent ly cell rightCell t) (\<lambda>t.
       bind_res (deleteCell rightCell (Some (rowIndex rx)) t) (update ly))))))"

definition mergeDown :: "layout \<Rightarrow> nat \<Rightarrow> uetable \<Rightarrow> uetable res" where
  "mergeDown ly cell t =
     bind_res (cellInfo_of t (Some cell)) (\<lambda>x.
     bind_res (idx t (rowIndex x + irowSpan x) (colIndex x)) (\<lambda>dx.
     bind_res (cell_of_info t dx) (\<lambda>downCell. bind_res (need downCell) (\<lambda>downCell.
       let t = upd_cell cell (\<lambda>c. del_attr ''height'' (c\<lparr>rowSpan := irowSpan x + irowSpan dx\<rparr>)) t in
       bind_res (moveContent ly cell downCell t) (\<lambda>t.
       bind_res (deleteCell downCell (Some (rowIndex dx)) t) (update ly))))))"

text \<open>\<open>table.deleteRow(i)\<close>, \<open>n\<close> times at the same index.\<close>

fun deleteRows_at :: "nat \<Rightarrow> nat \<Rightarrow> uetable \<Rightarrow> uetable res" where
  "deleteRows_at i 0 t = Inr t"
| "deleteRows_at i (Suc n) t =
     (if i < length (rows t) then deleteRows_at i n (t\<lparr>rows := take i (rows t) @ drop (Suc i) (rows t)\<rparr>) else Inl DomError)"

fun merge_into :: "layout \<Rightarrow> nat \<Rightarrow> nat list \<Rightarrow> uetable \<Rightarrow> uetable res" where
  "merge_into ly to [] t = Inr t"
| "merge_into ly to (c # cs) t =
     (if c \<noteq> to then bind_res (moveContent ly to c t) (\<lambda>t. bind_res (deleteCell c None t) (merge_into ly to cs))
      else merge_into ly to cs t)"

text \<open>The cell and the rectangle that \<open>mergeRange\<close> merges: below a heading the column of the heading.\<close>

definition merge_target :: "uetable \<Rightarrow> (nat \<times> range option) res" where
  "merge_target t = (case cellsRange t of
     None \<Rightarrow> Inl TypeError
   | Some rg \<Rightarrow>
      bind_res (idx t (beginRowIndex rg) (beginColIndex rg)) (\<lambda>x.
      bind_res (getCell t (beginRowIndex rg) (cellIndex x)) (\<lambda>lt. bind_res (need lt) (\<lambda>lt.
      bind_res (the_cell t lt) (\<lambda>c.
        if ctag c = ''TH'' \<and> endRowIndex rg \<noteq> beginRowIndex rg
        then bind_res (cellInfo_of t (Some lt)) (\<lambda>inf.
          bind_res (idx t 1 (colIndex inf)) (\<lambda>y.
          bind_res (getCell t 1 (cellIndex y)) (\<lambda>lt'.
          bind_res (if rowsNum t = 0 then Inl TypeError else cell_at t (rowsNum t - 1) (colIndex inf)) (\<lambda>bottom.
            let rg' = getCellsRange t lt' bottom
            in bind_res (need lt') (\<lambda>l. Inr (l, rg'))))))
        else Inr (lt, Some rg))))))"

text \<open>The spans of the merged cell.\<close>

definition merged_spans :: "range \<Rightarrow> uetable \<Rightarrow> tcell \<Rightarrow> tcell" where
  "merged_spans rg t c =
     (let c = c\<lparr>rowSpan := endRowIndex rg - beginRowIndex rg + 1\<rparr>;
          c = (if rowSpan c > 1 then del_attr ''height'' c else c);
          c = c\<lparr>colSpan := endColIndex rg - beginColIndex rg + 1\<rparr>;
          c = (if colSpan c > 1 then del_attr ''width'' c else c)
      in if rowSpan c = rowsNum t \<and> colSpan c \<noteq> 1 then c\<lparr>colSpan := 1\<rparr> else c)"

text \<open>The rows that a cell over the full width has swallowed. The loop counts from the row after the cell up to its
  row span.\<close>

definition drop_merged_rows :: "nat \<Rightarrow> tcell \<Rightarrow> uetable \<Rightarrow> uetable res" where
  "drop_merged_rows lt c t =
     (if colSpan c = colsNum t \<and> rowSpan c \<noteq> 1
      then (case pos_of t lt of
         None \<Rightarrow> Inl TypeError
       | Some (ri, _) \<Rightarrow> bind_res (deleteRows_at (ri + 1) (rowSpan c - (ri + 1)) t)
           (\<lambda>t. Inr (upd_cell lt (\<lambda>c. c\<lparr>rowSpan := 1\<rparr>) t)))
      else Inr t)"

definition mergeRange :: "layout \<Rightarrow> uetable \<Rightarrow> uetable res" where
  "mergeRange ly t =
     bind_res (merge_target t) (\<lambda>(lt, rg).
     bind_res (getCells t rg) (\<lambda>(t, cells).
     bind_res (need cells) (\<lambda>cells. bind_res (need rg) (\<lambda>rg.
     bind_res (merge_into ly lt cells t) (\<lambda>t.
       let t = upd_cell lt (merged_spans rg t) t in
       bind_res (the_cell t lt) (\<lambda>c.
       bind_res (drop_merged_rows lt c t) (update ly)))))))"

subsection \<open>Rows\<close>

text \<open>
  \<open>replaceTdToTh\<close>: a new element with the first child of the cell takes the place of the cell. Both
  \<open>appendChild\<close> of a missing child and \<open>insertBefore\<close> a cell of another row throw.
\<close>

definition swap_tag :: "string \<Rightarrow> nat \<Rightarrow> nat \<Rightarrow> uetable \<Rightarrow> uetable res" where
  "swap_tag tag cell ri t = bind_res (the_cell t cell) (\<lambda>c. case childNodes c of
     [] \<Rightarrow> Inl TypeError
   | n # _ \<Rightarrow> (case pos_of t cell of
       None \<Rightarrow> Inl TypeError
     | Some (r, i) \<Rightarrow> if r \<noteq> ri then Inl DomError
         else Inr (upd_row ri (\<lambda>cs. cs[i := (new_cell (fresh t) tag)\<lparr>childNodes := [n]\<rparr>])
                (t\<lparr>fresh := Suc (fresh t)\<rparr>))))"

definition row_replaceTdToTh :: "nat \<Rightarrow> nat \<Rightarrow> nat \<Rightarrow> uetable \<Rightarrow> uetable res" where
  "row_replaceTdToTh ci cell ri t =
     (if ci = 0
      then bind_res (if Suc ri < length (rows t) then row_at t (Suc ri) else if ri = 0 then Inl TypeError else row_at t (ri - 1)) (\<lambda>tr.
        bind_res (need (nth_opt (rcells tr) 0)) (\<lambda>th.
          if ctag th = ''TH'' then swap_tag ''TH'' cell ri t else Inr t))
      else bind_res (the_cell t cell) (\<lambda>c. if ctag c = ''TH'' then swap_tag ''TD'' cell ri t else Inr t))"

definition is_title :: "source \<Rightarrow> bool" where
  "is_title src = (case src of SourceTag s \<Rightarrow> toUpperCase s = ''TH'' | _ \<Rightarrow> False)"

text \<open>A copy of the source cell with empty content, appended to row \<open>ri\<close>. (\<open>setAttribute('vAlign', ..)\<close> of the
  value just read changes nothing here.)\<close>

definition append_clone :: "layout \<Rightarrow> source \<Rightarrow> nat \<Rightarrow> uetable \<Rightarrow> (uetable \<times> nat) res" where
  "append_clone ly src ri t = bind_res (cloneCell src True False t) (\<lambda>(t, c).
     Inr (upd_row ri (\<lambda>cs. cs @ [setCellContent ly c]) t, cid c))"

fun insertRow_border :: "layout \<Rightarrow> source \<Rightarrow> nat \<Rightarrow> nat list \<Rightarrow> uetable \<Rightarrow> uetable res" where
  "insertRow_border ly src ri [] t = Inr t"
| "insertRow_border ly src ri (ci # cs) t =
     bind_res (append_clone ly src ri t) (\<lambda>(t, c).
     bind_res (if is_title src then Inr t else row_replaceTdToTh ci c ri t) (insertRow_border ly src ri cs))"

fun insertRow_inner :: "layout \<Rightarrow> source \<Rightarrow> info option list \<Rightarrow> nat \<Rightarrow> nat list \<Rightarrow> uetable \<Rightarrow> uetable res" where
  "insertRow_inner ly src infoRow ri [] t = Inr t"
| "insertRow_inner ly src infoRow ri (ci # cs) t =
     (case nth_opt infoRow ci of
        Some (Some x) \<Rightarrow>
          bind_res (if rowIndex x < ri
            then bind_res (cell_of_info t x) (\<lambda>c. bind_res (need c) (\<lambda>c.
              Inr (upd_cell c (\<lambda>y. y\<lparr>rowSpan := irowSpan x + 1\<rparr>) t, c)))
            else append_clone ly src ri t) (\<lambda>(t, c).
          bind_res (if is_title src then Inr t else row_replaceTdToTh ci c ri t) (insertRow_inner ly src infoRow ri cs))
      | _ \<Rightarrow> Inl TypeError)"

definition insertRow :: "layout \<Rightarrow> nat \<Rightarrow> source \<Rightarrow> uetable \<Rightarrow> uetable res" where
  "insertRow ly ri src t =
     (if length (rows t) < ri then Inl DomError
      else let t1 = t\<lparr>rows := take ri (rows t) @ new_row # drop ri (rows t)\<rparr> in
        bind_res (if ri = 0 \<or> ri = rowsNum t then insertRow_border ly src ri [0..<colsNum t] t1
          else (case nth_opt (indexTable t) ri of
             Some infoRow \<Rightarrow> insertRow_inner ly src infoRow ri [0..<colsNum t] t1
           | None \<Rightarrow> if colsNum t = 0 then Inr t1 else Inl TypeError)) (update ly))"

text \<open>How many columns before \<open>ci\<close> have no cell of their own in row \<open>ri\<close>. (An entry of width zero would keep the
  loop at its place.)\<close>

function merged_before :: "nat \<Rightarrow> nat \<Rightarrow> nat \<Rightarrow> uetable \<Rightarrow> int res" where
  "merged_before ri ci i t =
     (if i < ci then bind_res (idx t ri i) (\<lambda>x.
        if icolSpan x = 0 then Inl OutOfFuel
        else bind_res (merged_before ri ci (i + icolSpan x) t) (\<lambda>k.
          Inr (k + int (icolSpan x) - (if rowIndex x = ri then 1 else 0))))
      else Inr 0)"
  by pat_completeness auto
termination by (relation "measure (\<lambda>(ri, ci, i, t). ci - i)") auto

declare merged_before.simps [simp del]

definition getPreviewMergedCellsNum :: "uetable \<Rightarrow> nat \<Rightarrow> nat \<Rightarrow> int res" where
  "getPreviewMergedCellsNum t ri ci = merged_before ri ci 0 t"

text \<open>The part of a cell over several rows that stays when its first row goes: a copy in the next row.\<close>

definition pass_down :: "nat \<Rightarrow> nat \<Rightarrow> int \<Rightarrow> nat \<Rightarrow> uetable \<Rightarrow> uetable res" where
  "pass_down ri ci cnt cell t =
     bind_res (the_cell t cell) (\<lambda>c.
       let clone = c\<lparr>cid := fresh t, rowSpan := rowSpan c - 1, childNodes := []\<rparr>;
           t = upd_cell cell (\<lambda>x. x\<lparr>rowSpan := 1\<rparr>) (t\<lparr>fresh := Suc (fresh t)\<rparr>) in
       bind_res (getPreviewMergedCellsNum t (ri + 1) ci) (\<lambda>n.
       bind_res (row_at t (ri + 1)) (\<lambda>nextRow.
         let preMerged = n - cnt; at = nat (int ci - preMerged) in
         if preMerged < int ci
         then (if at \<le> length (rcells nextRow) then Inr (upd_row (ri + 1) (put_at at clone) t) else Inl TypeError)
         else Inr (if rcells nextRow = [] then t else upd_row (ri + 1) (\<lambda>cs. clone # cs) t))))"

function deleteRow_loop :: "nat \<Rightarrow> info option list \<Rightarrow> nat \<Rightarrow> nat \<Rightarrow> int \<Rightarrow> uetable \<Rightarrow> uetable res" where
  "deleteRow_loop ri infoRow cn ci cnt t =
     (if ci < cn then (case nth_opt infoRow ci of
        Some (Some x) \<Rightarrow>
          bind_res (cell_of_info t x) (\<lambda>c. bind_res (need c) (\<lambda>cell. bind_res (the_cell t cell) (\<lambda>y.
            if rowSpan y > 1 \<and> rowIndex x = ri
            then bind_res (pass_down ri ci cnt cell t) (deleteRow_loop ri infoRow cn (ci + or1 (colSpan y)) (cnt + 1))
            else deleteRow_loop ri infoRow cn (ci + or1 (colSpan y)) cnt t)))
      | _ \<Rightarrow> Inl TypeError)
      else Inr t)"
  by pat_completeness auto
termination by (relation "measure (\<lambda>(ri, infoRow, cn, ci, cnt, t). cn - ci)") (auto simp: or1_def)

declare deleteRow_loop.simps [simp del]

text \<open>The cells that cover a row, each once.\<close>

fun row_cells :: "info option list \<Rightarrow> (nat \<times> nat) list \<Rightarrow> uetable \<Rightarrow> nat list res" where
  "row_cells [] cacheMap t = Inr []"
| "row_cells (None # xs) cacheMap t = Inl TypeError"
| "row_cells (Some x # xs) cacheMap t =
     (if (rowIndex x, cellIndex x) \<in> set cacheMap then row_cells xs cacheMap t
      else bind_res (cell_of_info t x) (\<lambda>c. bind_res (need c) (\<lambda>c.
        bind_res (row_cells xs ((rowIndex x, cellIndex x) # cacheMap) t) (\<lambda>cs. Inr (c # cs)))))"

definition deleteRow :: "layout \<Rightarrow> nat \<Rightarrow> uetable \<Rightarrow> uetable res" where
  "deleteRow ly ri t =
     (let infoRow = (case nth_opt (indexTable t) ri of Some r \<Rightarrow> r | None \<Rightarrow> []);
          padded_row = take (colsNum t) (infoRow @ replicate (colsNum t) None) in
      bind_res (deleteRow_loop ri infoRow (colsNum t) 0 0 t) (\<lambda>t.
      bind_res (row_cells padded_row [] t) (\<lambda>deleteTds.
      bind_res (seq_map (\<lambda>c. bind_res (the_cell t c) (\<lambda>x. Inr [x])) deleteTds) (\<lambda>xs.
        let gone = map cid (filter (\<lambda>x. rowSpan x = 1) xs); kept = map cid (filter (\<lambda>x. rowSpan x \<noteq> 1) xs);
            t = fold remove_cell gone t;
            t = fold (\<lambda>c. upd_cell c (\<lambda>x. x\<lparr>rowSpan := rowSpan x - 1\<rparr>)) kept t
        in bind_res (row_at t ri) (\<lambda>_. update ly (t\<lparr>rows := take ri (rows t) @ drop (Suc ri) (rows t)\<rparr>))))))"

subsection \<open>Columns\<close>

definition trunc_div :: "int \<Rightarrow> int \<Rightarrow> int" where
  "trunc_div a b = (if a < 0 then - ((- a) div b) else a div b)"

definition col_replaceTdToTh :: "nat \<Rightarrow> nat \<Rightarrow> nat option \<Rightarrow> uetable \<Rightarrow> uetable res" where
  "col_replaceTdToTh ri cell tableRow t =
     (let swap_in = (\<lambda>tag. case tableRow of None \<Rightarrow> Inl TypeError | Some r \<Rightarrow> swap_tag tag cell r t) in
      if ri = 0
      then (case pos_of t cell of
          None \<Rightarrow> Inl TypeError
        | Some (r, c) \<Rightarrow> bind_res (row_at t r) (\<lambda>row.
            bind_res (need (if Suc c < length (rcells row) then nth_opt (rcells row) (Suc c)
                else if c = 0 then None else nth_opt (rcells row) (c - 1))) (\<lambda>th.
              if ctag th = ''TH'' then swap_in ''TH'' else Inr t)))
      else bind_res (the_cell t cell) (\<lambda>c. if ctag c = ''TH'' then swap_in ''TD'' else Inr t))"

text \<open>The new cell of a column: an empty copy of the source with the width of the cell it comes before.\<close>

definition column_cell :: "layout \<Rightarrow> source \<Rightarrow> tcell option \<Rightarrow> uetable \<Rightarrow> (uetable \<times> tcell) res" where
  "column_cell ly src preCell t = bind_res (cloneCell src True False t) (\<lambda>(t, c).
     let c = setCellContent ly c;
         c = set_attr ''vAlign'' (get_attr ''vAlign'' c) c;
         c = (case preCell of Some p \<Rightarrow> set_attr ''width'' (get_attr ''width'' p) c | None \<Rightarrow> c)
     in Inr (t, c))"

definition insertCol_border_row :: "layout \<Rightarrow> source \<Rightarrow> bool \<Rightarrow> nat \<Rightarrow> uetable \<Rightarrow> uetable res" where
  "insertCol_border_row ly src first ri t =
     bind_res (row_at t ri) (\<lambda>row.
     bind_res (column_cell ly src (if first then nth_opt (rcells row) 0 else None) t) (\<lambda>(t, c).
     bind_res (if first then Inr (upd_row ri (\<lambda>cs. c # cs) t)
       else if rcells row = [] then Inl TypeError else Inr (upd_row ri (\<lambda>cs. cs @ [c]) t)) (\<lambda>t.
       if is_title src then Inr t else col_replaceTdToTh ri (cid c) (Some ri) t)))"

text \<open>In the inner loop the variable \<open>tableRow\<close> keeps the row of an earlier round when a merged cell is widened.\<close>

fun insertCol_inner :: "layout \<Rightarrow> source \<Rightarrow> nat \<Rightarrow> nat option \<Rightarrow> nat list \<Rightarrow> uetable \<Rightarrow> uetable res" where
  "insertCol_inner ly src ci tableRow [] t = Inr t"
| "insertCol_inner ly src ci tableRow (ri # rs) t =
     bind_res (idx t ri ci) (\<lambda>x.
       if colIndex x < ci
       then bind_res (cell_of_info t x) (\<lambda>c. bind_res (need c) (\<lambda>c.
         let t = upd_cell c (\<lambda>y. y\<lparr>colSpan := icolSpan x + 1\<rparr>) t in
         bind_res (if is_title src then Inr t else col_replaceTdToTh ri c tableRow t) (insertCol_inner ly src ci tableRow rs)))
       else bind_res (row_at t ri) (\<lambda>row.
         let preCell = nth_opt (rcells row) (cellIndex x) in
         bind_res (column_cell ly src preCell t) (\<lambda>(t, c).
         let at = (case preCell of Some _ \<Rightarrow> cellIndex x | None \<Rightarrow> length (rcells row));
             t = upd_row ri (put_at at c) t in
         bind_res (if is_title src then Inr t else col_replaceTdToTh ri (cid c) (Some ri) t)
           (insertCol_inner ly src ci (Some ri) rs))))"

definition updateWidth :: "layout \<Rightarrow> int \<Rightarrow> int \<Rightarrow> int \<Rightarrow> uetable \<Rightarrow> uetable" where
  "updateWidth ly width padding border t =
     (let tmpWidth = tableWidth ly t - padding * 2 - border + width in
      if tmpWidth < bodyOffsetWidth ly t then t\<lparr>tattrs := obj_set ''width'' (int_str tmpWidth) (tattrs t)\<rparr>
      else t\<lparr>rows := map (\<lambda>r. r\<lparr>rcells := map (set_attr ''width'' (Some (int_str width))) (rcells r)\<rparr>) (rows t)\<rparr>)"

definition insertCol :: "layout \<Rightarrow> nat \<Rightarrow> source \<Rightarrow> (int \<times> int) option \<Rightarrow> uetable \<Rightarrow> uetable res" where
  "insertCol ly ci src defaultValue t =
     (let cn1 = int (colsNum t) + 1;
          backWidth = trunc_div (tableOffsetWidth ly t - cn1 * 20 - cn1) cn1;
          (padding, border) = (case defaultValue of Some d \<Rightarrow> d | None \<Rightarrow> (10, 1))
      in bind_res (if ci = 0 \<or> ci = colsNum t
           then fold_res (insertCol_border_row ly src (ci = 0)) [0..<rowsNum t] t
           else insertCol_inner ly src ci None [0..<rowsNum t] t) (\<lambda>t.
         bind_res (update ly t) (\<lambda>t. Inr (updateWidth ly backWidth padding border t))))"

text \<open>The number of an attribute value, when it is an integer; \<open>None\<close> is not a number.\<close>

definition attr_number :: "string option \<Rightarrow> int option" where
  "attr_number v = (case v of None \<Rightarrow> Some 0 | Some s \<Rightarrow>
     if s = [] then Some 0 else if list_all is_digit s then map_option int (parse_digits s)
     else if hd s = CHR ''-'' \<and> list_all is_digit (tl s) then map_option (\<lambda>n. - int n) (parse_digits (tl s)) else None)"

text \<open>A position whose cell was seen before keeps the loop of \<open>deleteCol\<close> at its place for ever.\<close>

function deleteCol_loop :: "layout \<Rightarrow> nat \<Rightarrow> nat \<Rightarrow> nat \<Rightarrow> (nat \<times> nat) list \<Rightarrow> int option \<Rightarrow> uetable \<Rightarrow> (uetable \<times> int option) res" where
  "deleteCol_loop ly rn ci ri cacheMap backTdWidth t =
     (if ri < rn then bind_res (idx t ri ci) (\<lambda>x.
        if (rowIndex x, colIndex x) \<in> set cacheMap then Inl OutOfFuel
        else bind_res (cell_of_info t x) (\<lambda>c. bind_res (need c) (\<lambda>cell. bind_res (the_cell t cell) (\<lambda>y.
          let w = (case backTdWidth of Some w \<Rightarrow> w | None \<Rightarrow> trunc_div (cellOffsetWidth ly t cell) (int (or1 (colSpan y)))) in
          bind_res (if colSpan y > 1 then Inr (upd_cell cell (\<lambda>z. z\<lparr>colSpan := colSpan z - 1\<rparr>) t)
            else delete_at ri (cellIndex x) t)
            (deleteCol_loop ly rn ci (ri + or1 (irowSpan x)) ((rowIndex x, colIndex x) # cacheMap) (Some w))))))
      else Inr (t, backTdWidth))"
  by pat_completeness auto
termination by (relation "measure (\<lambda>(ly, rn, ci, ri, cm, w, t). rn - ri)") (auto simp: or1_def)

declare deleteCol_loop.simps [simp del]

definition deleteCol :: "layout \<Rightarrow> nat \<Rightarrow> uetable \<Rightarrow> uetable res" where
  "deleteCol ly ci t =
     (let backTableWidth = attr_number (obj_get (tattrs t) ''width'') in
      bind_res (deleteCol_loop ly (rowsNum t) ci 0 [] None t) (\<lambda>(t, backTdWidth).
        let w = (case backTableWidth of None \<Rightarrow> ''NaN''
          | Some b \<Rightarrow> int_str (b - (case backTdWidth of Some d \<Rightarrow> d | None \<Rightarrow> 0)))
        in update ly (t\<lparr>tattrs := obj_set ''width'' w (tattrs t)\<rparr>)))"

subsection \<open>Splitting\<close>

text \<open>\<open>row.insertCell(i)\<close>: an empty cell at that index; \<open>-1\<close> appends.\<close>

definition insertCell :: "nat \<Rightarrow> int \<Rightarrow> (tcell \<Rightarrow> tcell) \<Rightarrow> uetable \<Rightarrow> (uetable \<times> nat) res" where
  "insertCell ri i f t = bind_res (row_at t ri) (\<lambda>row.
     let at = (if i = - 1 then length (rcells row) else nat i) in
     if i < - 1 \<or> length (rcells row) < at then Inl DomError
     else Inr (upd_row ri (put_at at (f (new_cell (fresh t) ''TD''))) (t\<lparr>fresh := Suc (fresh t)\<rparr>), fresh t))"

text \<open>What a new cell takes over from the cell that is split.\<close>

definition like_cell :: "layout \<Rightarrow> tcell \<Rightarrow> tcell \<Rightarrow> tcell" where
  "like_cell ly cell c =
     (let c = set_attr ''align'' (get_attr ''align'' cell) (set_attr ''vAlign'' (get_attr ''vAlign'' cell) (setCellContent ly c))
      in if cstyle cell = [] then c else c\<lparr>cstyle := cstyle cell\<rparr>)"

fun splitToRows_loop :: "layout \<Rightarrow> nat \<Rightarrow> info \<Rightarrow> nat list \<Rightarrow> nat list \<Rightarrow> uetable \<Rightarrow> (uetable \<times> nat list) res" where
  "splitToRows_loop ly cell x [] results t = Inr (t, results)"
| "splitToRows_loop ly cell x (i # is) results t =
     bind_res (row_at t i) (\<lambda>_.
     bind_res (getPreviewMergedCellsNum t i (colIndex x)) (\<lambda>n.
     bind_res (the_cell t cell) (\<lambda>c.
     bind_res (insertCell i (int (colIndex x) - n) (\<lambda>d. like_cell ly c (d\<lparr>colSpan := icolSpan x\<rparr>)) t) (\<lambda>(t, d).
       splitToRows_loop ly cell x is (results @ [d]) t))))"

definition splitToRows :: "layout \<Rightarrow> nat \<Rightarrow> uetable \<Rightarrow> (uetable \<times> nat list) res" where
  "splitToRows ly cell t =
     bind_res (cellInfo_of t (Some cell)) (\<lambda>x.
     bind_res (splitToRows_loop ly cell x [Suc (rowIndex x)..<rowIndex x + irowSpan x] [cell]
         (upd_cell cell (\<lambda>c. c\<lparr>rowSpan := 1\<rparr>) t)) (\<lambda>(t, results).
     bind_res (update ly t) (\<lambda>t. Inr (t, results))))"

text \<open>\<open>(offsetWidth / colSpan - 22).toFixed(0)\<close>: the nearest integer, halves away from zero.\<close>

definition split_width :: "int \<Rightarrow> int \<Rightarrow> string" where
  "split_width w n = (let a = w - 22 * n; r = (2 * \<bar>a\<bar> + n) div (2 * n) in
     if a < 0 then CHR ''-'' # int_str r else int_str r)"

text \<open>For a heading the new cell is replaced by a heading, while the list of results keeps the new cell.\<close>

fun splitToCols_loop :: "layout \<Rightarrow> string \<Rightarrow> nat \<Rightarrow> info \<Rightarrow> nat list \<Rightarrow> nat list \<Rightarrow> uetable \<Rightarrow> (uetable \<times> nat list) res" where
  "splitToCols_loop ly w cell x [] results t = Inr (t, results)"
| "splitToCols_loop ly w cell x (j # js) results t =
     bind_res (idx t (rowIndex x) j) (\<lambda>y.
     bind_res (the_cell t cell) (\<lambda>c.
     bind_res (insertCell (rowIndex x) (int (cellIndex y) + 1)
         (\<lambda>d. set_attr ''width'' (Some w) (like_cell ly c (d\<lparr>rowSpan := irowSpan x\<rparr>))) t) (\<lambda>(t, d).
     bind_res (if ctag c = ''TH''
       then bind_res (swap_tag ''TH'' d (rowIndex x) t) (\<lambda>t'.
         Inr (upd_cell (fresh t) (\<lambda>h. (set_attr ''vAlign'' (get_attr ''vAlign'' c) h)\<lparr>rowSpan := irowSpan x\<rparr>) t'))
       else Inr t)
       (splitToCols_loop ly w cell x js (results @ [d])))))"

definition splitToCols :: "layout \<Rightarrow> nat \<Rightarrow> uetable \<Rightarrow> (uetable \<times> nat list) res" where
  "splitToCols ly cell t =
     bind_res (the_cell t cell) (\<lambda>c.
     let w = split_width (cellOffsetWidth ly t cell) (int (or1 (colSpan c))) in
     bind_res (cellInfo_of t (Some cell)) (\<lambda>x.
     bind_res (splitToCols_loop ly w cell x [Suc (colIndex x)..<colIndex x + icolSpan x] [cell]
         (upd_cell cell (\<lambda>c. set_attr ''width'' (Some w) (c\<lparr>colSpan := 1\<rparr>)) t)) (\<lambda>(t, results).
     bind_res (update ly t) (\<lambda>t. Inr (t, results)))))"

definition splitToCells :: "layout \<Rightarrow> nat \<Rightarrow> uetable \<Rightarrow> uetable res" where
  "splitToCells ly cell t =
     bind_res (splitToRows ly cell t) (\<lambda>(t, cells).
       fold_res (\<lambda>c t. bind_res (splitToCols ly c t) (\<lambda>(t, _). Inr t)) cells t)"

subsection \<open>Identities\<close>

text \<open>An operation may drop cells and create cells with new numbers, each once.\<close>

definition ids :: "uetable \<Rightarrow> nat multiset" where
  "ids t = mset (map cid (all_cells t))"

definition grows :: "uetable \<Rightarrow> uetable \<Rightarrow> bool" where
  "grows t t' \<longleftrightarrow> fresh t \<le> fresh t' \<and> ids t' \<subseteq># ids t + mset [fresh t..<fresh t']"

lemma grows_refl [simp, intro]: "grows t t"
  by (simp add: grows_def)

lemma grows_trans [trans]: "grows t t' \<Longrightarrow> grows t' t'' \<Longrightarrow> grows t t''"
proof -
  assume a: "grows t t'" and b: "grows t' t''"
  have "ids t'' \<subseteq># ids t' + mset [fresh t'..<fresh t'']" using b by (simp add: grows_def)
  also have "\<dots> \<subseteq># (ids t + mset [fresh t..<fresh t']) + mset [fresh t'..<fresh t'']"
    using a by (simp add: grows_def)
  also have "\<dots> = ids t + mset [fresh t..<fresh t'']"
  proof -
    have "[fresh t..<fresh t''] = [fresh t..<fresh t'] @ [fresh t'..<fresh t'']"
      using a b by (metis grows_def le_Suc_ex upt_add_eq_append)
    then show ?thesis by simp
  qed
  finally show ?thesis using a b by (auto simp: grows_def)
qed

lemma grows_fresh_ids:
  assumes "grows t t'" "fresh_ids t"
  shows "fresh_ids t'"
proof -
  let ?M = "ids t + mset [fresh t..<fresh t']"
  have old: "distinct (map cid (all_cells t) @ [fresh t..<fresh t'])"
    using assms(2) by (auto simp: fresh_ids_def)
  have M: "?M = mset (map cid (all_cells t) @ [fresh t..<fresh t'])" by (simp add: ids_def)
  have "ids t' \<subseteq># ?M" using assms(1) by (simp add: grows_def)
  then have le: "count (ids t') x \<le> count ?M x" for x by (rule mset_subset_eq_count)
  have "count ?M x \<le> 1" for x unfolding M using old by (simp only: distinct_count_atmost_1) simp
  then have "count (mset (map cid (all_cells t'))) x \<le> 1" for x using le [of x] by (metis ids_def order_trans)
  then have "distinct (map cid (all_cells t'))"
    unfolding distinct_count_atmost_1
    by (metis count_eq_zero_iff le_antisym less_one linorder_not_le nle_le set_mset_mset)
  moreover have "set (map cid (all_cells t')) \<subseteq> set (map cid (all_cells t)) \<union> set [fresh t..<fresh t']"
    using assms(1) set_mset_mono [of "ids t'" ?M] by (simp add: grows_def ids_def)
  ultimately show ?thesis using assms by (force simp: fresh_ids_def grows_def)
qed

lemma ids_rows: "ids t = mset (concat (map (\<lambda>r. map cid (rcells r)) (rows t)))"
  by (simp add: ids_def all_cells_def map_concat comp_def)

lemma upd_cell_cids:
  "(\<And>x. cid (f x) = cid x) \<Longrightarrow> map (\<lambda>r. map cid (rcells r)) (rows (upd_cell c f t)) = map (\<lambda>r. map cid (rcells r)) (rows t)"
  by (simp add: upd_cell_def)

lemma fresh_upd_cell [simp]: "fresh (upd_cell c f t) = fresh t"
  by (simp add: upd_cell_def)

lemma ids_upd_cell: "(\<And>x. cid (f x) = cid x) \<Longrightarrow> ids (upd_cell c f t) = ids t"
  by (simp only: ids_rows upd_cell_cids)

lemma grows_upd_cell: "(\<And>x. cid (f x) = cid x) \<Longrightarrow> grows t (upd_cell c f t)"
  by (simp add: grows_def ids_upd_cell)

lemma fresh_upd_row [simp]: "fresh (upd_row i f t) = fresh t"
  by (simp add: upd_row_def split: option.splits)

lemma ids_upd_row_le:
  assumes "\<And>cs. mset (map cid (f cs)) \<subseteq># mset (map cid cs) + N"
  shows "ids (upd_row i f t) \<subseteq># ids t + N"
proof (cases "i < length (rows t)")
  case True
  let ?g = "\<lambda>r. map cid (rcells r)"
  let ?r = "rows t ! i"
  have old: "ids t = mset (concat (map ?g (take i (rows t)))) + (mset (?g ?r) + mset (concat (map ?g (drop (Suc i) (rows t)))))"
    unfolding ids_rows concat_map_split [OF True, of ?g] by simp
  have new: "ids (upd_row i f t) = mset (concat (map ?g (take i (rows t)))) + (mset (map cid (f (rcells ?r))) + mset (concat (map ?g (drop (Suc i) (rows t)))))"
    using True by (simp add: ids_rows upd_row_def nth_opt_def concat_map_update del: mset_map map_map)
  have "mset (map cid (f (rcells ?r))) \<subseteq># mset (?g ?r) + N" by (rule assms)
  then have "mset (concat (map ?g (take i (rows t)))) + (mset (map cid (f (rcells ?r))) + mset (concat (map ?g (drop (Suc i) (rows t))))) \<subseteq>#
      mset (concat (map ?g (take i (rows t)))) + ((mset (?g ?r) + N) + mset (concat (map ?g (drop (Suc i) (rows t)))))"
    by (intro mset_subset_eq_mono_add) auto
  then show ?thesis unfolding old new by (simp only: ac_simps)
next
  case False
  then show ?thesis by (simp add: upd_row_def nth_opt_def)
qed

lemma grows_upd_row: "(\<And>cs. mset (map cid (f cs)) \<subseteq># mset (map cid cs)) \<Longrightarrow> grows t (upd_row i f t)"
  using ids_upd_row_le [of f "{#}" i t] by (simp add: grows_def)

lemma grows_insert:
  assumes "grows t t1" "fresh t1 = Suc n" "\<And>cs. mset (map cid (f cs)) \<subseteq># add_mset n (mset (map cid cs))"
    and "ids t1 \<subseteq># ids t" "fresh t = n"
  shows "grows t (upd_row i f t1)"
proof -
  have "ids (upd_row i f t1) \<subseteq># ids t1 + {#n#}" using assms(3) by (intro ids_upd_row_le) simp
  also have "\<dots> \<subseteq># ids t + mset [fresh t..<fresh (upd_row i f t1)]" using assms by simp
  finally show ?thesis using assms by (simp add: grows_def)
qed

text \<open>The cells an operation changes keep their numbers.\<close>

lemma cid_keeps [simp]:
  "cid (set_attr k v x) = cid x" "cid (del_attr k x) = cid x" "cid (set_style k w x) = cid x" "cid (setCellContent ly x) = cid x"
  "cid (merged_spans rg t x) = cid x" "cid (new_cell n tag) = n" "cid (like_cell ly c x) = cid x"
  by (simp_all add: set_attr_def del_attr_def set_style_def setCellContent_def merged_spans_def new_cell_def like_cell_def Let_def)

lemma bind_res_Inr: "bind_res r f = Inr y \<longleftrightarrow> (\<exists>x. r = Inr x \<and> f x = Inr y)"
  by (cases r) auto

lemma need_Inr: "need x = Inr y \<longleftrightarrow> x = Some y"
  by (cases x) (auto simp: need_def)

lemmas run_simps = bind_res_Inr need_Inr Let_def

lemma grows_moveContent:
  assumes "moveContent ly a b t = Inr t'"
  shows "grows t t'"
proof -
  obtain src where src: "the_cell t b = Inr src" using assms by (auto simp: moveContent_def run_simps)
  show ?thesis
  proof (cases "isEmptyBlock ly src")
    case True
    then show ?thesis using assms src by (simp add: moveContent_def)
  next
    case False
    then obtain dst where dst: "the_cell t a = Inr dst" using assms src by (auto simp: moveContent_def run_simps)
    show ?thesis
    proof (cases "isEmptyBlock ly dst")
      case True
      then show ?thesis using assms src dst False by (auto simp: moveContent_def intro: grows_upd_cell)
    next
      case ne: False
      then show ?thesis using assms src dst False
        by (cases "rev (childNodes dst)") (auto simp: moveContent_def Let_def intro: grows_trans [OF grows_upd_cell grows_upd_cell])
    qed
  qed
qed

lemma grows_delete_at: "delete_at ri ci t = Inr t' \<Longrightarrow> grows t t'"
proof -
  assume "delete_at ri ci t = Inr t'"
  then have "t' = upd_row ri (\<lambda>cs. take ci cs @ drop (Suc ci) cs) t" by (auto simp: delete_at_def run_simps split: if_splits)
  moreover have sub: "mset (map cid (take ci cs @ drop (Suc ci) cs)) \<subseteq># mset (map cid cs)" for cs :: "tcell list"
  proof (cases "ci < length cs")
    case True
    then have "mset (map cid cs) = mset (map cid (take ci cs @ cs ! ci # drop (Suc ci) cs))" by (simp only: id_take_nth_drop [symmetric])
    then show ?thesis by simp
  qed simp
  moreover have "grows t (upd_row ri (\<lambda>cs. take ci cs @ drop (Suc ci) cs) t)" by (rule grows_upd_row) (rule sub)
  ultimately show ?thesis by simp
qed

lemma grows_deleteCell: "deleteCell c ri t = Inr t' \<Longrightarrow> grows t t'"
  by (auto simp: deleteCell_def split: option.splits dest: grows_delete_at)

lemma grows_merge_into: "merge_into ly to cs t = Inr t' \<Longrightarrow> grows t t'"
proof (induction ly to cs t rule: merge_into.induct)
  case (2 ly to c cs t)
  show ?case
  proof (cases "c = to")
    case False
    then obtain t1 t2 where "moveContent ly to c t = Inr t1" "deleteCell c None t1 = Inr t2" "merge_into ly to cs t2 = Inr t'"
      using 2(3) by (auto simp: run_simps)
    then have "grows t t1" "grows t1 t2" "grows t2 t'" using 2(1) False grows_moveContent grows_deleteCell by blast+
    then show ?thesis using grows_trans by blast
  qed (use 2 in simp)
qed simp

lemma grows_rows_drop: "grows t (t\<lparr>rows := take i (rows t) @ drop (Suc i) (rows t)\<rparr>)"
proof (cases "i < length (rows t)")
  case True
  show ?thesis
    using concat_map_split [OF True, of "\<lambda>r. map cid (rcells r)"] by (simp add: grows_def ids_rows)
qed (simp add: grows_def ids_rows)

lemma grows_deleteRows_at: "deleteRows_at i n t = Inr t' \<Longrightarrow> grows t t'"
proof (induction i n t rule: deleteRows_at.induct)
  case (2 i n t)
  then show ?case using grows_rows_drop [of t i] by (auto split: if_splits intro: grows_trans)
qed simp

lemma grows_clearSelected: "grows t (clearSelected t)"
proof -
  have "fresh (removeSelectedClass cs t) = fresh t" for cs t
    unfolding removeSelectedClass_def by (induction cs arbitrary: t) auto
  then have "fresh (clearSelected t) = fresh t" by (simp add: clearSelected_def)
  moreover have "ids (clearSelected t) = ids t" unfolding ids_rows using clearSelected_keeps by metis
  ultimately show ?thesis by (simp add: grows_def)
qed

lemma grows_getCells: "getCells t rg = Inr (t', cs) \<Longrightarrow> grows t t'"
  using grows_clearSelected by (auto simp: getCells_def run_simps)

lemma cloneCell_fresh:
  assumes "cloneCell src a b t = Inr (t', c)"
  shows "fresh t' = Suc (fresh t) \<and> cid c = fresh t \<and> ids t' = ids t \<and> rowsNum t' = rowsNum t \<and> colsNum t' = colsNum t"
proof (cases src)
  case (SourceCell d)
  have "ids (upd_cell d f (t\<lparr>fresh := n\<rparr>)) = ids t" if "\<And>x. cid (f x) = cid x" for f n
    using ids_upd_cell [OF that, where t = "t\<lparr>fresh := n\<rparr>"] by (simp add: ids_def all_cells_def)
  then show ?thesis using assms SourceCell by (auto simp: cloneCell_def run_simps upd_cell_def)
qed (use assms in \<open>auto simp: cloneCell_def ids_def all_cells_def\<close>)

lemma grows_clone:
  assumes "cloneCell src a b t = Inr (t', c)"
  shows "grows t t'"
  using cloneCell_fresh [OF assms] by (simp add: grows_def)

lemma grows_put_clone:
  assumes "cloneCell src a b t = Inr (t1, c)" "cid d = cid c"
    "\<And>cs. mset (map cid (f cs)) \<subseteq># add_mset (cid d) (mset (map cid cs))"
  shows "grows t (upd_row i f t1)"
  using cloneCell_fresh [OF assms(1)] assms(2,3) grows_clone [OF assms(1)] by (intro grows_insert [where n = "fresh t"]) auto

lemma grows_append_clone: "append_clone ly src ri t = Inr (t', c) \<Longrightarrow> grows t t'"
proof -
  assume "append_clone ly src ri t = Inr (t', c)"
  then obtain t1 d where "cloneCell src True False t = Inr (t1, d)" "t' = upd_row ri (\<lambda>cs. cs @ [setCellContent ly d]) t1"
    by (auto simp: append_clone_def run_simps)
  then show ?thesis using grows_put_clone [of src True False t t1 d "setCellContent ly d"] by simp
qed

lemma ids_fresh [simp]: "ids (t\<lparr>fresh := n\<rparr>) = ids t"
  by (simp add: ids_def all_cells_def)

lemma grows_new:
  assumes "\<And>cs. mset (map cid (f cs)) \<subseteq># add_mset (fresh t) (mset (map cid cs))"
  shows "grows t (upd_row i f (t\<lparr>fresh := Suc (fresh t)\<rparr>))"
  by (rule grows_insert [where n = "fresh t"]) (use assms in \<open>auto simp: grows_def\<close>)

lemma mset_update_le: "mset (map cid (cs[i := c])) \<subseteq># add_mset (cid c) (mset (map cid cs))"
proof (cases "i < length cs")
  case True
  then have "mset (map cid (cs[i := c])) = mset (map cid (take i cs)) + add_mset (cid c) (mset (map cid (drop (Suc i) cs)))"
    by (simp add: upd_conv_take_nth_drop)
  moreover have "mset (map cid cs) = mset (map cid (take i cs @ cs ! i # drop (Suc i) cs))"
    using True by (simp only: id_take_nth_drop [symmetric])
  ultimately show ?thesis by (simp del: append_take_drop_id)
qed (simp add: list_update_beyond)

lemma mset_insert_le: "mset (map cid (put_at i c cs)) \<subseteq># add_mset (cid c) (mset (map cid cs))"
proof -
  have "mset (map cid cs) = mset (map cid (take i cs @ drop i cs))" by simp
  then show ?thesis unfolding put_at_def by (simp del: append_take_drop_id)
qed

lemma grows_swap_tag: "swap_tag tag c ri t = Inr t' \<Longrightarrow> grows t t'"
proof -
  assume "swap_tag tag c ri t = Inr t'"
  then obtain x where "the_cell t c = Inr x" "childNodes x \<noteq> []" and run: "swap_tag tag c ri t = Inr t'"
    by (cases "the_cell t c") (auto simp: swap_tag_def split: list.splits)
  then obtain i n where "t' = upd_row ri (\<lambda>cs. cs[i := (new_cell (fresh t) tag)\<lparr>childNodes := [n]\<rparr>]) (t\<lparr>fresh := Suc (fresh t)\<rparr>)"
    by (cases "childNodes x"; cases "pos_of t c") (auto simp: swap_tag_def split: if_splits)
  moreover have "mset (map cid (cs[i := (new_cell (fresh t) tag)\<lparr>childNodes := [n]\<rparr>])) \<subseteq># add_mset (fresh t) (mset (map cid cs))" for cs
    using mset_update_le [of cs i "(new_cell (fresh t) tag)\<lparr>childNodes := [n]\<rparr>"] by (simp add: new_cell_def)
  ultimately show ?thesis by (simp add: grows_new del: mset_map)
qed

lemma grows_row_replace: "row_replaceTdToTh ci c ri t = Inr t' \<Longrightarrow> grows t t'"
  by (auto simp: row_replaceTdToTh_def run_simps dest: grows_swap_tag split: if_splits)

lemma grows_col_replace: "col_replaceTdToTh ri c tr t = Inr t' \<Longrightarrow> grows t t'"
  by (auto simp: col_replaceTdToTh_def run_simps dest: grows_swap_tag split: if_splits option.splits)

lemma grows_insertRow_border: "insertRow_border ly src ri cs t = Inr t' \<Longrightarrow> grows t t'"
proof (induction ly src ri cs t rule: insertRow_border.induct)
  case (2 ly src ri ci cs t)
  then obtain t1 c t2 where s: "append_clone ly src ri t = Inr (t1, c)"
    "(if is_title src then Inr t1 else row_replaceTdToTh ci c ri t1) = Inr t2" "insertRow_border ly src ri cs t2 = Inr t'"
    by (auto simp: run_simps split: prod.splits)
  have "grows t t1" using s(1) by (rule grows_append_clone)
  moreover have "grows t1 t2" using s(2) by (auto split: if_splits dest: grows_row_replace)
  moreover have "grows t2 t'" using 2(1) [OF s(1) refl s(2,3)] .
  ultimately show ?case using grows_trans by blast
qed simp

lemma grows_insertRow_inner: "insertRow_inner ly src infoRow ri cs t = Inr t' \<Longrightarrow> grows t t'"
proof (induction ly src infoRow ri cs t rule: insertRow_inner.induct)
  case (2 ly src infoRow ri ci cs t)
  then obtain x where x: "nth_opt infoRow ci = Some (Some x)" by (auto split: option.splits)
  with 2 obtain t1 c t2 where s: "(if rowIndex x < ri
            then bind_res (cell_of_info t x) (\<lambda>c. bind_res (need c) (\<lambda>c.
              Inr (upd_cell c (\<lambda>y. y\<lparr>rowSpan := irowSpan x + 1\<rparr>) t, c)))
            else append_clone ly src ri t) = Inr (t1, c)"
    "(if is_title src then Inr t1 else row_replaceTdToTh ci c ri t1) = Inr t2" "insertRow_inner ly src infoRow ri cs t2 = Inr t'"
    by (auto simp: bind_res_Inr split: prod.splits)
  have "grows t t1" using s(1) by (auto simp: run_simps split: if_splits intro: grows_upd_cell dest: grows_append_clone)
  moreover have "grows t1 t2" using s(2) by (auto split: if_splits dest: grows_row_replace)
  moreover have "grows t2 t'" using 2(1) [OF x refl s(1) refl] s(2,3) by blast
  ultimately show ?case using grows_trans by blast
qed simp

lemma grows_new_row: "grows t (t\<lparr>rows := take ri (rows t) @ new_row # drop ri (rows t)\<rparr>)"
proof -
  have "concat (map (\<lambda>r. map cid (rcells r)) (rows t)) = concat (map (\<lambda>r. map cid (rcells r)) (take ri (rows t) @ drop ri (rows t)))"
    by simp
  then show ?thesis by (simp add: grows_def ids_rows new_row_def del: append_take_drop_id)
qed

lemma grows_pass_down: "pass_down ri ci cnt cell t = Inr t' \<Longrightarrow> grows t t'"
proof -
  assume run: "pass_down ri ci cnt cell t = Inr t'"
  then obtain c where c: "the_cell t cell = Inr c" by (auto simp: pass_down_def run_simps)
  define clone where "clone = c\<lparr>cid := fresh t, rowSpan := rowSpan c - 1, childNodes := []\<rparr>"
  define t1 where "t1 = upd_cell cell (\<lambda>x. x\<lparr>rowSpan := 1\<rparr>) (t\<lparr>fresh := Suc (fresh t)\<rparr>)"
  have t1: "ids t1 = ids t" "fresh t1 = Suc (fresh t)" by (simp_all add: t1_def ids_upd_cell)
  then have g1: "grows t t1" by (simp add: grows_def)
  have put: "grows t (upd_row i f t1)" if "\<And>cs. mset (map cid (f cs)) \<subseteq># add_mset (fresh t) (mset (map cid cs))" for i f
    by (rule grows_insert [OF g1 t1(2) that]) (simp_all add: t1)
  have cid: "cid clone = fresh t" by (simp add: clone_def)
  obtain n nextRow where "getPreviewMergedCellsNum t1 (ri + 1) ci = Inr n" "row_at t1 (ri + 1) = Inr nextRow"
    and r: "(let preMerged = n - cnt; at = nat (int ci - preMerged) in
         if preMerged < int ci
         then (if at \<le> length (rcells nextRow) then Inr (upd_row (ri + 1) (put_at at clone) t1) else Inl TypeError)
         else Inr (if rcells nextRow = [] then t1 else upd_row (ri + 1) (\<lambda>cs. clone # cs) t1)) = Inr t'"
    using run unfolding pass_down_def c bind_res_simps Let_def clone_def [symmetric] t1_def [symmetric] bind_res_Inr by blast
  have "grows t (upd_row i (put_at k clone) t1)" for i k
    by (rule put) (use mset_insert_le [of k clone] cid in simp)
  moreover have "grows t (upd_row i (\<lambda>cs. clone # cs) t1)" for i by (rule put) (simp add: cid)
  ultimately show ?thesis using r g1 by (auto simp: Let_def split: if_splits)
qed

lemma grows_deleteRow_loop: "deleteRow_loop ri infoRow cn ci cnt t = Inr t' \<Longrightarrow> grows t t'"
proof (induction ri infoRow cn ci cnt t rule: deleteRow_loop.induct)
  case (1 ri infoRow cn ci cnt t)
  show ?case
  proof (cases "ci < cn")
    case True
    then obtain x where x: "nth_opt infoRow ci = Some (Some x)"
      using 1(3) by (subst (asm) deleteRow_loop.simps) (auto split: option.splits)
    obtain c y where c: "cell_of_info t x = Inr (Some c)" "the_cell t c = Inr y"
      using 1(3) True x by (subst (asm) deleteRow_loop.simps) (auto simp: run_simps)
    show ?thesis
    proof (cases "rowSpan y > 1 \<and> rowIndex x = ri")
      case pass: True
      then obtain t1 where t1: "pass_down ri ci cnt c t = Inr t1" "deleteRow_loop ri infoRow cn (ci + or1 (colSpan y)) (cnt + 1) t1 = Inr t'"
        using 1(3) True x c by (subst (asm) deleteRow_loop.simps) (auto simp: run_simps need_def)
      have "grows t1 t'" using 1(1) [OF True x refl c(1) _ c(2) pass t1] by (simp add: need_def)
      then show ?thesis using grows_pass_down [OF t1(1)] grows_trans by blast
    next
      case pass: False
      then have "deleteRow_loop ri infoRow cn (ci + or1 (colSpan y)) cnt t = Inr t'"
        using 1(3) True x c by (subst (asm) deleteRow_loop.simps) (auto simp: run_simps need_def split: if_splits)
      then show ?thesis using 1(2) [OF True x refl c(1) _ c(2) pass] by (simp add: need_def)
    qed
  next
    case False
    then show ?thesis using 1(3) by (subst (asm) deleteRow_loop.simps) simp
  qed
qed

lemma grows_fold: "(\<And>x t. grows t (f x t)) \<Longrightarrow> grows t (fold f xs t)"
  by (induction xs arbitrary: t) (auto intro: grows_trans)

lemma grows_fold_res: "(\<And>x t t'. f x t = Inr t' \<Longrightarrow> grows t t') \<Longrightarrow> fold_res f xs t = Inr t' \<Longrightarrow> grows t t'"
  by (induction xs arbitrary: t) (simp, simp add: bind_res_Inr, metis grows_trans)

lemma grows_remove_cell: "grows t (remove_cell c t)"
proof -
  have "mset (concat (map (\<lambda>r. map cid (filter (\<lambda>x. cid x \<noteq> c) (rcells r))) rs)) \<subseteq># mset (concat (map (\<lambda>r. map cid (rcells r)) rs))" for rs
    by (induction rs) (auto intro!: mset_subset_eq_mono_add image_mset_subseteq_mono simp: multiset_filter_subset)
  then show ?thesis by (simp add: grows_def remove_cell_def ids_rows comp_def)
qed

lemma column_cell_clone:
  assumes "column_cell ly src p t = Inr (t', c)"
  obtains d where "cloneCell src True False t = Inr (t', d)" "cid c = cid d"
  using assms by (auto simp: column_cell_def run_simps split: option.splits)

lemma grows_put_column:
  assumes "column_cell ly src p t = Inr (t1, c)" "\<And>cs. mset (map cid (f cs)) \<subseteq># add_mset (cid c) (mset (map cid cs))"
  shows "grows t (upd_row i f t1)"
  using column_cell_clone [OF assms(1)] grows_put_clone assms(2) by metis

lemma grows_insertCol_border: "insertCol_border_row ly src first ri t = Inr t' \<Longrightarrow> grows t t'"
proof -
  assume "insertCol_border_row ly src first ri t = Inr t'"
  then obtain row t1 c t2 where s: "row_at t ri = Inr row" "column_cell ly src (if first then nth_opt (rcells row) 0 else None) t = Inr (t1, c)"
    "(if first then Inr (upd_row ri (\<lambda>cs. c # cs) t1) else if rcells row = [] then Inl TypeError else Inr (upd_row ri (\<lambda>cs. cs @ [c]) t1)) = Inr t2"
    "(if is_title src then Inr t2 else col_replaceTdToTh ri (cid c) (Some ri) t2) = Inr t'"
    by (auto simp: insertCol_border_row_def bind_res_Inr)
  have "grows t (upd_row ri (\<lambda>cs. c # cs) t1)" "grows t (upd_row ri (\<lambda>cs. cs @ [c]) t1)"
    by (rule grows_put_column [OF s(2)], simp)+
  then have "grows t t2" using s(3) by (auto split: if_splits)
  moreover have "grows t2 t'" using s(4) by (auto split: if_splits dest: grows_col_replace)
  ultimately show ?thesis by (rule grows_trans)
qed

lemma grows_insertCol_inner: "insertCol_inner ly src ci tr rs t = Inr t' \<Longrightarrow> grows t t'"
proof (induction rs arbitrary: tr t)
  case (Cons ri rs)
  then obtain x where x: "idx t ri ci = Inr x" by (auto simp: bind_res_Inr)
  have "\<exists>t2 tr'. grows t t2 \<and> insertCol_inner ly src ci tr' rs t2 = Inr t'"
  proof (cases "colIndex x < ci")
    case True
    then obtain c t2 where "(if is_title src then Inr (upd_cell c (\<lambda>y. y\<lparr>colSpan := Suc (icolSpan x)\<rparr>) t)
        else col_replaceTdToTh ri c tr (upd_cell c (\<lambda>y. y\<lparr>colSpan := Suc (icolSpan x)\<rparr>) t)) = Inr t2"
      "insertCol_inner ly src ci tr rs t2 = Inr t'"
      using Cons.prems x by (auto simp: run_simps)
    moreover have "grows t (upd_cell c (\<lambda>y. y\<lparr>colSpan := Suc (icolSpan x)\<rparr>) t)" by (rule grows_upd_cell) simp
    ultimately show ?thesis using grows_col_replace grows_trans by (metis Inr_inject)
  next
    case False
    then obtain row :: trow and t1 c at t2 where s: "column_cell ly src (nth_opt (rcells row) (cellIndex x)) t = Inr (t1, c)"
      "(if is_title src then Inr (upd_row ri (put_at at c) t1)
        else col_replaceTdToTh ri (cid c) (Some ri) (upd_row ri (put_at at c) t1)) = Inr t2"
      "insertCol_inner ly src ci (Some ri) rs t2 = Inr t'"
      using Cons.prems x by (clarsimp simp: run_simps)
    have "grows t (upd_row ri (put_at at c) t1)"
      by (rule grows_put_column [OF s(1)]) (rule mset_insert_le)
    then show ?thesis using s(2,3) grows_col_replace grows_trans by (metis Inr_inject)
  qed
  then show ?case using Cons.IH grows_trans by blast
qed simp

lemma grows_deleteCol_loop: "deleteCol_loop ly rn ci ri cm w t = Inr (t', w') \<Longrightarrow> grows t t'"
proof (induction ly rn ci ri cm w t rule: deleteCol_loop.induct)
  case (1 ly rn ci ri cm w t)
  show ?case
  proof (cases "ri < rn")
    case True
    obtain x c y where x: "idx t ri ci = Inr x" "(rowIndex x, colIndex x) \<notin> set cm" "cell_of_info t x = Inr (Some c)" "the_cell t c = Inr y"
      using 1(2) True by (subst (asm) deleteCol_loop.simps) (auto simp: run_simps split: if_splits)
    let ?w = "case w of Some w \<Rightarrow> w | None \<Rightarrow> trunc_div (cellOffsetWidth ly t c) (int (or1 (colSpan y)))"
    obtain t1 where t1: "(if colSpan y > 1 then Inr (upd_cell c (\<lambda>z. z\<lparr>colSpan := colSpan z - 1\<rparr>) t) else delete_at ri (cellIndex x) t) = Inr t1"
      "deleteCol_loop ly rn ci (ri + or1 (irowSpan x)) ((rowIndex x, colIndex x) # cm) (Some ?w) t1 = Inr (t', w')"
      using 1(2) True x by (subst (asm) deleteCol_loop.simps) (auto simp: run_simps need_def)
    have "grows t1 t'" using 1(1) [OF True x(1,2,3) _ x(4) refl t1] by (simp add: need_def)
    moreover have "grows t t1" using t1(1) by (auto split: if_splits intro: grows_upd_cell dest: grows_delete_at)
    ultimately show ?thesis using grows_trans by blast
  next
    case False
    then show ?thesis using 1(2) by (subst (asm) deleteCol_loop.simps) simp
  qed
qed

lemma grows_insertCell: "insertCell ri i f t = Inr (t', d) \<Longrightarrow> (\<And>x. cid (f x) = cid x) \<Longrightarrow> grows t t' \<and> d = fresh t"
proof -
  assume "insertCell ri i f t = Inr (t', d)" and f: "\<And>x. cid (f x) = cid x"
  then obtain at where "t' = upd_row ri (put_at at (f (new_cell (fresh t) ''TD''))) (t\<lparr>fresh := Suc (fresh t)\<rparr>)" "d = fresh t"
    unfolding insertCell_def Let_def bind_res_Inr by (metis Inl_Inr_False Inr_inject prod.inject)
  moreover have "grows t (upd_row ri (put_at at (f (new_cell (fresh t) ''TD''))) (t\<lparr>fresh := Suc (fresh t)\<rparr>))"
    by (rule grows_new) (use mset_insert_le [of at "f (new_cell (fresh t) ''TD'')"] f in simp)
  ultimately show ?thesis by blast
qed

lemma grows_splitToRows_loop: "splitToRows_loop ly cell x is rs t = Inr (t', rs') \<Longrightarrow> grows t t'"
proof (induction "is" arbitrary: rs t)
  case (Cons i "is")
  then obtain n c t1 d where s: "insertCell i (int (colIndex x) - n) (\<lambda>d. like_cell ly c (d\<lparr>colSpan := icolSpan x\<rparr>)) t = Inr (t1, d)"
    "splitToRows_loop ly cell x is (rs @ [d]) t1 = Inr (t', rs')"
    by (auto simp: run_simps)
  have "grows t t1" using grows_insertCell [OF s(1)] by simp
  then show ?case using Cons.IH [OF s(2)] by (rule grows_trans)
qed simp

lemma grows_splitToCols_loop: "splitToCols_loop ly w cell x js rs t = Inr (t', rs') \<Longrightarrow> grows t t'"
proof (induction js arbitrary: rs t)
  case (Cons j js)
  then obtain y :: info and c t1 d t2 where s: "insertCell (rowIndex x) (int (cellIndex y) + 1)
         (\<lambda>d. set_attr ''width'' (Some w) (like_cell ly c (d\<lparr>rowSpan := irowSpan x\<rparr>))) t = Inr (t1, d)"
    "(if ctag c = ''TH''
       then bind_res (swap_tag ''TH'' d (rowIndex x) t1) (\<lambda>t'.
         Inr (upd_cell (fresh t1) (\<lambda>h. (set_attr ''vAlign'' (get_attr ''vAlign'' c) h)\<lparr>rowSpan := irowSpan x\<rparr>) t'))
       else Inr t1) = Inr t2" "splitToCols_loop ly w cell x js (rs @ [d]) t2 = Inr (t', rs')"
    by (clarsimp simp: bind_res_Inr)
  have "grows t t1" using grows_insertCell [OF s(1)] by simp
  moreover have "grows t1 t2"
    using s(2) by (auto simp: run_simps split: if_splits intro: grows_trans [OF grows_swap_tag grows_upd_cell])
  ultimately show ?case using Cons.IH [OF s(3)] grows_trans by blast
qed simp

subsection \<open>Every edit leaves a correct index\<close>

datatype edit = MergeRight nat | MergeDown nat | MergeRange | InsertRow nat source | DeleteRow nat
  | InsertCol nat source "(int \<times> int) option" | DeleteCol nat | SplitToRows nat | SplitToCols nat | SplitToCells nat

fun run_edit :: "layout \<Rightarrow> edit \<Rightarrow> uetable \<Rightarrow> uetable res" where
  "run_edit ly (MergeRight c) t = mergeRight ly c t"
| "run_edit ly (MergeDown c) t = mergeDown ly c t"
| "run_edit ly MergeRange t = mergeRange ly t"
| "run_edit ly (InsertRow i src) t = insertRow ly i src t"
| "run_edit ly (DeleteRow i) t = deleteRow ly i t"
| "run_edit ly (InsertCol i src d) t = insertCol ly i src d t"
| "run_edit ly (DeleteCol i) t = deleteCol ly i t"
| "run_edit ly (SplitToRows c) t = bind_res (splitToRows ly c t) (\<lambda>(t, _). Inr t)"
| "run_edit ly (SplitToCols c) t = bind_res (splitToCols ly c t) (\<lambda>(t, _). Inr t)"
| "run_edit ly (SplitToCells c) t = splitToCells ly c t"

definition table_ok :: "uetable \<Rightarrow> bool" where
  "table_ok t \<longleftrightarrow> indexed t \<and> fresh_ids t"

lemma update_ok: "update ly t1 = Inr t' \<Longrightarrow> grows t t1 \<Longrightarrow> table_ok t \<Longrightarrow> table_ok t'"
  using update_indexed grows_fresh_ids by (auto simp: table_ok_def)

lemma merge_cell_ok:
  assumes "moveContent ly a b (upd_cell a f t) = Inr t1" "deleteCell b ri t1 = Inr t2" "update ly t2 = Inr t'"
    "\<And>x. cid (f x) = cid x" "table_ok t"
  shows "table_ok t'"
proof -
  have "grows t (upd_cell a f t)" using assms(4) by (rule grows_upd_cell)
  also have "grows (upd_cell a f t) t1" using assms(1) by (rule grows_moveContent)
  also have "grows t1 t2" using assms(2) by (rule grows_deleteCell)
  finally show ?thesis using update_ok assms(3,5) by blast
qed

lemma table_ok_mergeRight: "mergeRight ly c t = Inr t' \<Longrightarrow> table_ok t \<Longrightarrow> table_ok t'"
  unfolding mergeRight_def bind_res_Inr Let_def by (elim exE conjE) (erule (2) merge_cell_ok, simp_all)

lemma table_ok_mergeDown: "mergeDown ly c t = Inr t' \<Longrightarrow> table_ok t \<Longrightarrow> table_ok t'"
  unfolding mergeDown_def bind_res_Inr Let_def by (elim exE conjE) (erule (2) merge_cell_ok, simp_all)

lemma grows_drop_merged_rows: "drop_merged_rows lt c t = Inr t' \<Longrightarrow> grows t t'"
proof -
  assume "drop_merged_rows lt c t = Inr t'"
  then consider "t' = t" | ri n t1 where "deleteRows_at ri n t = Inr t1" "t' = upd_cell lt (\<lambda>c. c\<lparr>rowSpan := 1\<rparr>) t1"
    by (auto simp: drop_merged_rows_def bind_res_Inr split: if_splits option.splits)
  then show ?thesis
  proof cases
    case 2
    have "grows t1 (upd_cell lt (\<lambda>c. c\<lparr>rowSpan := 1\<rparr>) t1)" by (rule grows_upd_cell) simp
    then show ?thesis using grows_deleteRows_at [OF 2(1)] 2(2) grows_trans by blast
  qed simp
qed

lemma table_ok_mergeRange:
  assumes "mergeRange ly t = Inr t'" "table_ok t"
  shows "table_ok t'"
proof -
  obtain lt rg t1 cells cs rg' t2 c t3 where s: "getCells t rg = Inr (t1, cells)" "merge_into ly lt cs t1 = Inr t2"
    "drop_merged_rows lt c (upd_cell lt (merged_spans rg' t2) t2) = Inr t3" "update ly t3 = Inr t'"
    using assms(1) unfolding mergeRange_def bind_res_Inr Let_def by (auto simp: bind_res_Inr)
  have "grows t t1" using s(1) by (rule grows_getCells)
  also have "grows t1 t2" using s(2) by (rule grows_merge_into)
  also have "grows t2 (upd_cell lt (merged_spans rg' t2) t2)" by (rule grows_upd_cell) simp
  also have "grows \<dots> t3" using s(3) by (rule grows_drop_merged_rows)
  finally show ?thesis using update_ok s(4) assms(2) by blast
qed

lemma table_ok_insertRow: "insertRow ly i src t = Inr t' \<Longrightarrow> table_ok t \<Longrightarrow> table_ok t'"
proof -
  assume run: "insertRow ly i src t = Inr t'" and ok: "table_ok t"
  let ?t1 = "t\<lparr>rows := take i (rows t) @ new_row # drop i (rows t)\<rparr>"
  obtain t2 where t2: "(if i = 0 \<or> i = rowsNum t then insertRow_border ly src i [0..<colsNum t] ?t1
          else (case nth_opt (indexTable t) i of
             Some infoRow \<Rightarrow> insertRow_inner ly src infoRow i [0..<colsNum t] ?t1
           | None \<Rightarrow> if colsNum t = 0 then Inr ?t1 else Inl TypeError)) = Inr t2" "update ly t2 = Inr t'"
    using run unfolding insertRow_def Let_def by (auto simp: bind_res_Inr split: if_splits)
  have "grows ?t1 t2"
    using t2(1) by (auto split: if_splits option.splits dest: grows_insertRow_border grows_insertRow_inner)
  then show ?thesis using update_ok [OF t2(2) grows_trans [OF grows_new_row] ok] by blast
qed

lemma table_ok_deleteRow: "deleteRow ly i t = Inr t' \<Longrightarrow> table_ok t \<Longrightarrow> table_ok t'"
proof -
  assume run: "deleteRow ly i t = Inr t'" and ok: "table_ok t"
  obtain infoRow t1 gone kept where s: "deleteRow_loop i infoRow (colsNum t) 0 0 t = Inr t1"
    "let t = fold (\<lambda>c. upd_cell c (\<lambda>x. x\<lparr>rowSpan := rowSpan x - 1\<rparr>)) kept (fold remove_cell gone t1)
     in update ly (t\<lparr>rows := take i (rows t) @ drop (Suc i) (rows t)\<rparr>) = Inr t'"
    using run unfolding deleteRow_def Let_def bind_res_Inr by blast
  let ?t2 = "fold remove_cell gone t1"
  let ?t3 = "fold (\<lambda>c. upd_cell c (\<lambda>x. x\<lparr>rowSpan := rowSpan x - 1\<rparr>)) kept ?t2"
  have "grows t t1" using s(1) by (rule grows_deleteRow_loop)
  also have "grows t1 ?t2" by (rule grows_fold) (rule grows_remove_cell)
  also have "grows ?t2 ?t3" by (rule grows_fold) (rule grows_upd_cell, simp)
  also have "grows ?t3 (?t3\<lparr>rows := take i (rows ?t3) @ drop (Suc i) (rows ?t3)\<rparr>)" by (rule grows_rows_drop)
  finally show ?thesis using update_ok s(2) ok unfolding Let_def by blast
qed

lemma grows_tattrs: "grows t (t\<lparr>tattrs := a\<rparr>)"
  by (simp add: grows_def ids_def all_cells_def)

lemma table_ok_updateWidth: "table_ok t \<Longrightarrow> table_ok (updateWidth ly w p b t)"
proof -
  assume ok: "table_ok t"
  have same: "rcells (map (\<lambda>r. r\<lparr>rcells := map f (rcells r)\<rparr>) rs ! i) = map f (rcells (rs ! i))" if "i < length rs" for f rs i
    using that by simp
  have d: "describes (map (\<lambda>r. r\<lparr>rcells := map (set_attr k v) (rcells r)\<rparr>) rs) x = describes rs x" for k v rs x
    by (auto simp: describes_def Let_def set_attr_def)
  have "fresh_ids (t\<lparr>rows := map (\<lambda>r. r\<lparr>rcells := map (set_attr k v) (rcells r)\<rparr>) (rows t)\<rparr>)" for k v
    using ok grows_fresh_ids [of t] by (simp add: table_ok_def grows_def ids_rows comp_def)
  moreover have "indexed (t\<lparr>rows := map (\<lambda>r. r\<lparr>rcells := map (set_attr k v) (rcells r)\<rparr>) (rows t)\<rparr>)" for k v
    using ok by (auto simp: table_ok_def indexed_def sound_index_def d)
  moreover have "table_ok (t\<lparr>tattrs := a\<rparr>)" for a
    using ok grows_fresh_ids [OF grows_tattrs] by (auto simp: table_ok_def indexed_def)
  ultimately show ?thesis by (simp add: updateWidth_def Let_def table_ok_def)
qed

lemma table_ok_insertCol: "insertCol ly i src d t = Inr t' \<Longrightarrow> table_ok t \<Longrightarrow> table_ok t'"
proof -
  assume run: "insertCol ly i src d t = Inr t'" and ok: "table_ok t"
  obtain t1 t2 w p b where s: "(if i = 0 \<or> i = colsNum t then fold_res (insertCol_border_row ly src (i = 0)) [0..<rowsNum t] t
           else insertCol_inner ly src i None [0..<rowsNum t] t) = Inr t1" "update ly t1 = Inr t2" "t' = updateWidth ly w p b t2"
    using run unfolding insertCol_def Let_def by (auto simp: bind_res_Inr split: prod.splits)
  have "fold_res (insertCol_border_row ly src (i = 0)) [0..<rowsNum t] t = Inr t1 \<Longrightarrow> grows t t1"
    by (rule grows_fold_res [OF grows_insertCol_border])
  then have "grows t t1" using s(1) grows_insertCol_inner by (cases "i = 0 \<or> i = colsNum t") auto
  then show ?thesis using update_ok [OF s(2) _ ok] table_ok_updateWidth s(3) by blast
qed

lemma table_ok_deleteCol: "deleteCol ly i t = Inr t' \<Longrightarrow> table_ok t \<Longrightarrow> table_ok t'"
  unfolding deleteCol_def Let_def
  by (auto simp: bind_res_Inr dest!: grows_deleteCol_loop intro: update_ok [OF _ grows_trans [OF _ grows_tattrs]])

lemma table_ok_splitToRows: "splitToRows ly c t = Inr (t', rs) \<Longrightarrow> table_ok t \<Longrightarrow> table_ok t'"
proof -
  assume "splitToRows ly c t = Inr (t', rs)" and ok: "table_ok t"
  then obtain x js rs0 t1 where s: "splitToRows_loop ly c x js rs0 (upd_cell c (\<lambda>c. c\<lparr>rowSpan := 1\<rparr>) t) = Inr (t1, rs)" "update ly t1 = Inr t'"
    by (auto simp: splitToRows_def bind_res_Inr)
  have "grows t (upd_cell c (\<lambda>c. c\<lparr>rowSpan := 1\<rparr>) t)" by (rule grows_upd_cell) simp
  then show ?thesis using grows_splitToRows_loop [OF s(1)] update_ok [OF s(2) _ ok] grows_trans by blast
qed

lemma table_ok_splitToCols: "splitToCols ly c t = Inr (t', rs) \<Longrightarrow> table_ok t \<Longrightarrow> table_ok t'"
proof -
  assume "splitToCols ly c t = Inr (t', rs)" and ok: "table_ok t"
  then obtain x w js rs0 t1 where s: "splitToCols_loop ly w c x js rs0 (upd_cell c (\<lambda>c. set_attr ''width'' (Some w) (c\<lparr>colSpan := 1\<rparr>)) t) = Inr (t1, rs)"
    "update ly t1 = Inr t'"
    by (auto simp: splitToCols_def bind_res_Inr Let_def)
  have "grows t (upd_cell c (\<lambda>c. set_attr ''width'' (Some w) (c\<lparr>colSpan := 1\<rparr>)) t)" by (rule grows_upd_cell) simp
  then show ?thesis using grows_splitToCols_loop [OF s(1)] update_ok [OF s(2) _ ok] grows_trans by blast
qed

lemma fold_res_keeps: "(\<And>x s s'. f x s = Inr s' \<Longrightarrow> I s \<Longrightarrow> I s') \<Longrightarrow> fold_res f xs s = Inr s' \<Longrightarrow> I s \<Longrightarrow> I s'"
  by (induction xs arbitrary: s) (simp, simp add: bind_res_Inr, metis)

lemma table_ok_splitToCells: "splitToCells ly c t = Inr t' \<Longrightarrow> table_ok t \<Longrightarrow> table_ok t'"
proof -
  assume "splitToCells ly c t = Inr t'" and ok: "table_ok t"
  then obtain t1 cs where s: "splitToRows ly c t = Inr (t1, cs)" "fold_res (\<lambda>c t. bind_res (splitToCols ly c t) (\<lambda>(t, _). Inr t)) cs t1 = Inr t'"
    by (auto simp: splitToCells_def bind_res_Inr)
  have "table_ok t1" using table_ok_splitToRows [OF s(1) ok] .
  then show ?thesis by (rule fold_res_keeps [OF _ s(2), rotated]) (auto simp: bind_res_Inr dest: table_ok_splitToCols)
qed

text \<open>A system whose steps keep an invariant keeps it in every run.\<close>

locale kept_by =
  fixes step :: "'o \<Rightarrow> 's \<Rightarrow> 's res" and inv :: "'s \<Rightarrow> bool"
  assumes keep: "step e s = Inr s' \<Longrightarrow> inv s \<Longrightarrow> inv s'"
begin

lemma keep_all: "fold_res step es s = Inr s' \<Longrightarrow> inv s \<Longrightarrow> inv s'"
  by (rule fold_res_keeps [OF keep])

end

interpretation te: kept_by "run_edit ly" table_ok
proof
  fix e t t'
  assume "run_edit ly e t = Inr t'" "table_ok t"
  then show "table_ok t'"
    by (cases e)
      (auto simp: bind_res_Inr intro: table_ok_mergeRight table_ok_mergeDown table_ok_mergeRange table_ok_insertRow
        table_ok_deleteRow table_ok_insertCol table_ok_deleteCol table_ok_splitToRows table_ok_splitToCols table_ok_splitToCells)
qed

subsection \<open>Rows of a table without merged cells\<close>

definition td_only :: "uetable \<Rightarrow> bool" where
  "td_only t \<longleftrightarrow> (\<forall>c \<in> set (all_cells t). ctag c = ''TD'')"

definition td_source :: "uetable \<Rightarrow> source \<Rightarrow> bool" where
  "td_source t src \<longleftrightarrow> (case src of NoSource \<Rightarrow> True | SourceTag s \<Rightarrow> s = [] \<or> toUpperCase s = ''TD''
     | SourceCell c \<Rightarrow> c \<in> cid ` set (all_cells t))"

text \<open>An empty cell.\<close>

definition blank_cell :: "layout \<Rightarrow> tcell \<Rightarrow> bool" where
  "blank_cell ly c \<longleftrightarrow> ctag c = ''TD'' \<and> plain_cell c \<and> \<not> hasClass selectTdClass (className c) \<and> childNodes c = childNodes (setCellContent ly c)"

lemma find_cell:
  assumes "fresh_ids t" "x \<in> set (all_cells t)"
  shows "the_cell t (cid x) = Inr x"
proof -
  have "\<exists>y. find (\<lambda>y. cid y = cid x) (all_cells t) = Some y"
    using assms(2) by (cases "find (\<lambda>y. cid y = cid x) (all_cells t)") (auto simp: find_None_iff)
  then obtain y where y: "find (\<lambda>y. cid y = cid x) (all_cells t) = Some y" by blast
  then have "y \<in> set (all_cells t)" "cid y = cid x" by (auto simp: find_Some_iff)
  then have "y = x" using assms by (metis distinct_map fresh_ids_def inj_on_def)
  then show ?thesis using y by (simp add: the_cell_def)
qed

lemma upd_cell_id:
  assumes "\<And>x. x \<in> set (all_cells t) \<Longrightarrow> cid x = c \<Longrightarrow> f x = x"
  shows "upd_cell c f t = t"
proof -
  have "map (\<lambda>r. r\<lparr>rcells := map (\<lambda>x. if cid x = c then f x else x) (rcells r)\<rparr>) (rows t) = rows t"
  proof (rule map_idI)
    fix r assume r: "r \<in> set (rows t)"
    have "map (\<lambda>x. if cid x = c then f x else x) (rcells r) = rcells r"
      by (rule map_idI) (use r assms in \<open>auto simp: all_cells_def\<close>)
    then show "r\<lparr>rcells := map (\<lambda>x. if cid x = c then f x else x) (rcells r)\<rparr> = r" by simp
  qed
  then show ?thesis by (simp add: upd_cell_def)
qed

lemma cloneCell_td:
  assumes "fresh_ids t" "unmarked t" "td_only t" "td_source t src"
  shows "\<exists>c. cloneCell src True False t = Inr (t\<lparr>fresh := Suc (fresh t)\<rparr>, c) \<and> cid c = fresh t \<and> ctag c = ''TD'' \<and> plain_cell c \<and>
    \<not> hasClass selectTdClass (className c)"
proof (cases src)
  case NoSource
  then show ?thesis by (simp add: cloneCell_def new_cell_def plain_cell_def hasClass_Nil)
next
  case (SourceTag s)
  then show ?thesis using assms(4) by (auto simp: cloneCell_def td_source_def new_cell_def plain_cell_def hasClass_Nil)
next
  case (SourceCell d)
  then obtain x where x: "x \<in> set (all_cells t)" "cid x = d" using assms(4) by (auto simp: td_source_def)
  then have f: "the_cell t d = Inr x" "\<not> hasClass selectTdClass (className x)" "ctag x = ''TD''"
    using find_cell [OF assms(1)] assms(2,3) by (auto simp: unmarked_def td_only_def)
  have "upd_cell d (\<lambda>y. y\<lparr>className := className x\<rparr>) (t\<lparr>fresh := Suc (fresh t)\<rparr>) = t\<lparr>fresh := Suc (fresh t)\<rparr>"
  proof (rule upd_cell_id)
    fix y assume "y \<in> set (all_cells (t\<lparr>fresh := Suc (fresh t)\<rparr>))" "cid y = d"
    then have "y = x" using find_cell [OF assms(1), of y] f(1) by (simp add: all_cells_def)
    then show "y\<lparr>className := className x\<rparr> = y" by simp
  qed
  then show ?thesis using f SourceCell
    by (simp add: cloneCell_def Let_def plain_cell_def set_style_def del_attr_def)
qed

lemma row_cells_subset: "r \<in> set (rows t) \<Longrightarrow> set (rcells r) \<subseteq> set (all_cells t)"
  by (auto simp: all_cells_def)

text \<open>The table while a row is being built at index \<open>ri\<close>.\<close>

definition with_row :: "uetable \<Rightarrow> nat \<Rightarrow> tcell list \<Rightarrow> uetable" where
  "with_row t ri cs = t\<lparr>rows := take ri (rows t) @ new_row\<lparr>rcells := cs\<rparr> # drop ri (rows t), fresh := fresh t + length cs\<rparr>"

definition new_cells :: "layout \<Rightarrow> uetable \<Rightarrow> tcell list \<Rightarrow> bool" where
  "new_cells ly t cs \<longleftrightarrow> map cid cs = [fresh t..<fresh t + length cs] \<and> (\<forall>c \<in> set cs. blank_cell ly c)"

lemma all_cells_with_row:
  "all_cells (with_row t ri cs) = concat (map rcells (take ri (rows t))) @ cs @ concat (map rcells (drop ri (rows t)))"
  by (simp add: with_row_def all_cells_def)

lemma all_cells_split: "all_cells t = concat (map rcells (take ri (rows t))) @ concat (map rcells (drop ri (rows t)))"
  unfolding all_cells_def by (metis append_take_drop_id concat_append map_append)

lemma set_with_row: "set (all_cells (with_row t ri cs)) = set (all_cells t) \<union> set cs"
  unfolding all_cells_with_row all_cells_split [of t ri] by auto

lemma with_row_ok:
  assumes "fresh_ids t" "unmarked t" "td_only t" "td_source t src" "new_cells ly t cs"
  shows "fresh_ids (with_row t ri cs)" "unmarked (with_row t ri cs)" "td_only (with_row t ri cs)" "td_source (with_row t ri cs) src"
proof -
  have b: "\<forall>c \<in> set cs. blank_cell ly c" "map cid cs = [fresh t..<fresh t + length cs]" using assms(5) by (auto simp: new_cells_def)
  have "ids (with_row t ri cs) = ids t + mset [fresh t..<fresh t + length cs]"
    unfolding ids_def all_cells_with_row all_cells_split [of t ri] by (simp add: b(2) [symmetric] del: mset_map mset_upt)
  then have "grows t (with_row t ri cs)" by (simp add: grows_def with_row_def)
  then show "fresh_ids (with_row t ri cs)" using assms(1) by (rule grows_fresh_ids)
  show "unmarked (with_row t ri cs)" "td_only (with_row t ri cs)"
    using assms(2,3) b(1) by (auto simp: unmarked_def td_only_def set_with_row blank_cell_def)
  show "td_source (with_row t ri cs) src"
    using assms(4) by (auto simp: td_source_def set_with_row split: source.splits)
qed

lemma append_clone_row:
  assumes "fresh_ids t" "unmarked t" "td_only t" "td_source t src" "new_cells ly t cs" "ri \<le> length (rows t)"
  shows "\<exists>c. append_clone ly src ri (with_row t ri cs) = Inr (with_row t ri (cs @ [c]), cid c) \<and> new_cells ly t (cs @ [c])"
proof -
  let ?t = "with_row t ri cs"
  obtain c where c: "cloneCell src True False ?t = Inr (?t\<lparr>fresh := Suc (fresh ?t)\<rparr>, c)" "cid c = fresh ?t" "ctag c = ''TD''" "plain_cell c"
      "\<not> hasClass selectTdClass (className c)"
    using cloneCell_td [OF with_row_ok [OF assms(1-5)]] by blast
  let ?d = "setCellContent ly c"
  have "upd_row ri (\<lambda>cs. cs @ [?d]) (?t\<lparr>fresh := Suc (fresh ?t)\<rparr>) = with_row t ri (cs @ [?d])"
    using assms(6) by (simp add: upd_row_def nth_opt_def with_row_def nth_append list_update_append)
  moreover have "blank_cell ly ?d"
    using c by (simp add: blank_cell_def setCellContent_def plain_cell_def)
  moreover have "fresh ?t = fresh t + length cs" by (simp add: with_row_def)
  ultimately show ?thesis
    using c(1,2) assms(5) by (intro exI [of _ ?d]) (simp add: append_clone_def new_cells_def)
qed

lemma row_replace_td:
  assumes "fresh_ids t" "unmarked t" "td_only t" "td_source t src" "new_cells ly t cs" "regular n t" "0 < n" "ri \<le> length (rows t)"
    and "c \<in> set cs"
  shows "row_replaceTdToTh ci (cid c) ri (with_row t ri cs) = Inr (with_row t ri cs)"
proof -
  let ?t = "with_row t ri cs"
  have td: "\<And>x. x \<in> set (all_cells ?t) \<Longrightarrow> ctag x = ''TD''" using with_row_ok(3) [OF assms(1-5)] by (simp add: td_only_def)
  have c: "the_cell ?t (cid c) = Inr c" "ctag c = ''TD''"
    using find_cell [OF with_row_ok(1) [OF assms(1-5)]] td assms(9) by (auto simp: set_with_row)
  have row: "\<exists>tr. row_at ?t k = Inr tr \<and> (\<exists>x. nth_opt (rcells tr) 0 = Some x \<and> x \<in> set (all_cells ?t))"
    if kl: "k < length (rows ?t)" and ne: "k \<noteq> ri" for k
  proof -
    have k: "rows ?t ! k \<in> set (rows t)"
    proof (cases "k < ri")
      case True
      then have "rows ?t ! k = rows t ! k" "k < length (rows t)" using assms(8) by (simp_all add: with_row_def nth_append)
      then show ?thesis by simp
    next
      case False
      then obtain j where j: "k = ri + Suc j" using ne by (metis less_imp_Suc_add linorder_neqE_nat add_Suc_right)
      then have "rows ?t ! k = rows t ! (ri + j)" "ri + j < length (rows t)"
        using kl assms(8) by (simp_all add: with_row_def nth_append)
      then show ?thesis by simp
    qed
    then have "length (rcells (rows ?t ! k)) = n" using assms(6) by (simp add: regular_def)
    then have "nth_opt (rcells (rows ?t ! k)) 0 = Some (rcells (rows ?t ! k) ! 0)" "rcells (rows ?t ! k) ! 0 \<in> set (rcells (rows ?t ! k))"
      using assms(7) by (simp_all)
    moreover have "set (rcells (rows ?t ! k)) \<subseteq> set (all_cells ?t)" using kl by (intro row_cells_subset nth_mem)
    moreover have "row_at ?t k = Inr (rows ?t ! k)" using kl by (simp add: row_at_def nth_opt_def)
    ultimately show ?thesis by blast
  qed
  have len: "length (rows ?t) = Suc (length (rows t))" using assms(8) by (simp add: with_row_def)
  have "0 < length (rows t)" using assms(6) by (simp add: regular_def)
  then obtain k where k: "k = (if Suc ri < length (rows ?t) then Suc ri else ri - 1)" "k < length (rows ?t)" "k \<noteq> ri" "Suc ri < length (rows ?t) \<or> ri \<noteq> 0"
    using len assms(8) by (cases "rows t"; cases "Suc ri < length (rows ?t)") auto
  then show ?thesis using row [OF k(2,3)] td c
    by (auto simp: row_replaceTdToTh_def need_def nth_opt_def split: if_splits)
qed

lemma insertRow_border_ok:
  assumes "fresh_ids t" "unmarked t" "td_only t" "td_source t src" "new_cells ly t cs" "regular n t" "0 < n" "ri \<le> length (rows t)"
  shows "\<exists>ds. insertRow_border ly src ri js (with_row t ri cs) = Inr (with_row t ri (cs @ ds)) \<and> length ds = length js \<and> new_cells ly t (cs @ ds)"
  using assms(5)
proof (induction js arbitrary: cs)
  case (Cons j js)
  obtain c where c: "append_clone ly src ri (with_row t ri cs) = Inr (with_row t ri (cs @ [c]), cid c)" "new_cells ly t (cs @ [c])"
    using append_clone_row [OF assms(1-4) Cons.prems assms(8)] by blast
  have r: "row_replaceTdToTh j (cid c) ri (with_row t ri (cs @ [c])) = Inr (with_row t ri (cs @ [c]))"
    by (rule row_replace_td [OF assms(1-4) c(2) assms(6-8)]) simp
  obtain ds where "insertRow_border ly src ri js (with_row t ri (cs @ [c])) = Inr (with_row t ri ((cs @ [c]) @ ds))"
      "length ds = length js" "new_cells ly t ((cs @ [c]) @ ds)"
    using Cons.IH [OF c(2)] by blast
  then show ?case using c(1) r by (intro exI [of _ "c # ds"]) simp
qed (auto intro: exI [of _ "[]"])

lemma insertRow_inner_ok:
  assumes "fresh_ids t" "unmarked t" "td_only t" "td_source t src" "new_cells ly t cs" "regular n t" "0 < n" "ri \<le> length (rows t)"
    and "\<And>j. j \<in> set js \<Longrightarrow> \<exists>x. nth_opt infoRow j = Some (Some x) \<and> \<not> rowIndex x < ri"
  shows "insertRow_inner ly src infoRow ri js (with_row t ri cs) = insertRow_border ly src ri js (with_row t ri cs)"
  using assms(5,9)
proof (induction js arbitrary: cs)
  case (Cons j js)
  obtain x where x: "nth_opt infoRow j = Some (Some x)" "\<not> rowIndex x < ri" using Cons.prems(2) by auto
  obtain c where c: "append_clone ly src ri (with_row t ri cs) = Inr (with_row t ri (cs @ [c]), cid c)" "new_cells ly t (cs @ [c])"
    using append_clone_row [OF assms(1-4) Cons.prems(1) assms(8)] by blast
  have r: "row_replaceTdToTh j (cid c) ri (with_row t ri (cs @ [c])) = Inr (with_row t ri (cs @ [c]))"
    by (rule row_replace_td [OF assms(1-4) c(2) assms(6-8)]) simp
  then show ?case using x c(1) Cons.IH [OF c(2)] Cons.prems(2) by (simp del: nth_opt_Some)
qed simp

lemma regular_with_row:
  assumes "regular n t" "new_cells ly t cs" "length cs = n"
  shows "regular n (with_row t ri cs)"
  using assms by (auto simp: regular_def with_row_def new_cells_def blank_cell_def dest: in_set_takeD in_set_dropD)

lemma insertRow_settled:
  assumes "settled n t" "0 < n" "td_only t" "td_source t src" "ri \<le> length (rows t)"
  shows "\<exists>cs t'. insertRow ly ri src t = Inr t' \<and> settled n t' \<and> length cs = n \<and> new_cells ly t cs \<and>
    map rcells (rows t') = take ri (map rcells (rows t)) @ cs # drop ri (map rcells (rows t)) \<and>
    td_only t' \<and> fresh t' = fresh t + n"
proof -
  note st = assms(1) [unfolded settled_def]
  have ok: "fresh_ids t" "unmarked t" "regular n t" "rowsNum t = length (rows t)" "colsNum t = n" using st by auto
  have nil: "new_cells ly t []" by (simp add: new_cells_def)
  have start: "t\<lparr>rows := take ri (rows t) @ new_row # drop ri (rows t)\<rparr> = with_row t ri []"
    by (simp add: with_row_def new_row_def)
  obtain cs where cs: "insertRow_border ly src ri [0..<n] (with_row t ri []) = Inr (with_row t ri cs)" "length cs = n" "new_cells ly t cs"
    using insertRow_border_ok [OF ok(1,2) assms(3,4) nil ok(3) assms(2,5), of "[0..<n]"] by auto
  have "insertRow ly ri src t = update ly (with_row t ri cs)"
  proof (cases "ri = 0 \<or> ri = rowsNum t")
    case True
    then show ?thesis using cs(1) ok start assms(5) by (simp add: insertRow_def)
  next
    case False
    then have ri: "ri < length (indexTable t)" using st assms(5) by simp
    have "\<exists>x. nth_opt (indexTable t ! ri) j = Some (Some x) \<and> \<not> rowIndex x < ri" if "j \<in> set [0..<n]" for j
    proof -
      have "entry (indexTable t) ri j = Some (unit_info ri j)" using st that ri by (simp add: filled_to_def)
      then show ?thesis using ri by (auto simp: entry_def unit_info_def split: if_splits)
    qed
    then have "insertRow_inner ly src (indexTable t ! ri) ri [0..<n] (with_row t ri []) = insertRow_border ly src ri [0..<n] (with_row t ri [])"
      by (rule insertRow_inner_ok [OF ok(1,2) assms(3,4) nil ok(3) assms(2,5)])
    moreover have "nth_opt (indexTable t) ri = Some (indexTable t ! ri)" using ri by simp
    ultimately show ?thesis using cs(1) ok start assms(5) False by (simp add: insertRow_def del: nth_opt_Some)
  qed
  moreover obtain t' where t': "update ly (with_row t ri cs) = Inr t'" "settled n t'" "map rcells (rows t') = map rcells (rows (with_row t ri cs))"
      "fresh t' = fresh (with_row t ri cs)"
    using update_regular [OF regular_with_row [OF ok(3) cs(3,2)] with_row_ok(2,1) [OF ok(1,2) assms(3,4) cs(3)]] by blast
  moreover have "all_cells t' = all_cells (with_row t ri cs)" using t'(3) by (simp add: all_cells_def)
  then have "td_only t'" using with_row_ok(3) [OF ok(1,2) assms(3,4) cs(3)] by (simp add: td_only_def)
  ultimately show ?thesis using cs(2,3) by (intro exI [of _ cs] exI [of _ t']) (simp add: with_row_def take_map drop_map)
qed

subsection \<open>Deleting a row of such a table\<close>

lemma settled_idx:
  assumes "settled n t" "i < length (rows t)" "k < n"
  shows "entry (indexTable t) i k = Some (unit_info i k)" "cell_of_info t (unit_info i k) = Inr (Some (cid (rcells (rows t ! i) ! k)))"
proof -
  note st = assms(1) [unfolded settled_def]
  show "entry (indexTable t) i k = Some (unit_info i k)" using st assms by (simp add: filled_to_def)
  have "k < length (rcells (rows t ! i))" using regular_row [of n t i] st assms by simp
  then show "cell_of_info t (unit_info i k) = Inr (Some (cid (rcells (rows t ! i) ! k)))"
    using st assms by (simp add: cell_of_info_def unit_info_def getCell_def row_at_def nth_opt_def)
qed

lemma deleteRow_loop_settled:
  assumes "settled n t" "ri < length (rows t)"
  shows "deleteRow_loop ri (indexTable t ! ri) n ci cnt t = Inr t"
proof (induction "n - ci" arbitrary: ci)
  case (Suc d)
  note st = assms(1) [unfolded settled_def]
  have ci: "ci < n" using Suc(2) by simp
  let ?c = "rcells (rows t ! ri) ! ci"
  have in_row: "?c \<in> set (rcells (rows t ! ri))" using ci regular_row [of n t ri] st assms(2) by simp
  have c: "the_cell t (cid ?c) = Inr ?c" "plain_cell ?c"
    using find_cell [of t ?c] in_row row_cells_subset [of "rows t ! ri" t] assms(2) st regular_row [of n t ri] by auto
  have e: "nth_opt (indexTable t ! ri) ci = Some (Some (unit_info ri ci))"
    using settled_idx(1) [OF assms ci] by (auto simp: entry_def split: if_splits)
  have "deleteRow_loop ri (indexTable t ! ri) n ci cnt t = deleteRow_loop ri (indexTable t ! ri) n (Suc ci) cnt t"
    using ci e settled_idx(2) [OF assms ci] c
    by (subst deleteRow_loop.simps) (simp add: need_def plain_cell_def or1_def del: nth_opt_Some)
  then show ?case using Suc(1) [of "Suc ci"] Suc(2) by simp
qed (subst deleteRow_loop.simps, simp)

lemma row_cells_settled:
  assumes "settled n t" "ri < length (rows t)" "ci \<le> n" "xs = map (\<lambda>k. Some (unit_info ri k)) [ci..<n]"
    and "\<And>p. p \<in> set cm \<Longrightarrow> snd p < ci"
  shows "row_cells xs cm t = Inr (map cid (drop ci (rcells (rows t ! ri))))"
  using assms(3-5)
proof (induction xs arbitrary: ci cm)
  case Nil
  then show ?case using regular_row [of n t ri] assms(1,2) by (auto simp: settled_def)
next
  case (Cons x xs)
  have ci: "ci < n" using Cons.prems(2) by (cases "ci < n") auto
  have x: "x = Some (unit_info ri ci)" "xs = map (\<lambda>k. Some (unit_info ri k)) [Suc ci..<n]"
    using Cons.prems(2) upt_conv_Cons [OF ci] by auto
  have "(ri, ci) \<notin> set cm" using Cons.prems(3) by force
  moreover have "row_cells xs ((ri, ci) # cm) t = Inr (map cid (drop (Suc ci) (rcells (rows t ! ri))))"
    using Cons.IH [of "Suc ci" "(ri, ci) # cm"] Cons.prems(3) x(2) ci by force
  moreover have "drop ci (rcells (rows t ! ri)) = rcells (rows t ! ri) ! ci # drop (Suc ci) (rcells (rows t ! ri))"
    using ci regular_row [of n t ri] assms(1,2) by (simp add: Cons_nth_drop_Suc settled_def)
  ultimately show ?case using x(1) settled_idx(2) [OF assms(1,2) ci] by (simp add: unit_info_def need_def)
qed

lemma remove_cells: "fold remove_cell gone t = t\<lparr>rows := map (\<lambda>r. r\<lparr>rcells := filter (\<lambda>x. cid x \<notin> set gone) (rcells r)\<rparr>) (rows t)\<rparr>"
proof (induction gone arbitrary: t)
  case (Cons g gone)
  then show ?case by (simp add: remove_cell_def comp_def)
qed simp

lemma remove_row_cells:
  assumes "fresh_ids t" "ri < length (rows t)"
  defines "t1 \<equiv> fold remove_cell (map cid (rcells (rows t ! ri))) t"
  shows "take ri (rows t1) = take ri (rows t)" "drop (Suc ri) (rows t1) = drop (Suc ri) (rows t)" "length (rows t1) = length (rows t)"
proof -
  let ?G = "cid ` set (rcells (rows t ! ri))"
  let ?f = "\<lambda>r. r\<lparr>rcells := filter (\<lambda>x. cid x \<notin> ?G) (rcells r)\<rparr>"
  have t1: "rows t1 = map ?f (rows t)" by (simp add: t1_def remove_cells)
  have "all_cells t = concat (map rcells (take ri (rows t))) @ rcells (rows t ! ri) @ concat (map rcells (drop (Suc ri) (rows t)))"
    unfolding all_cells_def by (rule concat_map_split [OF assms(2)])
  then have "distinct (map cid (concat (map rcells (take ri (rows t)))) @ map cid (rcells (rows t ! ri)) @ map cid (concat (map rcells (drop (Suc ri) (rows t)))))"
    using assms(1) by (simp add: fresh_ids_def)
  then have "cid ` set (concat (map rcells (take ri (rows t)))) \<inter> ?G = {}" "cid ` set (concat (map rcells (drop (Suc ri) (rows t)))) \<inter> ?G = {}"
    unfolding distinct_append set_append set_map by blast+
  moreover have "map ?f rs = rs" if "cid ` set (concat (map rcells rs)) \<inter> ?G = {}" for rs
  proof (rule map_idI)
    fix r assume "r \<in> set rs"
    then have "filter (\<lambda>x. cid x \<notin> ?G) (rcells r) = rcells r" using that by (fastforce simp: filter_id_conv)
    then show "?f r = r" by simp
  qed
  ultimately have "map ?f (take ri (rows t)) = take ri (rows t)" "map ?f (drop (Suc ri) (rows t)) = drop (Suc ri) (rows t)"
    by blast+
  then show "take ri (rows t1) = take ri (rows t)" "drop (Suc ri) (rows t1) = drop (Suc ri) (rows t)" "length (rows t1) = length (rows t)"
    by (simp_all add: t1 take_map drop_map)
qed

lemma deleteRow_settled:
  assumes "settled n t" "0 < n" "ri < length (rows t)" "1 < length (rows t)"
  shows "\<exists>t'. deleteRow ly ri t = Inr t' \<and> settled n t' \<and>
    map rcells (rows t') = take ri (map rcells (rows t)) @ drop (Suc ri) (map rcells (rows t))"
proof -
  note st = assms(1) [unfolded settled_def]
  let ?r = "rcells (rows t ! ri)"
  have row: "length ?r = n" "\<And>c. c \<in> set ?r \<Longrightarrow> plain_cell c" using regular_row [of n t ri] st assms(3) by auto
  have it: "nth_opt (indexTable t) ri = Some (indexTable t ! ri)" using st assms(3) by simp
  have pad: "take n (indexTable t ! ri @ replicate n None) = map (\<lambda>k. Some (unit_info ri k)) [0..<n]"
  proof (rule nth_equalityI)
    fix k assume "k < length (take n (indexTable t ! ri @ replicate n None))"
    then have k: "k < n" by simp
    then have "k < length (indexTable t ! ri)" "indexTable t ! ri ! k = Some (unit_info ri k)"
      using settled_idx(1) [OF assms(1,3) k] by (auto simp: entry_def split: if_splits)
    then show "take n (indexTable t ! ri @ replicate n None) ! k = map (\<lambda>k. Some (unit_info ri k)) [0..<n] ! k"
      using k by (simp add: nth_append)
  qed simp
  have cells: "row_cells (map (\<lambda>k. Some (unit_info ri k)) [0..<n]) [] t = Inr (map cid ?r)"
    using row_cells_settled [OF assms(1,3), of 0 _ "[]"] by simp
  have "\<And>c. c \<in> set ?r \<Longrightarrow> the_cell t (cid c) = Inr c"
    using find_cell [of t] row_cells_subset [of "rows t ! ri" t] st assms(3) by auto
  then have xs: "seq_map (\<lambda>c. bind_res (the_cell t c) (\<lambda>x. Inr [x])) (map cid ?r) = Inr ?r"
  proof -
    assume a: "\<And>c. c \<in> set ?r \<Longrightarrow> the_cell t (cid c) = Inr c"
    have "set cs \<subseteq> set ?r \<Longrightarrow> seq_map (\<lambda>c. bind_res (the_cell t c) (\<lambda>x. Inr [x])) (map cid cs) = Inr cs" for cs
      by (induction cs) (auto simp: a)
    then show ?thesis by blast
  qed
  have split: "filter (\<lambda>x. rowSpan x = 1) ?r = ?r" "filter (\<lambda>x. rowSpan x \<noteq> 1) ?r = []"
    using row(2) by (auto simp: plain_cell_def filter_id_conv filter_empty_conv)
  define t1 where "t1 = fold remove_cell (map cid ?r) t"
  note rm = remove_row_cells [of t ri, folded t1_def]
  have t1: "take ri (rows t1) = take ri (rows t)" "drop (Suc ri) (rows t1) = drop (Suc ri) (rows t)" "length (rows t1) = length (rows t)"
    using rm st assms(3) by auto
  let ?t2 = "t1\<lparr>rows := take ri (rows t1) @ drop (Suc ri) (rows t1)\<rparr>"
  have "deleteRow ly ri t = update ly ?t2"
    using it pad cells xs split deleteRow_loop_settled [OF assms(1,3)] st t1(3) assms(3)
    by (simp add: deleteRow_def t1_def [symmetric] row_at_def nth_opt_def del: nth_opt_Some)
  moreover have sub: "set (rows ?t2) \<subseteq> set (rows t)" using t1 by (auto dest: in_set_takeD in_set_dropD)
  have "regular n ?t2"
    using st sub t1 assms(3,4) unfolding regular_def by (auto simp: subset_iff)
  moreover have "fresh_ids ?t2"
  proof -
    have "grows t t1" unfolding t1_def by (rule grows_fold) (rule grows_remove_cell)
    then show ?thesis using grows_trans [OF _ grows_rows_drop] grows_fresh_ids st by blast
  qed
  moreover have "unmarked ?t2" using st sub unfolding unmarked_def all_cells_def by fastforce
  ultimately show ?thesis using update_regular [of n ?t2 ly] t1 by (auto simp: take_map drop_map)
qed

subsection \<open>Properties\<close>


definition cell_ids :: "uetable res \<Rightarrow> nat list list option" where
  "cell_ids r = (case r of Inr t \<Rightarrow> Some (map (\<lambda>r. map cid (rcells r)) (rows t)) | Inl _ \<Rightarrow> None)"

definition demo_edits :: "edit list" where
  "demo_edits = [SplitToRows 0, MergeRight 1]"

text \<open>The element table as a list, for evaluation.\<close>

lemma dtd_c_isNotEmpty_list [code]:
  "dtd_c_isNotEmpty =
     [(''table'', 1), (''ul'', 1), (''ol'', 1), (''dl'', 1), (''iframe'', 1), (''area'', 1), (''base'', 1),
      (''col'', 1), (''hr'', 1), (''img'', 1), (''embed'', 1), (''input'', 1), (''link'', 1), (''meta'', 1),
      (''param'', 1), (''h1'', 1), (''h2'', 1), (''h3'', 1), (''h4'', 1), (''h5'', 1), (''h6'', 1), (''TABLE'', 1),
      (''UL'', 1), (''OL'', 1), (''DL'', 1), (''IFRAME'', 1), (''AREA'', 1), (''BASE'', 1), (''COL'', 1), (''HR'',
      1), (''IMG'', 1), (''EMBED'', 1), (''INPUT'', 1), (''LINK'', 1), (''META'', 1), (''PARAM'', 1), (''H1'', 1),
      (''H2'', 1), (''H3'', 1), (''H4'', 1), (''H5'', 1), (''H6'', 1)]"
  by code_simp

lemma cell_ids_returns: "cell_ids r \<noteq> None \<Longrightarrow> \<exists>t. r = Inr t"
  by (cases r) (simp_all add: cell_ids_def)

lemma demo_edits_eval:
  "cell_ids (bind_res (update demo_layout demo_table) (fold_res (run_edit demo_layout) demo_edits)) \<noteq> None"
  by code_simp


text \<open>C18. Inserting a row into a table without merged, marked or heading cells puts a row of as many new empty cells as
  there are columns at the given index and leaves every other row as it was; deleting the row at that index again restores the
  rows. Both return.\<close>

theorem insertRow_deleteRow:
  assumes "regular n t0" "unmarked t0" "fresh_ids t0" "td_only t0" "0 < n"
    and "update ly t0 = Inr t" "td_source t0 src" "ri \<le> length (rows t)"
  shows "\<exists>t1 cs t2. insertRow ly ri src t = Inr t1 \<and> length cs = n \<and> (\<forall>c \<in> set cs. blank_cell ly c) \<and>
    map rcells (rows t1) = take ri (map rcells (rows t)) @ cs # drop ri (map rcells (rows t)) \<and>
    deleteRow ly ri t1 = Inr t2 \<and> map rcells (rows t2) = map rcells (rows t)"
proof -
  have u: "settled n t" "map rcells (rows t) = map rcells (rows t0)" using update_regular [OF assms(1-3), of ly] assms(6) by auto
  then have all: "all_cells t = all_cells t0" by (simp add: all_cells_def)
  have "td_only t" "td_source t src" using assms(4,7) all by (auto simp: td_only_def td_source_def split: source.splits)
  then obtain cs t1 where t1: "insertRow ly ri src t = Inr t1" "settled n t1" "length cs = n" "new_cells ly t cs"
    "map rcells (rows t1) = take ri (map rcells (rows t)) @ cs # drop ri (map rcells (rows t))"
    using insertRow_settled [OF u(1) assms(5) _ _ assms(8)] by blast
  have "length (map rcells (rows t1)) = Suc (length (rows t))" using t1(5) assms(8) by simp
  moreover have "0 < length (rows t)" using u(1) by (simp add: settled_def regular_def)
  ultimately obtain t2 where t2: "deleteRow ly ri t1 = Inr t2"
    "map rcells (rows t2) = take ri (map rcells (rows t1)) @ drop (Suc ri) (map rcells (rows t1))"
    using deleteRow_settled [OF t1(2) assms(5), of ri ly] assms(8) by auto
  have "map rcells (rows t2) = map rcells (rows t)" using t2(2) t1(5) assms(8) by simp
  then show ?thesis using t1 t2(1) unfolding new_cells_def by blast
qed

definition plain_table :: uetable where
  "plain_table = demo_table\<lparr>rows := [\<lparr>rcells = [demo_cell 0 1 1, demo_cell 1 1 1], rclass = []\<rparr>,
     \<lparr>rcells = [demo_cell 2 1 1, demo_cell 3 1 1], rclass = []\<rparr>, \<lparr>rcells = [demo_cell 4 1 1, demo_cell 5 1 1], rclass = []\<rparr>], fresh := 6\<rparr>"

lemma plain_table_ok: "regular 2 plain_table" "unmarked plain_table" "fresh_ids plain_table" "td_only plain_table"
  by (simp_all add: regular_def plain_cell_def unmarked_def fresh_ids_def td_only_def all_cells_def plain_table_def demo_table_def
      demo_cell_def new_cell_def hasClass_Nil)

theorem insertRow_deleteRow_witness:
  "\<exists>t t1 t2. update demo_layout plain_table = Inr t \<and> insertRow demo_layout 1 (SourceCell 2) t = Inr t1 \<and>
    deleteRow demo_layout 1 t1 = Inr t2 \<and> map rcells (rows t2) = map rcells (rows t)"
proof -
  obtain t where t: "update demo_layout plain_table = Inr t" "map rcells (rows t) = map rcells (rows plain_table)"
    using update_regular [OF plain_table_ok(1-3), of demo_layout] by blast
  have len: "1 \<le> length (rows t)" using arg_cong [OF t(2), of length] by (simp add: plain_table_def)
  have src: "td_source plain_table (SourceCell 2)"
    by (simp add: td_source_def all_cells_def plain_table_def demo_cell_def new_cell_def)
  show ?thesis using insertRow_deleteRow [OF plain_table_ok _ t(1) src len] t(1) by auto
qed

text \<open>Merging the rectangle of the rows \<open>a\<close> to \<open>b\<close> of the table above, over both columns.\<close>

definition merge_rows :: "nat \<Rightarrow> nat \<Rightarrow> nat list list option" where
  "merge_rows a b = cell_ids (bind_res (update demo_layout plain_table) (\<lambda>t.
     bind_res (setSelected t (Some \<lparr>beginRowIndex = a, beginColIndex = 0, endRowIndex = b, endColIndex = 1\<rparr>)) (mergeRange demo_layout)))"

text \<open>Merging the first two rows of a table over their full width leaves one row with one cell. Merging the last two rows
  does not: the loop that deletes the swallowed rows counts from the row index instead of from one, so it
  deletes nothing, and the emptied row comes back with new cells.\<close>

theorem mergeRange_keeps_swallowed_row:
  "merge_rows 0 1 = Some [[0], [4, 5]] \<and> merge_rows 1 2 = Some [[0, 1], [2], [6, 7]]"
  by (rule conjI) code_simp+

end
