(* ===== verification/TableSort.thy ===== *)
theory TableSort
  imports TableOps
begin

text \<open>
  \<open>plugins/table.sort.js\<close>: \<open>UETable.prototype.sortTable\<close> with its comparison functions, and the
  commands \<open>sorttable\<close>, \<open>enablesort\<close> and \<open>disablesort\<close>. The rows are sorted by \<open>utils.sort\<close>
  of the theory \<open>Utils\<close>; a comparison can throw, so the loops appear here once more with
  a fallible comparison, and they are shown to compute the same list when nothing throws.

  The browser's \<open>localeCompare\<close>, \<open>innerText\<close> and \<open>innerHTML\<close> are fields of the parameter
  \<open>cell_env\<close>. Numbers are read exactly: the source reads them as doubles, which agree up to \<open>2^53\<close>.
\<close>

subsection \<open>The sort with a comparison that can throw\<close>

fun sort_inner_res :: "('a \<Rightarrow> 'a \<Rightarrow> int res) \<Rightarrow> nat \<Rightarrow> nat list \<Rightarrow> 'a list \<Rightarrow> 'a list res" where
  "sort_inner_res compareFn i [] array = Inr array"
| "sort_inner_res compareFn i (j # js) array =
     bind_res (compareFn (array ! i) (array ! j)) (\<lambda>r.
       sort_inner_res compareFn i js
         (if r > 0 then swap i j array else array))"

fun sort_outer_res :: "('a \<Rightarrow> 'a \<Rightarrow> int res) \<Rightarrow> nat list \<Rightarrow> 'a list \<Rightarrow> 'a list res" where
  "sort_outer_res compareFn [] array = Inr array"
| "sort_outer_res compareFn (i # is) array =
     bind_res (sort_inner_res compareFn i [i..<length array] array) (sort_outer_res compareFn is)"

definition sort_res :: "'a list \<Rightarrow> ('a \<Rightarrow> 'a \<Rightarrow> int res) \<Rightarrow> 'a list res" where
  "sort_res array compareFn = sort_outer_res compareFn [0..<length array] array"

subsection \<open>Comparing two cells\<close>

record cell_env =
  env_ie :: bool
  localeCompare :: "string \<Rightarrow> string \<Rightarrow> int"
  innerText :: "tcell \<Rightarrow> string"
  innerHTML :: "tcell \<Rightarrow> string"
  proto_call :: "string \<Rightarrow> tcell option \<Rightarrow> tcell option \<Rightarrow> int res"

text \<open>
  The second argument of the command: nothing, a number, a name or a function. A name that
  is a member of \<open>Object.prototype\<close> selects that member, which is the field \<open>proto_call\<close>.
\<close>

datatype compare_fn = NoFn | FnNumber int | FnName string
  | FnFunction "tcell option \<Rightarrow> tcell option \<Rightarrow> int res"

definition cell_text :: "tcell \<Rightarrow> string" where
  "cell_text td = concat (map textContent (childNodes td))"

definition first_digits :: "string \<Rightarrow> string" where
  "first_digits s = takeWhile is_digit (dropWhile (\<lambda>c. \<not> is_digit c) s)"

fun digits_value :: "nat \<Rightarrow> string \<Rightarrow> nat" where
  "digits_value acc [] = acc"
| "digits_value acc (c # s) = digits_value (acc * 10 + (code c - 48)) s"

text \<open>\<open>match(/\d+/)\<close>, then the unary plus, then \<open>|| 0\<close>.\<close>

definition cell_number :: "cell_env \<Rightarrow> tcell \<Rightarrow> int" where
  "cell_number env td = int (digits_value 0 (first_digits (if env_ie env then innerText env td else cell_text td)))"

definition reversecurrent :: "tcell option \<Rightarrow> tcell option \<Rightarrow> int res" where
  "reversecurrent td1 td2 = Inr 1"

definition or_else :: "string \<Rightarrow> string \<Rightarrow> string" where
  "or_else a b = (if a \<noteq> [] then a else b)"

definition orderbyasc :: "cell_env \<Rightarrow> tcell option \<Rightarrow> tcell option \<Rightarrow> int res" where
  "orderbyasc env td1 td2 = bind_res (need td1) (\<lambda>a. bind_res (need td2) (\<lambda>b.
     Inr (localeCompare env (or_else (innerText env a) (cell_text a)) (or_else (innerText env b) (cell_text b)))))"

definition reversebyasc :: "cell_env \<Rightarrow> tcell option \<Rightarrow> tcell option \<Rightarrow> int res" where
  "reversebyasc env td1 td2 = bind_res (need td1) (\<lambda>a. bind_res (need td2) (\<lambda>b.
     Inr (localeCompare env (innerHTML env b) (innerHTML env a))))"

definition orderbynum :: "cell_env \<Rightarrow> tcell option \<Rightarrow> tcell option \<Rightarrow> int res" where
  "orderbynum env td1 td2 = bind_res (need td1) (\<lambda>a. bind_res (need td2) (\<lambda>b.
     Inr (cell_number env a - cell_number env b)))"

definition reversebynum :: "cell_env \<Rightarrow> tcell option \<Rightarrow> tcell option \<Rightarrow> int res" where
  "reversebynum env td1 td2 = bind_res (need td1) (\<lambda>a. bind_res (need td2) (\<lambda>b.
     Inr (cell_number env b - cell_number env a)))"

definition Fn :: "cell_env \<Rightarrow> (tcell option \<Rightarrow> tcell option \<Rightarrow> int res) jsobj" where
  "Fn env = [(''reversecurrent'', reversecurrent), (''orderbyasc'', orderbyasc env),
     (''reversebyasc'', reversebyasc env), (''orderbynum'', orderbynum env), (''reversebynum'', reversebynum env)]"

definition Fn_get :: "cell_env \<Rightarrow> string \<Rightarrow> (tcell option \<Rightarrow> tcell option \<Rightarrow> int res) option" where
  "Fn_get env s = (case obj_get (Fn env) s of
     Some f \<Rightarrow> Some f
   | None \<Rightarrow> if s \<in> set object_prototype_names then Some (proto_call env s) else None)"

definition compare_rows :: "cell_env \<Rightarrow> nat \<Rightarrow> compare_fn \<Rightarrow> trow \<Rightarrow> trow \<Rightarrow> int res" where
  "compare_rows env k f tr1 tr2 =
     (let td1 = nth_opt (rcells tr1) k; td2 = nth_opt (rcells tr2) k in
      case f of
        FnFunction g \<Rightarrow> g td1 td2
      | FnNumber n \<Rightarrow> if n \<noteq> 0 then Inr 1 else orderbyasc env td1 td2
      | FnName s \<Rightarrow> (case Fn_get env s of Some g \<Rightarrow> g td1 td2 | None \<Rightarrow> orderbyasc env td1 td2)
      | NoFn \<Rightarrow> orderbyasc env td1 td2)"

subsection \<open>\<open>sortTable\<close>\<close>

definition sort_type :: "cell_env \<Rightarrow> compare_fn \<Rightarrow> string" where
  "sort_type env f = (case f of FnName s \<Rightarrow> if Fn_get env s \<noteq> None then s else [] | _ \<Rightarrow> [])"

text \<open>
  The indices of the rows to sort, and the place to insert them: \<open>None\<close> for the end. With
  selected cells but no range, the loop bound is not a number and no row is taken.
\<close>

definition chosen_rows :: "uetable \<Rightarrow> (nat list \<times> nat option) res" where
  "chosen_rows t = (case selectedTds t of
     None \<Rightarrow> Inl TypeError
   | Some [] \<Rightarrow> Inr ([0..<length (rows t)], None)
   | Some (_ # _) \<Rightarrow> (case cellsRange t of
       None \<Rightarrow> Inr ([], None)
     | Some r \<Rightarrow> Inr ([beginRowIndex r..<Suc (endRowIndex r)],
         if endRowIndex r + 1 = rowsNum t then None else Some (beginRowIndex r))))"

definition has_heading :: "uetable \<Rightarrow> bool res" where
  "has_heading t = bind_res (row_at t 0) (\<lambda>r. bind_res (need (nth_opt (rcells r) 0)) (\<lambda>c. Inr (ctag c = ''TH'')))"

definition without :: "nat list \<Rightarrow> 'a list \<Rightarrow> 'a list" where
  "without is xs = map ((!) xs) (filter (\<lambda>i. i \<notin> set is) [0..<length xs])"

definition sortTable :: "cell_env \<Rightarrow> nat \<Rightarrow> compare_fn \<Rightarrow> uetable \<Rightarrow> uetable res" where
  "sortTable env sortByCellIndex compareFn t =
     bind_res (has_heading t) (\<lambda>flag.
     bind_res (chosen_rows t) (\<lambda>(is, dest).
       let t = t\<lparr>tattrs := obj_set ''data-sort-type'' (sort_type env compareFn) (tattrs t)\<rparr>;
           is = (if flag then drop 1 is else is) in
       bind_res (seq_map (\<lambda>i. bind_res (row_at t i) (\<lambda>r. Inr [r])) is) (\<lambda>trArray.
       bind_res (sort_res trArray (compare_rows env sortByCellIndex compareFn)) (\<lambda>trArray.
       let rest = without is (rows t) in
       Inr (t\<lparr>rows := (case dest of None \<Rightarrow> rest @ trArray | Some k \<Rightarrow> take k rest @ trArray @ drop k rest)\<rparr>)))))"

subsection \<open>The commands\<close>

definition sorttable_state :: "(uetable \<times> nat option) option \<Rightarrow> int" where
  "sorttable_state items = (case items of
     Some (t, Some c) \<Rightarrow>
       if list_ex (\<lambda>x. ctag x = ''TD'' \<and> (rowSpan x \<noteq> 1 \<or> colSpan x \<noteq> 1)) (all_cells t) then - 1 else 0
   | _ \<Rightarrow> - 1)"

definition sorttable_exec :: "cell_env \<Rightarrow> compare_fn \<Rightarrow> uetable \<times> nat option \<Rightarrow> uetable res" where
  "sorttable_exec env f = (\<lambda>(ut, cell).
     bind_res (cellInfo_of ut cell) (\<lambda>cellInfo. sortTable env (cellIndex cellInfo) f ut))"

definition enablesort_state :: "bool \<Rightarrow> uetable option \<Rightarrow> int" where
  "enablesort_state enable table = (case table of
     None \<Rightarrow> - 1
   | Some t \<Rightarrow>
       if enable \<and> list_ex (\<lambda>x. colSpan x > 1 \<or> rowSpan x > 1) (all_cells t) then - 1
       else if enable \<noteq> (obj_get (tattrs t) ''data-sort'' \<noteq> Some ''sortEnabled'') then - 1 else 0)"

definition enablesort_exec :: "bool \<Rightarrow> uetable \<Rightarrow> uetable" where
  "enablesort_exec enable t =
     (let as = obj_set ''data-sort'' (if enable then ''sortEnabled'' else ''sortDisabled'') (tattrs t);
          cl = (case obj_get as ''class'' of Some c \<Rightarrow> c | None \<Rightarrow> []);
          cl = (if enable then addClass ''sortEnabled'' cl else removeClasses ''sortEnabled'' cl)
      in t\<lparr>tattrs := (if enable \<or> cl \<noteq> [] then obj_set ''class'' cl as else obj_del ''class'' as)\<rparr>)"

subsection \<open>The fallible sort and \<open>utils.sort\<close>\<close>

lemma mset_swap_list: "i < length xs \<Longrightarrow> j < length xs \<Longrightarrow> mset (swap i j xs) = mset xs"
  by (simp add: swap_def mset_swap)

lemma set_swap_list: "i < length xs \<Longrightarrow> j < length xs \<Longrightarrow> set (swap i j xs) = set xs"
  by (metis mset_swap_list set_mset_mset)

lemma sort_inner_res_mset:
  "sort_inner_res cf i js xs = Inr ys \<Longrightarrow> i < length xs \<Longrightarrow> \<forall>j \<in> set js. j < length xs \<Longrightarrow> mset ys = mset xs"
  by (induction js arbitrary: xs) (auto simp: bind_res_Inr mset_swap_list split: if_splits)

lemma sort_outer_res_mset:
  "sort_outer_res cf is xs = Inr ys \<Longrightarrow> \<forall>i \<in> set is. i < length xs \<Longrightarrow> mset ys = mset xs"
proof (induction "is" arbitrary: xs)
  case (Cons i "is")
  then obtain zs where z: "sort_inner_res cf i [i..<length xs] xs = Inr zs" "sort_outer_res cf is zs = Inr ys"
    by (auto simp: bind_res_Inr)
  have "mset zs = mset xs" using sort_inner_res_mset [OF z(1)] Cons.prems(2) by simp
  moreover from this have "length zs = length xs" by (rule mset_eq_length)
  ultimately show ?case using Cons.IH [OF z(2)] Cons.prems(2) by simp
qed simp

lemma sort_res_mset: "sort_res xs cf = Inr ys \<Longrightarrow> mset ys = mset xs"
  unfolding sort_res_def by (erule sort_outer_res_mset) simp

lemma sort_inner_res_pure:
  assumes "\<And>x y. x \<in> set array \<Longrightarrow> y \<in> set array \<Longrightarrow> cf x y = Inr (g x y)"
    and "i < length array" "\<forall>j \<in> set js. j < length array"
  shows "sort_inner_res cf i js array = Inr (sort_inner g i js array)"
  using assms
proof (induction js arbitrary: array)
  case (Cons j js)
  let ?a = "if g (array ! i) (array ! j) > 0 then swap i j array else array"
  have "set ?a = set array" using Cons.prems(2,3) by (simp add: set_swap_list)
  then have "sort_inner_res cf i js ?a = Inr (sort_inner g i js ?a)"
    using Cons.prems by (intro Cons.IH) auto
  then show ?case using Cons.prems by simp
qed simp

lemma set_sort_inner:
  "i < length xs \<Longrightarrow> \<forall>j \<in> set js. j < length xs \<Longrightarrow> set (sort_inner g i js xs) = set xs"
proof (induction js arbitrary: xs)
  case (Cons j js)
  then show ?case by (simp add: set_swap_list)
qed simp

lemma sort_outer_res_pure:
  assumes "\<And>x y. x \<in> set array \<Longrightarrow> y \<in> set array \<Longrightarrow> cf x y = Inr (g x y)"
    and "\<forall>i \<in> set is. i < length array"
  shows "sort_outer_res cf is array = Inr (sort_outer g is array)"
  using assms
proof (induction "is" arbitrary: array)
  case (Cons i "is")
  let ?a = "sort_inner g i [i..<length array] array"
  have "set ?a = set array" using Cons.prems(2) by (simp add: set_sort_inner)
  then have "sort_outer_res cf is ?a = Inr (sort_outer g is ?a)"
    using Cons.prems by (intro Cons.IH) auto
  then show ?case using Cons.prems by (simp add: sort_inner_res_pure [where g = g])
qed simp

lemma sort_res_pure:
  assumes "\<And>x y. x \<in> set xs \<Longrightarrow> y \<in> set xs \<Longrightarrow> cf x y = Inr (g x y)"
  shows "sort_res xs cf = Inr (sort xs g)"
  unfolding sort_res_def sort_def by (rule sort_outer_res_pure) (use assms in auto)

text \<open>A comparison by a key is a comparator, and so is its reverse.\<close>

interpretation by_key: comparator "\<lambda>a b. f a - f b" for f :: "'a \<Rightarrow> int"
  by unfold_locales auto

lemma sort_by_key: "sorted (map f (sort xs (\<lambda>a b. f a - f b)))" "mset (sort xs (\<lambda>a b. f a - f b)) = mset xs"
  using by_key.sort_correct [of f xs] by (simp_all add: sorted_map)

subsection \<open>The sorted table\<close>

lemma rows_of_indices:
  "\<forall>i \<in> set is. i < length (rows t) \<Longrightarrow>
   seq_map (\<lambda>i. bind_res (row_at t i) (\<lambda>r. Inr [r])) is = Inr (map ((!) (rows t)) is)"
  by (subst seq_map_Inr [where g = "\<lambda>i. [rows t ! i]"]) (auto simp: row_at_def nth_opt_def)

lemma rows_of_indicesD:
  "seq_map (\<lambda>i. bind_res (row_at t i) (\<lambda>r. Inr [r])) is = Inr rs \<Longrightarrow>
   (\<forall>i \<in> set is. i < length (rows t)) \<and> rs = map ((!) (rows t)) is"
  by (induction "is" arbitrary: rs) (auto simp: bind_res_Inr row_at_def nth_opt_def split: option.splits if_splits)

lemma mset_split: "mset (filter P xs) + mset (filter (\<lambda>x. \<not> P x) xs) = mset xs"
  by (induction xs) auto

lemma mset_without:
  assumes "distinct is" "\<forall>i \<in> set is. i < length xs"
  shows "mset (without is xs) + mset (map ((!) xs) is) = mset xs"
proof -
  have "mset (filter (\<lambda>i. i \<in> set is) [0..<length xs]) = mset is"
    using assms by (intro set_eq_iff_mset_eq_distinct [THEN iffD1]) auto
  then have "mset (without is xs) + mset (map ((!) xs) is) =
      image_mset ((!) xs) (mset (filter (\<lambda>i. i \<in> set is) [0..<length xs]) + mset (filter (\<lambda>i. i \<notin> set is) [0..<length xs]))"
    by (simp only: without_def mset_map image_mset_union add.commute)
  also have "\<dots> = mset (map ((!) xs) [0..<length xs])" by (simp only: mset_split mset_map)
  finally show ?thesis by (simp only: map_nth)
qed

lemma map_nth_upt: "b \<le> e \<Longrightarrow> e \<le> length xs \<Longrightarrow> map ((!) xs) [b..<e] = take (e - b) (drop b xs)"
  by (intro nth_equalityI) auto

lemma without_upt:
  assumes "b \<le> e" "e \<le> length xs"
  shows "without [b..<e] xs = take b xs @ drop e xs"
proof -
  have "[0..<length xs] = [0..<b] @ [b..<e] @ [e..<length xs]"
    using assms upt_add_eq_append [of 0 b "e - b"] upt_add_eq_append [of 0 e "length xs - e"] by simp
  then have "filter (\<lambda>i. i \<notin> set [b..<e]) [0..<length xs] = [0..<b] @ [e..<length xs]"
    by (auto simp: filter_empty_conv)
  then show ?thesis using assms by (simp add: without_def map_nth_upt)
qed

lemma chosen_rows_distinct: "chosen_rows t = Inr (is, dest) \<Longrightarrow> distinct is"
  by (auto simp: chosen_rows_def split: option.splits list.splits)

text \<open>What \<open>sortTable\<close> returns, when it returns.\<close>

lemma sortTable_Inr:
  assumes "sortTable env k f t = Inr t'"
  obtains flag "is" dest ys where "has_heading t = Inr flag" "chosen_rows t = Inr (is, dest)"
    "sort_res (map ((!) (rows t)) (if flag then drop 1 is else is)) (compare_rows env k f) = Inr ys"
    "\<forall>i \<in> set (if flag then drop 1 is else is). i < length (rows t)"
    "t' = t\<lparr>tattrs := obj_set ''data-sort-type'' (sort_type env f) (tattrs t),
       rows := (let rest = without (if flag then drop 1 is else is) (rows t) in
         case dest of None \<Rightarrow> rest @ ys | Some j \<Rightarrow> take j rest @ ys @ drop j rest)\<rparr>"
proof -
  have r: "row_at (t\<lparr>tattrs := a\<rparr>) i = row_at t i" for a i by (simp add: row_at_def)
  have u: "rows (t\<lparr>tattrs := a\<rparr>) = rows t" for a by simp
  obtain flag "is" dest where f: "has_heading t = Inr flag" "chosen_rows t = Inr (is, dest)"
    using assms by (auto simp: sortTable_def bind_res_Inr)
  let ?is = "if flag then drop 1 is else is"
  obtain rs ys where rs: "seq_map (\<lambda>i. bind_res (row_at t i) (\<lambda>r. Inr [r])) ?is = Inr rs"
    and ys: "sort_res rs (compare_rows env k f) = Inr ys"
    and t': "t' = t\<lparr>tattrs := obj_set ''data-sort-type'' (sort_type env f) (tattrs t),
       rows := (let rest = without ?is (rows t) in
         case dest of None \<Rightarrow> rest @ ys | Some j \<Rightarrow> take j rest @ ys @ drop j rest)\<rparr>"
    using assms unfolding sortTable_def Let_def f bind_res_simps prod.case r u by (auto simp: bind_res_Inr)
  show ?thesis using that [OF f _ _ t'] rows_of_indicesD [OF rs] ys by blast
qed

lemma sortTable_perm: "sortTable env k f t = Inr t' \<Longrightarrow> mset (rows t') = mset (rows t)"
proof (erule sortTable_Inr)
  fix flag and "is" :: "nat list" and dest :: "nat option" and ys
  let ?is = "if flag then drop 1 is else is"
  assume c: "chosen_rows t = Inr (is, dest)" and s: "sort_res (map ((!) (rows t)) ?is) (compare_rows env k f) = Inr ys"
    and l: "\<forall>i \<in> set ?is. i < length (rows t)"
    and t': "t' = t\<lparr>tattrs := obj_set ''data-sort-type'' (sort_type env f) (tattrs t),
       rows := (let rest = without ?is (rows t) in case dest of None \<Rightarrow> rest @ ys | Some j \<Rightarrow> take j rest @ ys @ drop j rest)\<rparr>"
  have d: "distinct ?is" using chosen_rows_distinct [OF c] by (auto intro: distinct_drop)
  have "mset (take j xs) + mset (drop j xs) = mset xs" for j and xs :: "trow list"
    by (metis append_take_drop_id mset_append)
  then have "mset (rows t') = mset (without ?is (rows t)) + mset ys"
    by (cases dest) (simp_all add: t' Let_def add.left_commute)
  then show ?thesis using mset_without [OF d l] sort_res_mset [OF s] by simp
qed

text \<open>The rows from \<open>b\<close> to before \<open>e\<close>, less a heading, sorted by a comparison that does not throw.\<close>

lemma sortTable_range:
  assumes "has_heading t = Inr flag" "chosen_rows t = Inr ([b..<e], dest)" "b < e" "e \<le> length (rows t)"
    and "\<And>x y. x \<in> set (rows t) \<Longrightarrow> y \<in> set (rows t) \<Longrightarrow> compare_rows env k f x y = Inr (g x y)"
    and b': "b' = (if flag then Suc b else b)"
  shows "sortTable env k f t = Inr (t\<lparr>tattrs := obj_set ''data-sort-type'' (sort_type env f) (tattrs t),
    rows := (let ys = sort (take (e - b') (drop b' (rows t))) g in case dest of
       None \<Rightarrow> take b' (rows t) @ drop e (rows t) @ ys
     | Some j \<Rightarrow> take j (take b' (rows t) @ drop e (rows t)) @ ys @ drop j (take b' (rows t) @ drop e (rows t)))\<rparr>)"
proof -
  have i: "(if flag then drop 1 [b..<e] else [b..<e]) = [b'..<e]" by (simp add: b')
  have n: "map ((!) (rows t)) [b'..<e] = take (e - b') (drop b' (rows t))"
    using assms(3,4) by (intro map_nth_upt) (simp_all add: b')
  have s: "sort_res (take (e - b') (drop b' (rows t))) (compare_rows env k f) = Inr (sort (take (e - b') (drop b' (rows t))) g)"
    by (rule sort_res_pure) (meson assms(5) in_set_dropD in_set_takeD)
  have w: "without [b'..<e] (rows t) = take b' (rows t) @ drop e (rows t)"
    using assms(3,4) by (intro without_upt) (simp_all add: b')
  have r: "seq_map (\<lambda>i. bind_res (row_at t i) (\<lambda>r. Inr [r])) [b'..<e] = Inr (map ((!) (rows t)) [b'..<e])"
    using assms(4) by (intro rows_of_indices) simp
  have u: "row_at (t\<lparr>tattrs := a\<rparr>) i = row_at t i" "rows (t\<lparr>tattrs := a\<rparr>) = rows t" for a i by (simp_all add: row_at_def)
  show ?thesis unfolding sortTable_def Let_def assms(1,2) bind_res_simps prod.case u i r n s w append_assoc ..
qed

subsection \<open>Properties\<close>

definition cell_key :: "cell_env \<Rightarrow> nat \<Rightarrow> trow \<Rightarrow> int" where
  "cell_key env k r = cell_number env (rcells r ! k)"

lemma compare_by_number:
  assumes "k < length (rcells x)" "k < length (rcells y)"
  shows "compare_rows env k (FnName ''orderbynum'') x y = Inr (cell_key env k x - cell_key env k y)"
    "compare_rows env k (FnName ''reversebynum'') x y = Inr (cell_key env k y - cell_key env k x)"
  using assms by (simp_all add: compare_rows_def Fn_get_def Fn_def orderbynum_def reversebynum_def nth_opt_def need_def cell_key_def)

definition body_from :: "uetable \<Rightarrow> nat" where
  "body_from t = (if has_heading t = Inr True then 1 else 0)"

lemma has_heading_ok: "rows t \<noteq> [] \<Longrightarrow> rcells (rows t ! 0) \<noteq> [] \<Longrightarrow> \<exists>flag. has_heading t = Inr flag"
  by (simp add: has_heading_def row_at_def nth_opt_def need_def)

lemma sortTable_unselected:
  assumes "selectedTds t = Some []" "rows t \<noteq> []" "rcells (rows t ! 0) \<noteq> []"
    and "\<And>x y. x \<in> set (rows t) \<Longrightarrow> y \<in> set (rows t) \<Longrightarrow> compare_rows env k f x y = Inr (g x y)"
  shows "sortTable env k f t = Inr (t\<lparr>tattrs := obj_set ''data-sort-type'' (sort_type env f) (tattrs t),
    rows := take (body_from t) (rows t) @ sort (drop (body_from t) (rows t)) g\<rparr>)"
proof -
  obtain flag where f: "has_heading t = Inr flag" using has_heading_ok assms(2,3) by blast
  have c: "chosen_rows t = Inr ([0..<length (rows t)], None)" by (simp add: chosen_rows_def assms(1))
  have "body_from t = (if flag then Suc 0 else 0)" by (simp add: body_from_def f)
  from sortTable_range [OF f c _ _ assms(4) this] show ?thesis using assms(2) by (simp add: Let_def)
qed

lemma sortTable_fields:
  "sortTable env k f t = Inr t' \<Longrightarrow> rowsNum t' = rowsNum t \<and> colsNum t' = colsNum t \<and> indexTable t' = indexTable t \<and>
     fresh t' = fresh t \<and> selectedTds t' = selectedTds t \<and> cellsRange t' = cellsRange t \<and>
     tattrs t' = obj_set ''data-sort-type'' (sort_type env f) (tattrs t)"
  by (erule sortTable_Inr) simp

lemma mset_concat_perm: "mset xss = mset yss \<Longrightarrow> mset (concat xss) = mset (concat yss)"
  by (simp add: mset_concat sum_mset_sum_list [symmetric])

lemma settled_perm:
  assumes p: "mset (rows t') = mset (rows t)" and s: "settled n t"
    and f: "rowsNum t' = rowsNum t" "colsNum t' = colsNum t" "indexTable t' = indexTable t" "fresh t' = fresh t"
  shows "settled n t'"
proof -
  have len: "length (rows t') = length (rows t)" using p by (rule mset_eq_length)
  have set: "set (rows t') = set (rows t)" using p by (metis set_mset_mset)
  have "mset (map rcells (rows t')) = mset (map rcells (rows t))" using p by simp
  then have all: "mset (all_cells t') = mset (all_cells t)" unfolding all_cells_def by (rule mset_concat_perm)
  then have c: "set (all_cells t') = set (all_cells t)" by (metis set_mset_mset)
  have "mset (map cid (all_cells t')) = mset (map cid (all_cells t))" using all by simp
  then have "distinct (map cid (all_cells t')) = distinct (map cid (all_cells t))" by (rule mset_eq_imp_distinct_iff)
  moreover have "rows t' = [] \<longleftrightarrow> rows t = []" using len by (metis length_0_conv)
  ultimately show ?thesis using s by (simp add: settled_def regular_def unmarked_def fresh_ids_def len set c f)
qed

text \<open>A heading over rows with the numbers 3, 1, 2 and an environment that reads the text of a cell.\<close>

definition plain_env :: cell_env where
  "plain_env = \<lparr>env_ie = False, localeCompare = (\<lambda>a b. int (length a) - int (length b)), innerText = cell_text,
     innerHTML = cell_text, proto_call = (\<lambda>_ _ _. Inr 0)\<rparr>"

definition text_row :: "string \<Rightarrow> nat \<Rightarrow> string \<Rightarrow> trow" where
  "text_row tag i s = \<lparr>rcells = [(new_cell i tag)\<lparr>childNodes := [CText s]\<rparr>], rclass = []\<rparr>"

definition score_table :: uetable where
  "score_table = demo_table\<lparr>rows := [text_row ''TH'' 0 ''n'', text_row ''TD'' 1 ''a 3'', text_row ''TD'' 2 ''1 b'', text_row ''TD'' 3 ''2''],
     rowsNum := 4, colsNum := 1, fresh := 4\<rparr>"

definition row_ids :: "uetable res \<Rightarrow> nat list list" where
  "row_ids r = (case r of Inr t \<Rightarrow> map (\<lambda>x. map cid (rcells x)) (rows t) | Inl _ \<Rightarrow> [])"

text \<open>C20. Sorting moves rows and does nothing else: whatever the comparison (a function of the caller, one that is not
  an order) and whatever is selected, when \<open>sortTable\<close> returns, the table has exactly the rows it had, each as
  often as before. The index, which the function does not rebuild, stays correct for a table without merged
  cells.\<close>

theorem sortTable_keeps_rows:
  assumes "sortTable env k f t = Inr t'"
  shows "mset (rows t') = mset (rows t) \<and> (settled n t \<longrightarrow> settled n t')"
  using sortTable_perm [OF assms] sortTable_fields [OF assms] settled_perm by blast

theorem sortTable_keeps_rows_witness:
  "\<exists>t'. sortTable plain_env 0 (FnName ''orderbyasc'') score_table = Inr t' \<and> mset (rows t') = mset (rows score_table)"
proof -
  have "row_ids (sortTable plain_env 0 (FnName ''orderbyasc'') score_table) = [[0], [3], [2], [1]]" by code_simp
  then obtain t' where "sortTable plain_env 0 (FnName ''orderbyasc'') score_table = Inr t'"
    by (auto simp: row_ids_def split: sum.splits)
  then show ?thesis using sortTable_keeps_rows by blast
qed

text \<open>C19. Without a selection, sorting by number returns whenever every row has a cell in the column, leaves the heading row
  where it is, and puts the other rows into the order of the first number in that column; sorting by number in reverse gives the
  opposite order. The table records the order in \<open>data-sort-type\<close>.\<close>

theorem sortTable_by_number:
  assumes "selectedTds t = Some []" "rows t \<noteq> []" "\<forall>r \<in> set (rows t). k < length (rcells r)"
  shows "\<exists>up down. sortTable env k (FnName ''orderbynum'') t = Inr up \<and> sortTable env k (FnName ''reversebynum'') t = Inr down \<and>
    take (body_from t) (rows up) = take (body_from t) (rows t) \<and> take (body_from t) (rows down) = take (body_from t) (rows t) \<and>
    sorted (map (cell_key env k) (drop (body_from t) (rows up))) \<and>
    sorted (rev (map (cell_key env k) (drop (body_from t) (rows down)))) \<and>
    mset (rows up) = mset (rows t) \<and> mset (rows down) = mset (rows t) \<and>
    obj_get (tattrs up) ''data-sort-type'' = Some ''orderbynum''"
proof -
  have ne: "rcells (rows t ! 0) \<noteq> []" using assms(2,3) by (metis length_greater_0_conv list.size(3) not_less_zero nth_mem)
  have b: "body_from t \<le> length (rows t)" using assms(2) by (cases "rows t") (auto simp: body_from_def)
  let ?f = "cell_key env k" and ?hd = "take (body_from t) (rows t)" and ?body = "drop (body_from t) (rows t)"
  have up: "sortTable env k (FnName ''orderbynum'') t = Inr (t\<lparr>tattrs := obj_set ''data-sort-type'' (sort_type env (FnName ''orderbynum'')) (tattrs t),
      rows := ?hd @ sort ?body (\<lambda>a b. ?f a - ?f b)\<rparr>)"
    by (rule sortTable_unselected [OF assms(1,2) ne]) (use assms(3) compare_by_number in blast)
  have down: "sortTable env k (FnName ''reversebynum'') t = Inr (t\<lparr>tattrs := obj_set ''data-sort-type'' (sort_type env (FnName ''reversebynum'')) (tattrs t),
      rows := ?hd @ sort ?body (\<lambda>a b. ?f b - ?f a)\<rparr>)"
    by (rule sortTable_unselected [OF assms(1,2) ne]) (use assms(3) compare_by_number in blast)
  have s1: "sorted (map ?f (sort ?body (\<lambda>a b. ?f a - ?f b)))" by (rule sort_by_key)
  have "(\<lambda>a b. - ?f a - - ?f b) = (\<lambda>a b. ?f b - ?f a)" by auto
  then have "sorted (map (\<lambda>a. - ?f a) (sort ?body (\<lambda>a b. ?f b - ?f a)))" using sort_by_key(1) [of "\<lambda>a. - ?f a" ?body] by simp
  then have s2: "sorted (rev (map ?f (sort ?body (\<lambda>a b. ?f b - ?f a))))"
    by (simp add: sorted_map sorted_wrt_rev sorted_wrt_map)
  have "sort_type env (FnName ''orderbynum'') = ''orderbynum''" by (simp add: sort_type_def Fn_get_def Fn_def)
  then show ?thesis using up down s1 s2 b sortTable_perm [OF up] sortTable_perm [OF down] by (simp add: update_conv)
qed

theorem sortTable_by_number_witness:
  "\<exists>up. sortTable plain_env 0 (FnName ''orderbynum'') score_table = Inr up \<and>
    sorted (map (cell_key plain_env 0) (drop (body_from score_table) (rows up))) \<and>
    row_ids (sortTable plain_env 0 (FnName ''orderbynum'') score_table) = [[0], [2], [3], [1]]"
proof -
  have "row_ids (sortTable plain_env 0 (FnName ''orderbynum'') score_table) = [[0], [2], [3], [1]]" by code_simp
  then show ?thesis
    using sortTable_by_number [of score_table 0 plain_env] by (auto simp: score_table_def demo_table_def text_row_def)
qed

text \<open>Any number other than zero as the comparison reverses the rows below the heading, because \<open>utils.sort\<close> with a
  comparison that always asks for an exchange reverses its array. Reversing twice gives the table's rows back.\<close>

theorem sortTable_reverses:
  assumes "selectedTds t = Some []" "rows t \<noteq> []" "rcells (rows t ! 0) \<noteq> []" "i \<noteq> 0"
    and "has_heading t = Inr False \<longrightarrow> rcells (last (rows t)) \<noteq> [] \<and> ctag (rcells (last (rows t)) ! 0) \<noteq> ''TH''"
  shows "\<exists>t' t''. sortTable env k (FnNumber i) t = Inr t' \<and>
    rows t' = take (body_from t) (rows t) @ rev (drop (body_from t) (rows t)) \<and>
    sortTable env k (FnNumber i) t' = Inr t'' \<and> rows t'' = rows t"
proof -
  have step: "sortTable env k (FnNumber i) u = Inr (u\<lparr>tattrs := obj_set ''data-sort-type'' (sort_type env (FnNumber i)) (tattrs u),
      rows := take (body_from u) (rows u) @ rev (drop (body_from u) (rows u))\<rparr>)"
    if "selectedTds u = Some []" "rows u \<noteq> []" "rcells (rows u ! 0) \<noteq> []" for u
    using sortTable_unselected [OF that, of env k "FnNumber i" "\<lambda>_ _. 1"] assms(4) by (simp add: compare_rows_def sort_one_rev)
  let ?t' = "t\<lparr>tattrs := obj_set ''data-sort-type'' (sort_type env (FnNumber i)) (tattrs t),
      rows := take (body_from t) (rows t) @ rev (drop (body_from t) (rows t))\<rparr>"
  obtain flag where f: "has_heading t = Inr flag" using has_heading_ok assms(2,3) by blast
  have first: "rows ?t' ! 0 = (if flag then rows t ! 0 else last (rows t))"
    using assms(2) f by (cases "rows t") (auto simp: body_from_def hd_rev [symmetric] hd_conv_nth)
  have ne: "rows ?t' \<noteq> []" "rcells (rows ?t' ! 0) \<noteq> []"
    using assms(2,3,5) f first by (auto simp: body_from_def)
  have "has_heading ?t' = Inr flag"
    using ne first f assms(2,5) by (auto simp: has_heading_def row_at_def nth_opt_def need_def split: if_splits)
  then have "body_from ?t' = body_from t" by (simp add: body_from_def f)
  moreover have "length (take (body_from t) (rows t)) = body_from t" using assms(2) by (cases "rows t") (auto simp: body_from_def)
  ultimately have "take (body_from ?t') (rows ?t') @ rev (drop (body_from ?t') (rows ?t')) = rows t" by simp
  then show ?thesis using step [OF assms(1-3)] step [of ?t'] assms(1) ne by auto
qed

theorem sortTable_reverses_witness:
  "\<exists>t' t''. sortTable plain_env 0 (FnNumber 1) score_table = Inr t' \<and>
    sortTable plain_env 0 (FnNumber 1) t' = Inr t'' \<and> rows t'' = rows score_table"
  using sortTable_reverses [of score_table 1 plain_env 0]
  by (auto simp: score_table_def demo_table_def text_row_def new_cell_def)

text \<open>A selection that does not reach the last row of a table with a heading: the function takes the first selected row for
  the heading, leaves it out of the sort and inserts the sorted rows before it. When the selection starts at the
  heading, the heading ends up below its rows; when it starts further down, an ordinary row is left out.\<close>

theorem sortTable_displaces_first_row:
  assumes "selectedTds t = Some (c # cs)" "cellsRange t = Some r" "has_heading t = Inr True"
    and "beginRowIndex r \<le> endRowIndex r" "endRowIndex r + 1 < rowsNum t" "rowsNum t = length (rows t)"
    and "\<forall>r \<in> set (rows t). k < length (rcells r)"
  shows "\<exists>t' ys. sortTable env k (FnName ''orderbynum'') t = Inr t' \<and>
    rows t' = take (beginRowIndex r) (rows t) @ ys @ rows t ! beginRowIndex r # drop (endRowIndex r + 1) (rows t) \<and>
    sorted (map (cell_key env k) ys) \<and>
    mset ys = mset (take (endRowIndex r - beginRowIndex r) (drop (beginRowIndex r + 1) (rows t)))"
proof -
  let ?b = "beginRowIndex r" and ?e = "Suc (endRowIndex r)" and ?f = "cell_key env k"
  let ?ys = "sort (take (?e - Suc ?b) (drop (Suc ?b) (rows t))) (\<lambda>a b. ?f a - ?f b)"
  have ch: "chosen_rows t = Inr ([?b..<?e], Some ?b)" using assms(1,2,5) by (simp add: chosen_rows_def)
  have b: "?b < ?e" "?e \<le> length (rows t)" using assms(4-6) by simp_all
  have cmp: "compare_rows env k (FnName ''orderbynum'') x y = Inr (?f x - ?f y)" if "x \<in> set (rows t)" "y \<in> set (rows t)" for x y
    using compare_by_number(1) assms(7) that by blast
  have "take ?b (take (Suc ?b) (rows t) @ drop ?e (rows t)) = take ?b (rows t)"
    "drop ?b (take (Suc ?b) (rows t) @ drop ?e (rows t)) = rows t ! ?b # drop ?e (rows t)"
    using b by (simp_all add: take_Suc_conv_app_nth)
  then have "\<exists>t'. sortTable env k (FnName ''orderbynum'') t = Inr t' \<and> rows t' = take ?b (rows t) @ ?ys @ rows t ! ?b # drop ?e (rows t)"
    using sortTable_range [OF assms(3) ch b cmp refl] by simp
  then show ?thesis using sort_by_key [where f = ?f and xs = "take (?e - Suc ?b) (drop (Suc ?b) (rows t))"] by auto
qed

definition heading_selected :: uetable where
  "heading_selected = score_table\<lparr>selectedTds := Some [0],
     cellsRange := Some \<lparr>beginRowIndex = 0, beginColIndex = 0, endRowIndex = 2, endColIndex = 0\<rparr>\<rparr>"

theorem sortTable_displaces_first_row_witness:
  "row_ids (sortTable plain_env 0 (FnName ''orderbynum'') heading_selected) = [[2], [1], [0], [3]] \<and>
   (\<exists>t' ys. sortTable plain_env 0 (FnName ''orderbynum'') heading_selected = Inr t' \<and>
     rows t' = ys @ rows heading_selected ! 0 # drop 3 (rows heading_selected))"
proof -
  have "row_ids (sortTable plain_env 0 (FnName ''orderbynum'') heading_selected) = [[2], [1], [0], [3]]" by code_simp
  moreover have "has_heading heading_selected = Inr True"
    by (simp add: has_heading_def heading_selected_def score_table_def text_row_def new_cell_def row_at_def nth_opt_def need_def)
  ultimately show ?thesis
    using sortTable_displaces_first_row [of heading_selected 0 "[]" _ 0 plain_env]
    by (simp add: heading_selected_def score_table_def text_row_def eval_nat_numeral) blast
qed

text \<open>The commands that switch sorting on and off are enabled in turn: after either is run on a table without merged
  cells, it is disabled and the other one is enabled.\<close>

theorem enablesort_toggles:
  assumes "\<forall>x \<in> set (all_cells t). colSpan x = 1 \<and> rowSpan x = 1"
  shows "enablesort_state b (Some (enablesort_exec b t)) = - 1 \<and> enablesort_state (\<not> b) (Some (enablesort_exec b t)) = 0"
proof -
  have "\<not> list_ex (\<lambda>x. colSpan x > 1 \<or> rowSpan x > 1) (all_cells (enablesort_exec b t))"
    using assms by (auto simp: list_ex_iff all_cells_def enablesort_exec_def Let_def)
  moreover have "obj_get (tattrs (enablesort_exec b t)) ''data-sort'' = Some (if b then ''sortEnabled'' else ''sortDisabled'')"
    by (simp add: enablesort_exec_def Let_def update_conv delete_conv)
  ultimately show ?thesis by (simp add: enablesort_state_def)
qed

theorem enablesort_toggles_witness:
  "enablesort_state True (Some (enablesort_exec True score_table)) = - 1 \<and> enablesort_state False (Some (enablesort_exec True score_table)) = 0"
  using enablesort_toggles [of score_table True] by (simp add: all_cells_def score_table_def text_row_def new_cell_def)

end
