(* ===== verification/Login.thy ===== *)
theory Login
  imports JsRegExp "HOL-Library.Multiset"
begin

text \<open>
  \<open>web/system/js/login.js\<close>: the login form of the administration pages. The page is a record: the
  two input fields, the button that asks for a code (enabled or not, with its label), the running
  countdown timers, the button that an answer of the server has put into \<open>user_option\<close>,
  the requests that wait for an answer and a log of what the user and the server see. What happens
  to it is an event: typing, a click, a tick of a timer, the answer to a request, in any order.
  The texts on the page are the constructors of \<open>notice\<close> and \<open>label\<close>.
\<close>

datatype notice = AskPhone | BadPhone | AskCode | ServerSays "string option"

datatype label = LabelGet | LabelAgain nat

datatype user_option = NoButton | ResiteBtn | LoginBtn

datatype url = UrlTel | UrlSignin | UrlSignup

text \<open>A request: its address and the fields \<open>tel\<close> and \<open>verifyCode\<close>.\<close>

record request =
  req_url :: url
  req_tel :: string
  req_code :: "string option"

datatype action = Alert notice | Post request | Navigate string | Console bool

text \<open>
  An answer: \<open>status\<close>, \<open>data\<close> with its field \<open>isReg\<close> and \<open>message\<close>, each of which can
  be missing.
\<close>

record response =
  status :: "int option"
  isReg :: "int option option"
  message :: "string option"

record page =
  phoneNumber :: string
  loginpwd :: string
  disabled :: bool
  btn_label :: label
  timers :: "nat list"
  option_btn :: user_option
  waiting :: "request list"
  log :: "action list"

definition load :: page where
  "load = \<lparr>phoneNumber = [], loginpwd = [], disabled = False, btn_label = LabelGet, timers = [],
     option_btn = NoButton, waiting = [], log = []\<rparr>"

definition emit :: "action \<Rightarrow> page \<Rightarrow> page" where
  "emit a p = p\<lparr>log := log p @ [a]\<rparr>"

definition ajax :: "request \<Rightarrow> page \<Rightarrow> page" where
  "ajax r p = emit (Post r) (p\<lparr>waiting := waiting p @ [r]\<rparr>)"

subsection \<open>Asking for a code\<close>

definition phone_re :: re where
  "phone_re = seqs ([Bol, chr CHR ''1'',
     Cap 1 (alts [chr CHR ''3'', chr CHR ''4'', chr CHR ''5'', chr CHR ''7'', chr CHR ''8''])] @
     replicate 9 digit @ [Eol])"

definition getVerification :: "string \<Rightarrow> page \<Rightarrow> page" where
  "getVerification ph = ajax \<lparr>req_url = UrlTel, req_tel = ph, req_code = None\<rparr>"

definition countDown :: "page \<Rightarrow> page" where
  "countDown p = p\<lparr>timers := timers p @ [60]\<rparr>"

text \<open>One run of the function that the interval of the timer \<open>i\<close> calls.\<close>

definition tick :: "nat \<Rightarrow> page \<Rightarrow> page" where
  "tick i p = (case nth_opt (timers p) i of
     None \<Rightarrow> p
   | Some num \<Rightarrow>
       if num = 0 then p\<lparr>disabled := False, btn_label := LabelGet, timers := take i (timers p) @ drop (Suc i) (timers p)\<rparr>
       else p\<lparr>disabled := True, btn_label := LabelAgain num, timers := (timers p)[i := num - 1]\<rparr>)"

definition clickVerify :: "page \<Rightarrow> page" where
  "clickVerify p =
     (let ph = phoneNumber p in
      if ph = [] then emit (Alert AskPhone) p
      else if \<not> test phone_re ph then emit (Alert BadPhone) p
      else countDown (getVerification ph p))"

text \<open>
  The answer to the request for a code. Without \<open>data\<close> the handler throws after the
  message on the console, and the page keeps its button.
\<close>

definition verification_success :: "response \<Rightarrow> page \<Rightarrow> page" where
  "verification_success d p =
     (let p = emit (Console (status d = Some 200)) p in
      case isReg d of
        None \<Rightarrow> p
      | Some r \<Rightarrow> if r = Some 1 then p\<lparr>option_btn := ResiteBtn\<rparr> else p\<lparr>option_btn := LoginBtn\<rparr>)"

subsection \<open>Logging in and registering\<close>

definition loginVerify :: "page \<Rightarrow> page" where
  "loginVerify p =
     (let t = phoneNumber p; v = loginpwd p in
      if t = [] then emit (Alert AskPhone) p
      else if v = [] then emit (Alert AskCode) p
      else ajax \<lparr>req_url = UrlSignin, req_tel = t, req_code = Some v\<rparr> p)"

definition registerVerify :: "page \<Rightarrow> page" where
  "registerVerify p =
     (let t = phoneNumber p; v = loginpwd p in
      if t = [] then emit (Alert AskPhone) p
      else if v = [] then emit (Alert AskCode) p
      else ajax \<lparr>req_url = UrlSignup, req_tel = t, req_code = Some v\<rparr> p)"

definition signin_success :: "response \<Rightarrow> page \<Rightarrow> page" where
  "signin_success d p =
     (if status d = Some 200 then emit (Navigate ''index.html'') p else emit (Alert (ServerSays (message d))) p)"

definition signup_success :: "response \<Rightarrow> page \<Rightarrow> page" where
  "signup_success d p =
     (if status d = Some 200 then emit (Navigate ''index.html'') p else emit (Alert (ServerSays (message d))) p)"

text \<open>The argument of the error handler is the request object, which has no \<open>message\<close>.\<close>

definition signin_error :: "page \<Rightarrow> page" where
  "signin_error p = emit (Alert (ServerSays None)) p"

definition signup_error :: "page \<Rightarrow> page" where
  "signup_error p = emit (Alert (ServerSays None)) p"

definition register_click :: "page \<Rightarrow> page" where
  "register_click p = (if option_btn p = ResiteBtn then registerVerify p else p)"

definition loginBtn_click :: "page \<Rightarrow> page" where
  "loginBtn_click p = (if option_btn p = LoginBtn then loginVerify p else p)"

subsection \<open>Events\<close>

datatype event = TypePhone string | TypeCode string | ClickGet | ClickRegister | ClickLogin
  | Tick nat | Answer nat response | Fail nat

definition answer :: "request \<Rightarrow> response option \<Rightarrow> page \<Rightarrow> page" where
  "answer r d p = (case (req_url r, d) of
     (UrlTel, Some d) \<Rightarrow> verification_success d p
   | (UrlSignin, Some d) \<Rightarrow> signin_success d p
   | (UrlSignup, Some d) \<Rightarrow> signup_success d p
   | (UrlTel, None) \<Rightarrow> p
   | (UrlSignin, None) \<Rightarrow> signin_error p
   | (UrlSignup, None) \<Rightarrow> signup_error p)"

definition settle :: "nat \<Rightarrow> response option \<Rightarrow> page \<Rightarrow> page" where
  "settle i d p = (case nth_opt (waiting p) i of
     None \<Rightarrow> p
   | Some r \<Rightarrow> answer r d (p\<lparr>waiting := take i (waiting p) @ drop (Suc i) (waiting p)\<rparr>))"

text \<open>A button that is disabled takes no click.\<close>

fun step :: "event \<Rightarrow> page \<Rightarrow> page" where
  "step (TypePhone s) p = p\<lparr>phoneNumber := s\<rparr>"
| "step (TypeCode s) p = p\<lparr>loginpwd := s\<rparr>"
| "step ClickGet p = (if disabled p then p else clickVerify p)"
| "step ClickRegister p = register_click p"
| "step ClickLogin p = loginBtn_click p"
| "step (Tick i) p = tick i p"
| "step (Answer i d) p = settle i (Some d) p"
| "step (Fail i) p = settle i None p"

definition run :: "event list \<Rightarrow> page" where
  "run es = fold step es load"

subsection \<open>The phone number\<close>

lemma m_anchored: "pre \<noteq> [] \<Longrightarrow> m (Seq Bol r) (pre, s, cs) = []"
  by simp

lemma exec_anchored_late: "pre \<noteq> [] \<Longrightarrow> exec (Seq Bol r) pre s = None"
proof (induction s arbitrary: pre)
  case Nil
  then show ?case by (intro exec_Nil_none m_anchored)
next
  case (Cons x s)
  then show ?case by (simp add: exec_Cons_skip m_anchored)
qed

lemma test_anchored: "test (Seq Bol r) s \<longleftrightarrow> m r ([], s, []) \<noteq> []"
proof (cases "m r ([], s, [])")
  case Nil
  then have "exec (Seq Bol r) [] s = None" by (cases s) (simp_all add: exec_Cons_skip exec_anchored_late exec_Nil_none)
  then show ?thesis using Nil by (simp add: test_def)
next
  case (Cons t ts)
  then have "exec (Seq Bol r) [] s \<noteq> None" by (subst exec.simps) (cases t, simp)
  then show ?thesis using Cons by (simp add: test_def)
qed

fun digits_then_end :: "nat \<Rightarrow> string \<Rightarrow> bool" where
  "digits_then_end 0 s = (s = [])"
| "digits_then_end (Suc n) [] = False"
| "digits_then_end (Suc n) (c # s) = (is_digit c \<and> digits_then_end n s)"

lemma m_digits: "m (seqs (replicate n digit @ [Eol])) (pre, s, cs) \<noteq> [] \<longleftrightarrow> digits_then_end n s"
proof (induction n arbitrary: pre s)
  case (Suc n)
  have "m (seqs (replicate (Suc n) digit @ [Eol])) (pre, s, cs) =
      concat (map (m (seqs (replicate n digit @ [Eol]))) (m digit (pre, s, cs)))"
    by (simp only: replicate_Suc append_Cons m_seqs_Cons)
  then show ?case using Suc.IH by (cases s) (auto simp: digit_def)
qed simp

lemma digits_then_end_iff: "digits_then_end n s \<longleftrightarrow> length s = n \<and> list_all is_digit s"
  by (induction n s rule: digits_then_end.induct) auto

lemma phone_re_iff:
  "test phone_re s \<longleftrightarrow> (\<exists>d ds. s = CHR ''1'' # d # ds \<and> d \<in> set ''34578'' \<and> length ds = 9 \<and> list_all is_digit ds)"
proof -
  let ?tail = "seqs (replicate 9 digit @ [Eol])"
  let ?two = "Cap 1 (alts [chr CHR ''3'', chr CHR ''4'', chr CHR ''5'', chr CHR ''7'', chr CHR ''8''])"
  have p: "phone_re = Seq Bol (Seq (chr CHR ''1'') (Seq ?two ?tail))"
    by (simp add: phone_re_def eval_nat_numeral)
  have "test phone_re s \<longleftrightarrow> m (Seq (chr CHR ''1'') (Seq ?two ?tail)) ([], s, []) \<noteq> []"
    unfolding p test_anchored ..
  also have "\<dots> \<longleftrightarrow> (\<exists>ds'. s = CHR ''1'' # ds' \<and> m (Seq ?two ?tail) ([CHR ''1''], ds', []) \<noteq> [])"
    by (cases s) (auto simp: chr_def)
  also have "\<dots> \<longleftrightarrow> (\<exists>d ds. s = CHR ''1'' # d # ds \<and> d \<in> set ''34578'' \<and> digits_then_end 9 ds)"
  proof -
    have "m (Seq ?two ?tail) ([CHR ''1''], ds', []) \<noteq> [] \<longleftrightarrow>
        (\<exists>d ds. ds' = d # ds \<and> d \<in> set ''34578'' \<and> digits_then_end 9 ds)" for ds'
      using m_digits [of 9] by (cases ds') (auto simp: chr_def set_cap_def simp del: replicate.simps)
    then show ?thesis by auto
  qed
  finally show ?thesis by (simp add: digits_then_end_iff)
qed

subsection \<open>The invariant\<close>

definition valid_request :: "request \<Rightarrow> bool" where
  "valid_request r \<longleftrightarrow> (case req_url r of
     UrlTel \<Rightarrow> test phone_re (req_tel r) \<and> req_code r = None
   | _ \<Rightarrow> req_tel r \<noteq> [] \<and> (\<exists>v. req_code r = Some v \<and> v \<noteq> []))"

fun label_ok :: "bool \<Rightarrow> label \<Rightarrow> bool" where
  "label_ok d LabelGet = (\<not> d)"
| "label_ok d (LabelAgain n) = (d \<and> 1 \<le> n \<and> n \<le> 60)"

definition wf :: "page \<Rightarrow> bool" where
  "wf p \<longleftrightarrow> (\<forall>n \<in> set (timers p). n \<le> 60) \<and> (disabled p \<longrightarrow> timers p \<noteq> []) \<and>
     label_ok (disabled p) (btn_label p) \<and>
     (\<forall>r. Post r \<in> set (log p) \<longrightarrow> valid_request r) \<and> (\<forall>r \<in> set (waiting p). Post r \<in> set (log p))"

named_theorems page_simps \<open>what the operations do to the fields of the page\<close>

lemma emit_fields [page_simps, simp]:
  "timers (emit a p) = timers p" "disabled (emit a p) = disabled p" "btn_label (emit a p) = btn_label p"
  "log (emit a p) = log p @ [a]" "waiting (emit a p) = waiting p" "phoneNumber (emit a p) = phoneNumber p"
  "loginpwd (emit a p) = loginpwd p" "option_btn (emit a p) = option_btn p"
  by (simp_all add: emit_def)

lemma wf_emit: "wf p \<Longrightarrow> (\<And>r. a \<noteq> Post r) \<Longrightarrow> wf (emit a p)"
  by (auto simp: wf_def)

lemma wf_ajax: "wf p \<Longrightarrow> valid_request r \<Longrightarrow> wf (ajax r p)"
  by (auto simp: wf_def ajax_def)

lemma wf_clickVerify: "wf p \<Longrightarrow> wf (clickVerify p)"
proof -
  assume w: "wf p"
  have "wf (countDown q)" if "wf q" for q using that by (auto simp: wf_def countDown_def)
  moreover have "wf (getVerification (phoneNumber p) p)" if "test phone_re (phoneNumber p)"
    unfolding getVerification_def using w by (rule wf_ajax) (simp add: valid_request_def that)
  ultimately show ?thesis using w by (simp add: clickVerify_def Let_def wf_emit)
qed

lemma wf_tick: "wf p \<Longrightarrow> wf (tick i p)"
proof (cases "i < length (timers p)")
  case True
  assume w: "wf p"
  have n: "timers p ! i \<le> 60" using w True by (simp add: wf_def)
  have d: "\<forall>n \<in> set (take i (timers p) @ drop (Suc i) (timers p)). n \<le> 60"
    using w by (auto simp: wf_def dest: in_set_takeD in_set_dropD)
  have u: "\<forall>n \<in> set ((timers p)[i := timers p ! i - 1]). n \<le> 60"
    using w n by (auto simp: wf_def dest!: set_update_subset_insert [THEN subsetD])
  show ?thesis using w True n d u by (auto simp: wf_def tick_def nth_opt_def)
next
  case False
  assume "wf p"
  then show ?thesis using False by (simp add: tick_def nth_opt_def)
qed

lemma wf_verify: "wf p \<Longrightarrow> wf (loginVerify p)" "wf p \<Longrightarrow> wf (registerVerify p)"
  by (simp_all add: loginVerify_def registerVerify_def Let_def wf_emit wf_ajax valid_request_def)

lemma wf_answer: "wf p \<Longrightarrow> wf (answer r d p)"
proof -
  assume w: "wf p"
  have "wf (p\<lparr>option_btn := b\<rparr>)" if "wf p" for p b using that by (simp add: wf_def)
  then show ?thesis using w
    by (auto simp: answer_def verification_success_def signin_success_def signup_success_def signin_error_def signup_error_def
        Let_def wf_emit split: url.splits option.splits)
qed

lemma wf_settle: "wf p \<Longrightarrow> wf (settle i d p)"
proof -
  assume "wf p"
  then have "wf (p\<lparr>waiting := take i (waiting p) @ drop (Suc i) (waiting p)\<rparr>)"
    by (auto simp: wf_def dest: in_set_takeD in_set_dropD)
  then show ?thesis using \<open>wf p\<close> by (simp add: settle_def wf_answer split: option.split)
qed

lemma wf_step: "wf p \<Longrightarrow> wf (step e p)"
proof (cases e)
  case (TypePhone s)
  then show "wf p \<Longrightarrow> ?thesis" by (simp add: wf_def)
next
  case (TypeCode s)
  then show "wf p \<Longrightarrow> ?thesis" by (simp add: wf_def)
qed (simp_all add: wf_clickVerify wf_tick wf_settle register_click_def loginBtn_click_def wf_verify)

lemma wf_fold: "wf p \<Longrightarrow> wf (fold step es p)"
  by (induction es arbitrary: p) (auto simp: wf_step)

lemma wf_run: "wf (run es)"
  unfolding run_def by (rule wf_fold) (simp add: wf_def load_def)

subsection \<open>Properties\<close>

text \<open>The check of the phone number accepts exactly the strings of eleven characters that start with 13, 14, 15, 17
  or 18 and go on with digits.\<close>

theorem phone_re_exact:
  "test phone_re s \<longleftrightarrow> length s = 11 \<and> s ! 0 = CHR ''1'' \<and> s ! 1 \<in> set ''34578'' \<and> list_all is_digit s"
proof
  assume "test phone_re s"
  then obtain d ds where s: "s = CHR ''1'' # d # ds" and d: "d \<in> set ''34578''" "length ds = 9" "list_all is_digit ds"
    by (auto simp: phone_re_iff)
  have "is_digit CHR ''1''" "is_digit d" using d(1) by (auto simp: is_digit_def code_def)
  then have "list_all is_digit s" using d(3) by (simp add: s)
  then show "length s = 11 \<and> s ! 0 = CHR ''1'' \<and> s ! 1 \<in> set ''34578'' \<and> list_all is_digit s"
    using d by (simp add: s)
next
  assume a: "length s = 11 \<and> s ! 0 = CHR ''1'' \<and> s ! 1 \<in> set ''34578'' \<and> list_all is_digit s"
  then obtain c d ds where s: "s = c # d # ds" "length ds = 9" by (auto simp: eval_nat_numeral length_Suc_conv)
  then show "test phone_re s" using a by (simp add: phone_re_iff)
qed

text \<open>C31. In every run of the page: each request has the shape that the server is promised (a code is only asked for
  with a correct phone number, signing in or up always carries a phone number and a code), every
  countdown stays within 60, the label of the button shows the number of seconds, between 1 and 60, exactly
  while the button is disabled, and a disabled button always has a countdown that will enable it again.\<close>

theorem page_bounds:
  shows "(\<forall>r. Post r \<in> set (log (run es)) \<longrightarrow> valid_request r) \<and> (\<forall>n \<in> set (timers (run es)). n \<le> 60) \<and>
    (\<forall>n. btn_label (run es) = LabelAgain n \<longrightarrow> 1 \<le> n \<and> n \<le> 60) \<and>
    (disabled (run es) \<longleftrightarrow> btn_label (run es) \<noteq> LabelGet) \<and> (disabled (run es) \<longrightarrow> timers (run es) \<noteq> [])"
  using wf_run [of es] by (cases "btn_label (run es)") (auto simp: wf_def)

theorem page_bounds_witness:
  "valid_request \<lparr>req_url = UrlTel, req_tel = ''13812345678'', req_code = None\<rparr> \<and>
   disabled (run [TypePhone ''13812345678'', ClickGet, Tick 0]) \<and> timers (run [TypePhone ''13812345678'', ClickGet, Tick 0]) \<noteq> []"
proof -
  have "disabled (run [TypePhone ''13812345678'', ClickGet, Tick 0])" by code_simp
  moreover have "list_ex ((=) (Post \<lparr>req_url = UrlTel, req_tel = ''13812345678'', req_code = None\<rparr>))
      (log (run [TypePhone ''13812345678'', ClickGet, Tick 0]))" by code_simp
  then have "Post \<lparr>req_url = UrlTel, req_tel = ''13812345678'', req_code = None\<rparr> \<in> set (log (run [TypePhone ''13812345678'', ClickGet, Tick 0]))"
    by (auto simp: list_ex_iff)
  ultimately show ?thesis using page_bounds [of "[TypePhone ''13812345678'', ClickGet, Tick 0]"] by blast
qed

definition remaining :: "page \<Rightarrow> nat" where
  "remaining p = sum_list (map Suc (timers p))"

text \<open>Ticks of timers that are running.\<close>

fun ticks_of :: "nat list \<Rightarrow> page \<Rightarrow> bool" where
  "ticks_of [] p = True"
| "ticks_of (i # is) p = (i < length (timers p) \<and> ticks_of is (tick i p))"

lemma tick_remaining:
  assumes "i < length (timers p)"
  shows "remaining p = Suc (remaining (tick i p))"
proof -
  let ?ts = "timers p"
  have split: "?ts = take i ?ts @ ?ts ! i # drop (Suc i) ?ts" using assms by (rule id_take_nth_drop)
  have upd: "?ts[i := x] = take i ?ts @ x # drop (Suc i) ?ts" for x using assms by (rule upd_conv_take_nth_drop)
  have "remaining p = sum_list (map Suc (take i ?ts @ ?ts ! i # drop (Suc i) ?ts))" unfolding remaining_def using split by simp
  then show ?thesis using assms by (auto simp: remaining_def tick_def nth_opt_def upd)
qed

lemma ticks_remaining:
  "ticks_of is p \<Longrightarrow> remaining p = length is + remaining (fold tick is p)"
  by (induction "is" arbitrary: p) (auto simp: tick_remaining)

lemma tick_is_step: "fold tick is p = fold step (map Tick is) p"
  by (induction "is" arbitrary: p) auto

lemma ticks_exist: "n \<le> remaining p \<Longrightarrow> ticks_of (replicate n 0) p"
proof (induction n arbitrary: p)
  case (Suc n)
  then have "0 < length (timers p)" by (cases "timers p") (auto simp: remaining_def)
  then show ?case using Suc tick_remaining [of 0 p] by simp
qed simp

text \<open>C32. The button comes back. From every state that the page can reach, however many countdowns were started, the running
  timers tick a fixed number of times in total, in whatever order they fire; when they have done so no
  timer is left and the button is enabled with its first label.\<close>

theorem countdown_ends:
  "\<exists>is. ticks_of is (run es) \<and> length is = remaining (run es) \<and>
    (\<forall>js. ticks_of js (run es) \<longrightarrow> length js \<le> remaining (run es) \<and>
      (length js = remaining (run es) \<longrightarrow>
        timers (fold tick js (run es)) = [] \<and> \<not> disabled (fold tick js (run es)) \<and> btn_label (fold tick js (run es)) = LabelGet))"
proof (intro exI [of _ "replicate (remaining (run es)) 0"] conjI allI impI)
  show "ticks_of (replicate (remaining (run es)) 0) (run es)" by (rule ticks_exist) simp
  fix js assume j: "ticks_of js (run es)"
  then show "length js \<le> remaining (run es)" using ticks_remaining by simp
  let ?p = "fold tick js (run es)"
  have w: "wf ?p" unfolding tick_is_step using wf_run by (rule wf_fold)
  assume "length js = remaining (run es)"
  then have "remaining ?p = 0" using ticks_remaining [OF j] by simp
  then show t: "timers ?p = []" by (cases "timers ?p") (simp_all add: remaining_def)
  then show "\<not> disabled ?p" using w by (simp add: wf_def)
  then show "btn_label ?p = LabelGet" using w by (cases "btn_label ?p") (simp_all add: wf_def)
qed simp

theorem countdown_ends_witness:
  "remaining (run [TypePhone ''13812345678'', ClickGet, Tick 0]) = 60 \<and>
   \<not> disabled (fold tick (replicate 60 0) (run [TypePhone ''13812345678'', ClickGet, Tick 0]))"
proof -
  have r: "remaining (run [TypePhone ''13812345678'', ClickGet, Tick 0]) = 60" by code_simp
  have "ticks_of (replicate 60 0) (run [TypePhone ''13812345678'', ClickGet, Tick 0])" by (rule ticks_exist) (simp add: r)
  then show ?thesis using countdown_ends [of "[TypePhone ''13812345678'', ClickGet, Tick 0]"] r by (metis length_replicate)
qed

definition asked :: "page \<Rightarrow> request list" where
  "asked p = [r. Post r \<leftarrow> log p, req_url r = UrlTel]"

definition tick_count :: "event list \<Rightarrow> nat" where
  "tick_count es = length (filter (\<lambda>e. e = Tick 0) es)"

lemma asked_emit: "asked (emit a p) = asked p @ (case a of Post r \<Rightarrow> if req_url r = UrlTel then [r] else [] | _ \<Rightarrow> [])"
  by (cases a) (simp_all add: asked_def)

lemma asked_other [simp]:
  "asked (p\<lparr>waiting := w\<rparr>) = asked p" "asked (p\<lparr>timers := ts\<rparr>) = asked p" "asked (p\<lparr>option_btn := b\<rparr>) = asked p"
  "asked (p\<lparr>phoneNumber := s\<rparr>) = asked p" "asked (p\<lparr>loginpwd := s\<rparr>) = asked p"
  "asked (p\<lparr>disabled := d\<rparr>) = asked p" "asked (p\<lparr>btn_label := l\<rparr>) = asked p"
  by (simp_all add: asked_def)

lemma verify_other:
  "asked (loginVerify p) = asked p \<and> timers (loginVerify p) = timers p \<and> disabled (loginVerify p) = disabled p"
  "asked (registerVerify p) = asked p \<and> timers (registerVerify p) = timers p \<and> disabled (registerVerify p) = disabled p"
  by (simp_all add: loginVerify_def registerVerify_def ajax_def asked_emit Let_def)

lemma answer_other: "asked (answer r d p) = asked p \<and> timers (answer r d p) = timers p \<and> disabled (answer r d p) = disabled p"
  by (simp add: answer_def verification_success_def signin_success_def signup_success_def signin_error_def signup_error_def
      asked_emit Let_def split: url.split option.split)

lemma settle_other: "asked (settle i d p) = asked p \<and> timers (settle i d p) = timers p \<and> disabled (settle i d p) = disabled p"
  by (simp add: settle_def answer_other split: option.split)

lemma tick_asked [simp]: "asked (tick i p) = asked p"
  by (simp add: tick_def split: option.split)

lemma locked_step:
  assumes "disabled p" "timers p = [n]" "e = Tick 0 \<longrightarrow> 0 < n"
  shows "asked (step e p) = asked p \<and> disabled (step e p) \<and> timers (step e p) = [if e = Tick 0 then n - 1 else n]"
  using assms by (cases e) (auto simp: register_click_def loginBtn_click_def verify_other settle_other tick_def nth_opt_def)

lemma locked_run:
  "disabled p \<Longrightarrow> timers p = [n] \<Longrightarrow> tick_count es \<le> n \<Longrightarrow> asked (fold step es p) = asked p \<and> disabled (fold step es p)"
proof (induction es arbitrary: p n)
  case (Cons e es)
  then have "e = Tick 0 \<longrightarrow> 0 < n" by (auto simp: tick_count_def)
  with Cons.prems have l: "asked (step e p) = asked p" "disabled (step e p)" "timers (step e p) = [if e = Tick 0 then n - 1 else n]"
    using locked_step by blast+
  have "tick_count es \<le> (if e = Tick 0 then n - 1 else n)" using Cons.prems(3) by (auto simp: tick_count_def)
  from Cons.IH [OF l(2,3) this] l(1) show ?case by simp
qed simp

lemma clickVerify_valid:
  "test phone_re (phoneNumber p) \<Longrightarrow> clickVerify p = countDown (getVerification (phoneNumber p) p)"
proof -
  assume t: "test phone_re (phoneNumber p)"
  then have "phoneNumber p \<noteq> []" by (auto simp: phone_re_iff)
  then show ?thesis using t by (simp add: clickVerify_def)
qed

definition tel_request :: "string \<Rightarrow> request" where
  "tel_request ph = \<lparr>req_url = UrlTel, req_tel = ph, req_code = None\<rparr>"

lemma click_valid:
  assumes "test phone_re (phoneNumber p)"
  shows "asked (clickVerify p) = asked p @ [tel_request (phoneNumber p)]" "timers (clickVerify p) = timers p @ [60]"
    "disabled (clickVerify p) = disabled p" "phoneNumber (clickVerify p) = phoneNumber p"
  using assms by (simp_all add: clickVerify_valid countDown_def getVerification_def ajax_def asked_emit tel_request_def)

text \<open>A click with a correct number on a page without a running countdown sends one request. Once the countdown has
  ticked for the first time no event sends another one, whatever is clicked, typed or answered, until
  the countdown has ticked sixty times more.\<close>

theorem one_request_per_countdown:
  assumes "timers p = []" "\<not> disabled p" "test phone_re (phoneNumber p)" "tick_count es \<le> 59"
  shows "asked (fold step (ClickGet # Tick 0 # es) p) = asked p @ [tel_request (phoneNumber p)] \<and>
    disabled (fold step (ClickGet # Tick 0 # es) p)"
proof -
  let ?q = "tick 0 (clickVerify p)"
  have "timers ?q = [59]" "disabled ?q" "asked ?q = asked p @ [tel_request (phoneNumber p)]"
    using assms(1) click_valid [OF assms(3)] by (simp_all add: tick_def nth_opt_def asked_def)
  then show ?thesis using locked_run [of ?q 59 es] assms(2,4) by simp
qed

theorem one_request_per_countdown_witness:
  "length (asked (fold step [ClickGet, Tick 0, ClickGet, Tick 0, ClickGet] (load\<lparr>phoneNumber := ''13812345678''\<rparr>))) = 1"
  using one_request_per_countdown [of "load\<lparr>phoneNumber := ''13812345678''\<rparr>" "[ClickGet, Tick 0, ClickGet]"]
  by (simp add: load_def phone_re_iff tick_count_def is_digit_def code_def asked_def)

text \<open>Until the first tick, one second after the click, the button is not disabled: every further click in that second sends
  another request and starts another countdown.\<close>

theorem repeated_clicks_send_again:
  assumes "test phone_re ph"
  shows "asked (run (TypePhone ph # replicate n ClickGet)) = replicate n (tel_request ph) \<and>
    timers (run (TypePhone ph # replicate n ClickGet)) = replicate n 60"
proof -
  let ?p = "load\<lparr>phoneNumber := ph\<rparr>"
  have "asked (fold step (replicate n ClickGet) p) = asked p @ replicate n (tel_request (phoneNumber p)) \<and>
      timers (fold step (replicate n ClickGet) p) = timers p @ replicate n 60"
    if "\<not> disabled p" "test phone_re (phoneNumber p)" for p :: page
    using that
  proof (induction n arbitrary: p)
    case (Suc n)
    then have "asked (fold step (replicate n ClickGet) (clickVerify p)) = asked (clickVerify p) @ replicate n (tel_request (phoneNumber p)) \<and>
      timers (fold step (replicate n ClickGet) (clickVerify p)) = timers (clickVerify p) @ replicate n 60"
      using Suc.IH [of "clickVerify p"] click_valid [OF Suc.prems(2)] by simp
    then show ?case using Suc.prems(1) click_valid [OF Suc.prems(2)] by simp
  qed simp
  from this [of ?p] show ?thesis using assms by (simp add: run_def load_def asked_def)
qed

theorem repeated_clicks_send_again_witness:
  "length (asked (run [TypePhone ''13812345678'', ClickGet, ClickGet])) = 2"
  using repeated_clicks_send_again [of "''13812345678''" 2]
  by (simp add: phone_re_iff is_digit_def code_def eval_nat_numeral)

end
