(* ===== verification/Json.thy ===== *)
theory Json
  imports Utils
begin

text \<open>
  \<open>json2str\<close> and \<open>str2json\<close> of \<open>core/utils.js\<close>. The printer is the one that the file defines
  for browsers without \<open>JSON\<close>; for the values that \<open>jsonable\<close> names \<open>JSON.stringify\<close> prints the same text.
  The reader is \<open>JSON.parse\<close>, written after its standard: a syntax error, which throws,
  is \<open>None\<close>. A number with a fraction or an exponent is outside the model, whose numbers are integers, and
  an escape \<open>\uXXXX\<close> stands for the UTF-8 bytes of its code point. The text that the printer writes for a
  value is shown to be read back as that value.

  The fields of a date are the parameter \<open>date\<close>.
\<close>

subsection \<open>Printing\<close>

definition backslash :: char where "backslash = CHR 0x5C"

record date =
  fullYear :: nat
  month :: nat
  day :: nat
  hours :: nat
  minutes :: nat
  seconds :: nat

definition escapeMap :: "(string \<times> string) list" where
  "escapeMap = [([CHR 0x08], [backslash, CHR ''b'']), ([CHR 0x09], [backslash, CHR ''t'']), ([CHR 0x0A], [backslash, CHR ''n'']),
     ([CHR 0x0C], [backslash, CHR ''f'']), ([CHR 0x0D], [backslash, CHR ''r'']), ([quote], [backslash, quote]),
     ([backslash], [backslash, backslash])]"

definition special :: "char \<Rightarrow> bool" where
  "special c \<longleftrightarrow> c = quote \<or> c = backslash \<or> code c < 32"

definition escape_match :: "string \<Rightarrow> string" where
  "escape_match mt = (case map_of escapeMap mt of
     Some c \<Rightarrow> c
   | None \<Rightarrow> (let c = code (hd mt) in [backslash, CHR ''u'', CHR ''0'', CHR ''0''] @ hex_str (c div 16) @ hex_str (c mod 16)))"

definition encodeString :: "string \<Rightarrow> string" where
  "encodeString source =
     [quote] @ (if test (Cls special) source then replace (Cls special) (\<lambda>a _. escape_match a) source else source) @ [quote]"

definition pad :: "nat \<Rightarrow> string" where
  "pad source = (if source < 10 then CHR ''0'' # nat_str source else nat_str source)"

definition encodeDate :: "date \<Rightarrow> string" where
  "encodeDate source = [quote] @ nat_str (fullYear source) @ ''-'' @ pad (month source + 1) @ ''-'' @ pad (day source) @ ''T'' @
     pad (hours source) @ '':'' @ pad (minutes source) @ '':'' @ pad (seconds source) @ [quote]"

text \<open>Items of type \<open>undefined\<close> and \<open>function\<close> are left out of arrays and objects.\<close>

definition skipped :: "jsval \<Rightarrow> bool" where
  "skipped v \<longleftrightarrow> typeof v = ''undefined'' \<or> typeof v = ''function''"

fun json2str :: "date \<Rightarrow> jsval \<Rightarrow> string" where
  "json2str dt JUndef = ''undefined''"
| "json2str dt (JNum (Some i)) = int_str i"
| "json2str dt (JNum None) = ''null''"
| "json2str dt (JStr s) = encodeString s"
| "json2str dt (JBool b) = (if b then ''true'' else ''false'')"
| "json2str dt JNull = ''null''"
| "json2str dt (JArr xs) = ''['' @ join '','' (concat (map (\<lambda>x. if skipped x then [] else [json2str dt x]) xs)) @ '']''"
| "json2str dt JDate = encodeDate dt"
| "json2str dt JFun = ''{}''"
| "json2str dt (JObj kvs) = ''{'' @
     join '','' (concat (map (\<lambda>(k, v). if skipped v then [] else [encodeString k @ '':'' @ json2str dt v]) kvs)) @ ''}''"

subsection \<open>Reading\<close>

fun skip_ws :: "string \<Rightarrow> string" where
  "skip_ws [] = []"
| "skip_ws (c # s) = (if c \<in> {CHR '' '', CHR 0x09, CHR 0x0A, CHR 0x0D} then skip_ws s else c # s)"

definition hex_value :: "char \<Rightarrow> nat option" where
  "hex_value c = (if is_digit c then Some (code c - 48)
     else if 97 \<le> code c \<and> code c \<le> 102 then Some (code c - 87)
     else if 65 \<le> code c \<and> code c \<le> 70 then Some (code c - 55) else None)"

definition utf8 :: "nat \<Rightarrow> string" where
  "utf8 n = (if n < 128 then [char_of n]
     else if n < 2048 then [char_of (192 + n div 64), char_of (128 + n mod 64)]
     else [char_of (224 + n div 4096), char_of (128 + n div 64 mod 64), char_of (128 + n mod 64)])"

fun hex4 :: "string \<Rightarrow> (nat \<times> string) option" where
  "hex4 (a # b # c # d # s) = (case (hex_value a, hex_value b, hex_value c, hex_value d) of
     (Some w, Some x, Some y, Some z) \<Rightarrow> Some (w * 4096 + x * 256 + y * 16 + z, s) | _ \<Rightarrow> None)"
| "hex4 _ = None"

definition unescape :: "char \<Rightarrow> char option" where
  "unescape e = map_of [(CHR ''b'', CHR 0x08), (CHR ''t'', CHR 0x09), (CHR ''n'', CHR 0x0A), (CHR ''f'', CHR 0x0C),
     (CHR ''r'', CHR 0x0D), (quote, quote), (backslash, backslash), (CHR ''/'', CHR ''/'')] e"

lemma hex4_length: "hex4 s = Some (n, r) \<Longrightarrow> length r < length s"
  by (cases s rule: hex4.cases) (auto split: option.splits)

definition prepend :: "string \<Rightarrow> (string \<times> string) option \<Rightarrow> (string \<times> string) option" where
  "prepend x r = map_option (\<lambda>(a, b). (x @ a, b)) r"

text \<open>The characters of a string after its opening quote, up to the closing one.\<close>

function parse_chars :: "string \<Rightarrow> (string \<times> string) option" where
  "parse_chars [] = None"
| "parse_chars (c # s) =
     (if c = quote then Some ([], s)
      else if c = backslash then (case s of
          [] \<Rightarrow> None
        | e # r \<Rightarrow>
            if e = CHR ''u'' then (case hex4 r of Some (n, r') \<Rightarrow> prepend (utf8 n) (parse_chars r') | None \<Rightarrow> None)
            else (case unescape e of Some x \<Rightarrow> prepend [x] (parse_chars r) | None \<Rightarrow> None))
      else if code c < 32 then None
      else prepend [c] (parse_chars s))"
  by pat_completeness auto
termination
  by (relation "measure length") (auto dest: hex4_length)

definition digits_nat :: "string \<Rightarrow> nat" where
  "digits_nat ds = foldl (\<lambda>n c. n * 10 + (code c - 48)) 0 ds"

definition parse_number :: "string \<Rightarrow> (jsval \<times> string) option" where
  "parse_number s =
     (let neg = (s \<noteq> [] \<and> hd s = CHR ''-''); s = (if neg then tl s else s);
          ds = takeWhile is_digit s; r = dropWhile is_digit s in
      if ds = [] \<or> (hd ds = CHR ''0'' \<and> length ds > 1) \<or> (r \<noteq> [] \<and> hd r \<in> set ''.eE'') then None
      else Some (JNum (Some (if neg then - int (digits_nat ds) else int (digits_nat ds))), r))"

definition parse_word :: "string \<Rightarrow> jsval \<Rightarrow> string \<Rightarrow> (jsval \<times> string) option" where
  "parse_word w v s = (if take (length w) s = w then Some (v, drop (length w) s) else None)"

definition parse_string :: "string \<Rightarrow> (string \<times> string) option" where
  "parse_string s = (case skip_ws s of c # r \<Rightarrow> if c = quote then parse_chars r else None | [] \<Rightarrow> None)"

fun parse_value :: "nat \<Rightarrow> string \<Rightarrow> (jsval \<times> string) option"
  and parse_items :: "nat \<Rightarrow> string \<Rightarrow> (jsval list \<times> string) option"
  and parse_members :: "nat \<Rightarrow> string \<Rightarrow> ((string \<times> jsval) list \<times> string) option" where
  "parse_value 0 s = None"
| "parse_value (Suc n) s = (case skip_ws s of
     [] \<Rightarrow> None
   | c # r \<Rightarrow>
       if c = quote then map_option (\<lambda>(a, r). (JStr a, r)) (parse_chars r)
       else if c = CHR ''['' then
         (case skip_ws r of
            d # r' \<Rightarrow> if d = CHR '']'' then Some (JArr [], r') else map_option (\<lambda>(xs, r). (JArr xs, r)) (parse_items n r)
          | [] \<Rightarrow> None)
       else if c = CHR ''{'' then
         (case skip_ws r of
            d # r' \<Rightarrow> if d = CHR ''}'' then Some (JObj [], r')
              else map_option (\<lambda>(kvs, r). (JObj (foldl (\<lambda>ob (k, v). obj_set k v ob) [] kvs), r)) (parse_members n r)
          | [] \<Rightarrow> None)
       else if c = CHR ''t'' then parse_word ''true'' (JBool True) (c # r)
       else if c = CHR ''f'' then parse_word ''false'' (JBool False) (c # r)
       else if c = CHR ''n'' then parse_word ''null'' JNull (c # r)
       else parse_number (c # r))"
| "parse_items 0 s = None"
| "parse_items (Suc n) s = (case parse_value n s of
     None \<Rightarrow> None
   | Some (v, r) \<Rightarrow> (case skip_ws r of
       d # r' \<Rightarrow> if d = CHR '','' then map_option (\<lambda>(vs, r). (v # vs, r)) (parse_items n r')
                 else if d = CHR '']'' then Some ([v], r') else None
     | [] \<Rightarrow> None))"
| "parse_members 0 s = None"
| "parse_members (Suc n) s = (case parse_string s of
     None \<Rightarrow> None
   | Some (k, r) \<Rightarrow> (case skip_ws r of
       c # r' \<Rightarrow>
         if c \<noteq> CHR '':'' then None
         else (case parse_value n r' of
           None \<Rightarrow> None
         | Some (v, r) \<Rightarrow> (case skip_ws r of
             d # r' \<Rightarrow> if d = CHR '','' then map_option (\<lambda>(vs, r). ((k, v) # vs, r)) (parse_members n r')
                       else if d = CHR ''}'' then Some ([(k, v)], r') else None
           | [] \<Rightarrow> None))
     | [] \<Rightarrow> None))"

text \<open>A level of nesting costs one character and two calls, which gives the bound.\<close>

definition JSON_parse :: "string \<Rightarrow> jsval option" where
  "JSON_parse s = (case parse_value (2 * length s + 2) s of
     Some (v, r) \<Rightarrow> if skip_ws r = [] then Some v else None | None \<Rightarrow> None)"

definition str2json :: "jsval \<Rightarrow> jsval option" where
  "str2json s = (case s of JStr t \<Rightarrow> JSON_parse t | _ \<Rightarrow> Some JNull)"

subsection \<open>Strings\<close>

lemma replace_Cls: "replace (Cls P) f s = concat (map (\<lambda>c. if P c then f [c] [] else [c]) s)"
proof -
  have "replace_all (Cls P) f pre s = concat (map (\<lambda>c. if P c then f [c] [] else [c]) s)" for pre
  proof (induction s arbitrary: pre)
    case Nil
    show ?case by (simp add: replace_all_Nil)
  next
    case (Cons c s)
    show ?case
    proof (cases "P c")
      case True
      then show ?thesis using replace_all_here [of "Cls P" pre "c # s" "c # pre" s "[]" "[]" f] Cons by simp
    next
      case False
      then show ?thesis using replace_all_skip [of "Cls P" pre c s f] Cons by simp
    qed
  qed
  then show ?thesis by (simp add: replace_def)
qed

definition enc :: "char \<Rightarrow> string" where
  "enc c = (if special c then escape_match [c] else [c])"

lemma encodeString_enc: "encodeString s = quote # concat (map enc s) @ [quote]"
proof (cases "test (Cls special) s")
  case True
  then show ?thesis by (simp add: encodeString_def replace_Cls enc_def [abs_def])
next
  case False
  then have "replace (Cls special) (\<lambda>a _. escape_match a) s = s" by (metis replace_none test_def)
  then show ?thesis using False by (simp add: encodeString_def replace_Cls enc_def [abs_def])
qed

lemma hex_value_char: "d < 16 \<Longrightarrow> hex_value (hex_char d) = Some d"
  by (auto simp: hex_value_def hex_char_def is_digit_def code_def)

lemma quote_backslash [simp]: "quote \<noteq> backslash" "backslash \<noteq> quote" "code quote = 34" "code backslash = 92"
  by (simp_all add: quote_def backslash_def code_def)

lemma parse_chars_enc: "parse_chars (enc c @ t) = prepend [c] (parse_chars t)"
proof (cases "special c \<and> map_of escapeMap [c] = None")
  case True
  then have c: "code c < 32" by (auto simp: special_def escapeMap_def quote_def backslash_def)
  have e: "enc c = [backslash, CHR ''u'', CHR ''0'', CHR ''0'', hex_char (code c div 16), hex_char (code c mod 16)]"
    using True c by (simp add: enc_def escape_match_def Let_def hex_str.simps)
  have "hex_value CHR ''0'' = Some 0" by (simp add: hex_value_def is_digit_def code_def)
  then have "hex4 ([CHR ''0'', CHR ''0'', hex_char (code c div 16), hex_char (code c mod 16)] @ t) = Some (code c, t)"
    using c by (simp add: hex_value_char)
  moreover have "utf8 (code c) = [c]" using c by (simp add: utf8_def code_def)
  ultimately show ?thesis by (simp add: e)
next
  case False
  show ?thesis
  proof (cases "special c")
    case True
    then have "c \<in> {CHR 0x08, CHR 0x09, CHR 0x0A, CHR 0x0C, CHR 0x0D, quote, backslash}"
      using False by (auto simp: escapeMap_def split: if_splits)
    then show ?thesis
      by (auto simp: enc_def special_def escape_match_def escapeMap_def unescape_def code_def quote_def backslash_def)
  next
    case False
    then show ?thesis by (auto simp: enc_def special_def)
  qed
qed

lemma parse_chars_string: "parse_chars (concat (map enc s) @ quote # rest) = Some (s, rest)"
proof (induction s)
  case (Cons c s)
  have "parse_chars (enc c @ (concat (map enc s) @ quote # rest)) = prepend [c] (parse_chars (concat (map enc s) @ quote # rest))"
    by (rule parse_chars_enc)
  then show ?case using Cons by (simp add: prepend_def)
qed simp

lemma parse_string_encode: "parse_string (encodeString s @ rest) = Some (s, rest)"
  by (simp add: parse_string_def encodeString_enc parse_chars_string) (simp add: quote_def)

subsection \<open>Numbers\<close>

lemma digit_char_props: "d < 10 \<Longrightarrow> is_digit (digit_char d) \<and> code (digit_char d) = 48 + d"
  by (simp add: digit_char_def is_digit_def code_def)

lemma nat_str_digits: "list_all is_digit (nat_str n)"
proof (induction n rule: nat_str.induct)
  case (1 n)
  then show ?case by (subst nat_str.simps) (simp add: digit_char_props)
qed

lemma digits_nat_str: "digits_nat (nat_str n) = n"
proof (induction n rule: nat_str.induct)
  case (1 n)
  then show ?case by (subst nat_str.simps) (simp add: digits_nat_def digit_char_props)
qed

lemma nat_str_head: "10 \<le> n \<Longrightarrow> hd (nat_str n) \<noteq> CHR ''0''"
proof (induction n rule: nat_str.induct)
  case (1 n)
  have h: "hd (nat_str n) = hd (nat_str (n div 10))" using 1 by (subst nat_str.simps) simp
  show ?case
  proof (cases "n div 10 < 10")
    case True
    have "n div 10 \<noteq> 0" using 1 by simp
    moreover have "code CHR ''0'' = 48" by (simp add: code_def)
    moreover have "hd (nat_str (n div 10)) = digit_char (n div 10)" using True by (subst nat_str.simps) simp
    ultimately show ?thesis using True h digit_char_props [of "n div 10"] by auto
  next
    case False
    then show ?thesis using 1 h by simp
  qed
qed

definition delim :: "string \<Rightarrow> bool" where
  "delim r \<longleftrightarrow> r = [] \<or> hd r \<in> set '',]}''"

lemma delim_Nil: "delim []"
  by (simp add: delim_def)

lemma delim_ws: "delim r \<Longrightarrow> skip_ws r = r"
  by (cases r) (auto simp: delim_def)

lemma digits_span:
  assumes "delim rest"
  shows "takeWhile is_digit (nat_str n @ rest) = nat_str n" "dropWhile is_digit (nat_str n @ rest) = rest"
proof -
  have "\<forall>c \<in> set (nat_str n). is_digit c" using nat_str_digits by (simp add: list_all_iff)
  moreover have "takeWhile is_digit rest = []" "dropWhile is_digit rest = rest"
    using assms by (cases rest; auto simp: delim_def is_digit_def code_def)+
  ultimately show "takeWhile is_digit (nat_str n @ rest) = nat_str n" "dropWhile is_digit (nat_str n @ rest) = rest"
    by simp_all
qed

lemma parse_number_int: "delim rest \<Longrightarrow> parse_number (int_str i @ rest) = Some (JNum (Some i), rest)"
proof -
  assume d: "delim rest"
  define n where "n = nat \<bar>i\<bar>"
  have zero: "\<not> (hd (nat_str n) = CHR ''0'' \<and> length (nat_str n) > 1)"
  proof (cases "n < 10")
    case True
    then show ?thesis by (subst (2) nat_str.simps) simp
  qed (simp add: nat_str_head)
  have r: "\<not> (rest \<noteq> [] \<and> hd rest \<in> set ''.eE'')" using d by (auto simp: delim_def)
  have "is_digit (hd (nat_str n))" using nat_str_digits [of n] by (cases "nat_str n") auto
  then have m: "hd (nat_str n @ rest) \<noteq> CHR ''-''" by (auto simp: hd_append is_digit_def code_def)
  have s: "int_str i = (if i < 0 then CHR ''-'' # nat_str n else nat_str n)" "i = (if i < 0 then - int n else int n)"
    by (simp_all add: int_str_def n_def)
  show ?thesis using zero r m s digits_span [OF d, of n] digits_nat_str [of n]
    by (cases "i < 0") (auto simp: parse_number_def Let_def)
qed

subsection \<open>The round trip\<close>

fun jsonable :: "jsval \<Rightarrow> bool" where
  "jsonable JNull = True"
| "jsonable (JBool b) = True"
| "jsonable (JNum x) = (x \<noteq> None)"
| "jsonable (JStr s) = True"
| "jsonable (JArr xs) = list_all jsonable xs"
| "jsonable (JObj kvs) = (list_all (\<lambda>(k, v). jsonable v) kvs \<and> distinct (map fst kvs))"
| "jsonable _ = False"

lemma jsonable_kept: "jsonable v \<Longrightarrow> \<not> skipped v"
  by (cases v) (auto simp: skipped_def)

lemma json2str_JArr: "list_all jsonable xs \<Longrightarrow> json2str dt (JArr xs) = ''['' @ join '','' (map (json2str dt) xs) @ '']''"
proof -
  assume "list_all jsonable xs"
  then have "concat (map (\<lambda>x. if skipped x then [] else [json2str dt x]) xs) = map (json2str dt) xs"
    by (induction xs) (auto simp: jsonable_kept)
  then show ?thesis by simp
qed

definition member :: "date \<Rightarrow> string \<times> jsval \<Rightarrow> string" where
  "member dt kv = encodeString (fst kv) @ '':'' @ json2str dt (snd kv)"

lemma json2str_JObj:
  "list_all (\<lambda>(k, v). jsonable v) kvs \<Longrightarrow> json2str dt (JObj kvs) = ''{'' @ join '','' (map (member dt) kvs) @ ''}''"
proof -
  assume "list_all (\<lambda>(k, v). jsonable v) kvs"
  then have "concat (map (\<lambda>(k, v). if skipped v then [] else [encodeString k @ '':'' @ json2str dt v]) kvs) = map (member dt) kvs"
    by (induction kvs) (auto simp: jsonable_kept member_def)
  then show ?thesis by simp
qed

declare json2str.simps(7) [simp del] json2str.simps(10) [simp del]

text \<open>The first character of a printed value tells what it is.\<close>

definition starts :: "char \<Rightarrow> bool" where
  "starts c \<longleftrightarrow> c \<notin> {CHR '' '', CHR 0x09, CHR 0x0A, CHR 0x0D} \<and> c \<notin> set '',]}''"

lemma int_str_starts: "\<exists>c s. int_str i = c # s \<and> (is_digit c \<or> c = CHR ''-'')"
proof -
  obtain c s where c: "nat_str (nat i) = c # s" using nat_str_not_Nil [of "nat i"] by (cases "nat_str (nat i)") auto
  then have "is_digit c" using nat_str_digits [of "nat i"] by simp
  then show ?thesis using c by (auto simp: int_str_def)
qed

lemma json_starts: "jsonable v \<Longrightarrow> \<exists>c s. json2str dt v = c # s \<and> starts c"
proof (cases v)
  case (JNum x)
  assume "jsonable v"
  then obtain i where x: "x = Some i" using JNum by auto
  obtain c s where "int_str i = c # s" "is_digit c \<or> c = CHR ''-''" using int_str_starts by blast
  then show ?thesis using JNum x by (auto simp: starts_def is_digit_def code_def)
qed (auto simp: starts_def json2str_JArr json2str_JObj encodeString_enc quote_def)

lemma starts_ws: "starts c \<Longrightarrow> skip_ws (c # s) = c # s"
  by (auto simp: starts_def)

text \<open>The text of a value, followed by a delimiter, is read as the value; the bound is twice its length.\<close>

definition reads_back :: "date \<Rightarrow> jsval \<Rightarrow> bool" where
  "reads_back dt v \<longleftrightarrow> (\<forall>n rest. delim rest \<longrightarrow> 2 * length (json2str dt v) \<le> n \<longrightarrow>
     parse_value n (json2str dt v @ rest) = Some (v, rest))"

lemma parse_items_join:
  "xs \<noteq> [] \<Longrightarrow> list_all (reads_back dt) xs \<Longrightarrow> 2 * length (join '','' (map (json2str dt) xs)) + 1 \<le> n \<Longrightarrow>
   parse_items n (join '','' (map (json2str dt) xs) @ CHR '']'' # rest) = Some (xs, rest)"
proof (induction xs arbitrary: n)
  case (Cons x xs)
  obtain n' where n: "n = Suc n'" using Cons.prems(3) by (cases n) auto
  have x: "parse_value n' (json2str dt x @ r) = Some (x, r)" if "delim r" for r
    using Cons.prems that n by (auto simp: reads_back_def join_Cons split: if_splits)
  show ?case
  proof (cases xs)
    case Nil
    then show ?thesis using x [of "CHR '']'' # rest"] n by (simp add: delim_def)
  next
    case (Cons y ys)
    let ?r = "join '','' (map (json2str dt) xs) @ CHR '']'' # rest"
    have "parse_items n' ?r = Some (xs, rest)" using Cons.IH Cons.prems n Cons by (intro Cons.IH) (auto simp: join_Cons)
    then show ?thesis using x [of "CHR '','' # ?r"] n Cons by (simp add: delim_def join_Cons)
  qed
qed simp

lemma parse_members_join:
  "kvs \<noteq> [] \<Longrightarrow> list_all (\<lambda>(k, v). reads_back dt v) kvs \<Longrightarrow> 2 * length (join '','' (map (member dt) kvs)) + 1 \<le> n \<Longrightarrow>
   parse_members n (join '','' (map (member dt) kvs) @ CHR ''}'' # rest) = Some (kvs, rest)"
proof (induction kvs arbitrary: n)
  case (Cons kv kvs)
  obtain n' k v where n: "n = Suc n'" and kv: "kv = (k, v)" using Cons.prems(3) by (cases n; cases kv) auto
  have x: "parse_value n' (json2str dt v @ r) = Some (v, r)" if "delim r" for r
    using Cons.prems that n by (auto simp: reads_back_def join_Cons kv member_def split: if_splits)
  have m: "join '','' (map (member dt) (kv # kvs)) @ r =
      encodeString k @ CHR '':'' # json2str dt v @ (if kvs = [] then r else CHR '','' # join '','' (map (member dt) kvs) @ r)" for r
    by (simp add: join_Cons kv member_def)
  show ?case
  proof (cases kvs)
    case Nil
    then show ?thesis using x [of "CHR ''}'' # rest"] n kv unfolding m by (simp add: delim_def parse_string_encode)
  next
    case (Cons y ys)
    let ?r = "join '','' (map (member dt) kvs) @ CHR ''}'' # rest"
    have "parse_members n' ?r = Some (kvs, rest)" using Cons.prems n Cons by (intro Cons.IH) (auto simp: join_Cons)
    then show ?thesis using x [of "CHR '','' # ?r"] n Cons kv unfolding m by (simp add: delim_def parse_string_encode)
  qed
qed simp

lemma foldl_obj_set: "distinct (map fst (a @ kvs)) \<Longrightarrow> foldl (\<lambda>ob (k, v). obj_set k v ob) a kvs = a @ kvs"
proof (induction kvs arbitrary: a)
  case (Cons kv kvs)
  then show ?case by (cases kv) (auto simp: obj_set_new)
qed simp

lemma join_starts: "jsonable x \<Longrightarrow> \<exists>c s. join '','' (map (json2str dt) (x # xs)) @ t = c # s \<and> starts c"
  using json_starts [of x dt] by (auto simp: join_Cons)

lemma member_starts: "\<exists>s. join '','' (map (member dt) (kv # kvs)) @ t = quote # s"
  by (simp add: join_Cons member_def encodeString_enc)

lemma reads_back_arr:
  assumes "list_all jsonable xs" "list_all (reads_back dt) xs"
  shows "reads_back dt (JArr xs)"
  unfolding reads_back_def
proof (intro allI impI)
  fix n rest assume d: "delim rest" and n: "2 * length (json2str dt (JArr xs)) \<le> n"
  then obtain n' where n': "n = Suc n'" by (cases n) (auto simp: json2str_JArr [OF assms(1)])
  show "parse_value n (json2str dt (JArr xs) @ rest) = Some (JArr xs, rest)"
  proof (cases xs)
    case Nil
    then show ?thesis by (simp add: n' json2str_JArr [of "[]"] quote_def)
  next
    case (Cons x ys)
    let ?s = "join '','' (map (json2str dt) xs) @ CHR '']'' # rest"
    obtain c s where c: "?s = c # s" "starts c" using join_starts [of x dt ys "CHR '']'' # rest"] assms(1) Cons by auto
    have "skip_ws ?s = c # s" "c \<noteq> CHR '']''" using c by (simp_all only: starts_ws) (auto simp: starts_def)
    moreover have "parse_items n' ?s = Some (xs, rest)"
      using n n' assms Cons by (intro parse_items_join) (auto simp: json2str_JArr)
    moreover have "CHR ''['' \<noteq> quote" by (simp add: quote_def)
    ultimately show ?thesis by (simp add: n' json2str_JArr [OF assms(1)])
  qed
qed

lemma reads_back_obj:
  assumes "list_all (\<lambda>(k, v). jsonable v) kvs" "list_all (\<lambda>(k, v). reads_back dt v) kvs" "distinct (map fst kvs)"
  shows "reads_back dt (JObj kvs)"
  unfolding reads_back_def
proof (intro allI impI)
  fix n rest assume d: "delim rest" and n: "2 * length (json2str dt (JObj kvs)) \<le> n"
  then obtain n' where n': "n = Suc n'" by (cases n) (auto simp: json2str_JObj [OF assms(1)])
  show "parse_value n (json2str dt (JObj kvs) @ rest) = Some (JObj kvs, rest)"
  proof (cases kvs)
    case Nil
    then show ?thesis by (simp add: n' json2str_JObj [of "[]"] quote_def)
  next
    case (Cons kv ys)
    let ?s = "join '','' (map (member dt) kvs) @ CHR ''}'' # rest"
    obtain s where c: "?s = quote # s" using member_starts [of dt kv ys "CHR ''}'' # rest"] Cons by auto
    have "skip_ws ?s = quote # s" "quote \<noteq> CHR ''}''" by (simp_all only: c) (simp_all add: quote_def)
    moreover have "parse_members n' ?s = Some (kvs, rest)"
      using n n' assms Cons by (intro parse_members_join) (auto simp: json2str_JObj)
    moreover have "CHR ''{'' \<noteq> quote" by (simp add: quote_def)
    moreover have "foldl (\<lambda>ob (k, v). obj_set k v ob) [] kvs = kvs" using foldl_obj_set [of "[]" kvs] assms(3) by simp
    ultimately show ?thesis by (simp add: n' json2str_JObj [OF assms(1)])
  qed
qed

lemma reads_backI:
  assumes "json2str dt v \<noteq> []" "\<And>n rest. delim rest \<Longrightarrow> parse_value (Suc n) (json2str dt v @ rest) = Some (v, rest)"
  shows "reads_back dt v"
  unfolding reads_back_def
proof (intro allI impI)
  fix n rest assume d: "delim rest" "2 * length (json2str dt v) \<le> n"
  then obtain n' where "n = Suc n'" using assms(1) by (cases n) auto
  then show "parse_value n (json2str dt v @ rest) = Some (v, rest)" using assms(2) d(1) by simp
qed

lemma reads_back_atom:
  "reads_back dt JNull" "reads_back dt (JBool b)" "reads_back dt (JStr s)" "reads_back dt (JNum (Some i))"
proof -
  show "reads_back dt JNull" "reads_back dt (JBool b)"
    by (rule reads_backI; simp add: parse_word_def quote_def)+
  show "reads_back dt (JStr s)"
    by (rule reads_backI; simp add: encodeString_enc parse_chars_string) (simp add: quote_def)
  obtain c s where c: "int_str i = c # s" "is_digit c \<or> c = CHR ''-''" using int_str_starts by blast
  then have "c \<noteq> quote \<and> c \<notin> {CHR '' '', CHR 0x09, CHR 0x0A, CHR 0x0D, CHR ''['', CHR ''{'', CHR ''t'', CHR ''f'', CHR ''n''}"
    by (auto simp: quote_def is_digit_def code_def)
  then show "reads_back dt (JNum (Some i))"
    using c(1) parse_number_int [of _ i] by (intro reads_backI) auto
qed

lemma jsonable_reads_back: "jsonable v \<Longrightarrow> reads_back dt v"
proof (induction v)
  case (JArr xs)
  then show ?case by (intro reads_back_arr) (auto simp: list_all_iff)
next
  case (JObj kvs)
  have "reads_back dt v" if "(k, v) \<in> set kvs" for k v
  proof (rule JObj.IH [OF that])
    show "v \<in> Basic_BNFs.snds (k, v)" by simp
    show "jsonable v" using JObj.prems that by (auto simp: list_all_iff)
  qed
  then show ?case using JObj.prems by (intro reads_back_obj) (auto simp: list_all_iff)
qed (auto intro: reads_back_atom)

lemma JSON_parse_json2str: "jsonable v \<Longrightarrow> JSON_parse (json2str dt v) = Some v"
proof -
  assume "jsonable v"
  then have "reads_back dt v" by (rule jsonable_reads_back)
  then have "parse_value (2 * length (json2str dt v) + 2) (json2str dt v @ []) = Some (v, [])"
    unfolding reads_back_def using delim_Nil le_add1 by blast
  then show ?thesis by (simp add: JSON_parse_def del: parse_value.simps)
qed

subsection \<open>Properties\<close>


definition demo_date :: date where
  "demo_date = \<lparr>fullYear = 2018, month = 0, day = 2, hours = 3, minutes = 4, seconds = 5\<rparr>"


end
