(* ===== verification/Preferences.thy ===== *)
theory Preferences
  imports Json
begin

text \<open>
  \<open>core/localstorage.js\<close>: the wrapper around \<open>window.localStorage\<close> and the preferences that the editor
  keeps under one key of it, as the text of one object. The storage is an association list with a
  limit on its size, beyond which \<open>setItem\<close> throws; \<open>None\<close> is a browser without storage. The
  substitute built from the \<open>userData\<close> behaviour of old browsers is left out.

  The preferences implement a map from names to values: setting, reading and removing a name through the
  stored text is shown to be the update, lookup and deletion of that map.
\<close>

subsection \<open>The storage\<close>

record medium =
  items :: "string jsobj"
  room :: nat

definition used :: "string jsobj \<Rightarrow> nat" where
  "used its = sum_list (map (\<lambda>(k, v). length k + length v) its)"

definition setItem :: "string \<Rightarrow> string \<Rightarrow> medium \<Rightarrow> medium res" where
  "setItem k v md =
     (let its = obj_set k v (items md) in if used its \<le> room md then Inr (md\<lparr>items := its\<rparr>) else Inl DomError)"

definition saveLocalData :: "string \<Rightarrow> string \<Rightarrow> medium option \<Rightarrow> (medium option \<times> bool) res" where
  "saveLocalData key dat storage = (case storage of
     Some md \<Rightarrow> if dat \<noteq> [] then bind_res (setItem key dat md) (\<lambda>md'. Inr (Some md', True)) else Inr (storage, False)
   | None \<Rightarrow> Inr (storage, False))"

definition getLocalData :: "string \<Rightarrow> medium option \<Rightarrow> string option" where
  "getLocalData key storage = (case storage of Some md \<Rightarrow> obj_get (items md) key | None \<Rightarrow> None)"

definition removeLocalItem :: "string \<Rightarrow> medium option \<Rightarrow> medium option" where
  "removeLocalItem key storage = map_option (\<lambda>md. md\<lparr>items := obj_del key (items md)\<rparr>) storage"

text \<open>What a client of the storage relies on.\<close>

locale keyed =
  fixes get :: "string \<Rightarrow> 's \<Rightarrow> string option"
    and put :: "string \<Rightarrow> string \<Rightarrow> 's \<Rightarrow> 's res"
    and del :: "string \<Rightarrow> 's \<Rightarrow> 's"
  assumes get_put: "put k v s = Inr s' \<Longrightarrow> get j s' = (if j = k then Some v else get j s)"
    and get_del: "get j (del k s) = (if j = k then None else get j s)"
begin

lemma put_put: "put k v s = Inr s1 \<Longrightarrow> put k w s1 = Inr s2 \<Longrightarrow> get j s2 = (if j = k then Some w else get j s)"
  by (simp add: get_put)

lemma put_del: "put k v s = Inr s1 \<Longrightarrow> get k s = None \<Longrightarrow> get j (del k s1) = get j s"
  by (simp add: get_put get_del)

end

interpretation ls: keyed "\<lambda>k (md :: medium). obj_get (items md) k" setItem "\<lambda>k (md :: medium). md\<lparr>items := obj_del k (items md)\<rparr>"
  by unfold_locales (auto simp: setItem_def Let_def update_conv delete_conv split: if_splits)

subsection \<open>The preferences\<close>

definition ROOTKEY :: string where "ROOTKEY = ''ueditor_preference''"

text \<open>The first argument of \<open>setPreferences\<close> is a name or an object.\<close>

datatype pref_key = PKey string | PObj "(string \<times> jsval) list"

fun truthy :: "jsval \<Rightarrow> bool" where
  "truthy JUndef = False"
| "truthy JNull = False"
| "truthy (JBool b) = b"
| "truthy (JNum x) = (x \<noteq> Some 0)"
| "truthy (JStr s) = (s \<noteq> [])"
| "truthy _ = True"

text \<open>
  \<open>data && (data = utils.str2json(data))\<close>: the stored value, or \<open>None\<close> for a false one. A text that is not
  JSON throws. A stored value that is not an object keeps no property.
\<close>

definition load_prefs :: "medium option \<Rightarrow> jsval option res" where
  "load_prefs storage = (case getLocalData ROOTKEY storage of
     Some (c # s) \<Rightarrow> (case str2json (JStr (c # s)) of
         None \<Rightarrow> Inl TypeError
       | Some v \<Rightarrow> Inr (if truthy v then Some v else None))
   | _ \<Rightarrow> Inr None)"

definition save_prefs :: "date \<Rightarrow> jsval \<Rightarrow> medium option \<Rightarrow> medium option res" where
  "save_prefs dt dat storage = bind_res (saveLocalData ROOTKEY (json2str dt dat) storage) (\<lambda>(storage', _). Inr storage')"

definition setPreferences :: "date \<Rightarrow> pref_key \<Rightarrow> jsval \<Rightarrow> medium option \<Rightarrow> medium option res" where
  "setPreferences dt key val storage =
     (let ob = (case key of PKey k \<Rightarrow> [(k, val)] | PObj kvs \<Rightarrow> kvs) in
      bind_res (load_prefs storage) (\<lambda>dat. case dat of
        Some (JObj kvs) \<Rightarrow> save_prefs dt (JObj (Utils.extend kvs ob False)) storage
      | Some v \<Rightarrow> save_prefs dt v storage
      | None \<Rightarrow> save_prefs dt (JObj ob) storage))"

definition getPreferences :: "string \<Rightarrow> medium option \<Rightarrow> jsval res" where
  "getPreferences key storage = bind_res (load_prefs storage) (\<lambda>dat. case dat of
     None \<Rightarrow> Inr JNull
   | Some v \<Rightarrow> Inr (if key = [] then v else case v of
         JObj kvs \<Rightarrow> (case obj_get kvs key of Some x \<Rightarrow> x | None \<Rightarrow> JUndef) | _ \<Rightarrow> JUndef))"

definition removePreferences :: "date \<Rightarrow> string \<Rightarrow> medium option \<Rightarrow> medium option res" where
  "removePreferences dt key storage = bind_res (load_prefs storage) (\<lambda>dat. case dat of
     Some (JObj kvs) \<Rightarrow> save_prefs dt (JObj (obj_del key kvs)) storage
   | Some v \<Rightarrow> save_prefs dt v storage
   | None \<Rightarrow> Inr storage)"

subsection \<open>The map behind the text\<close>

definition saved :: "medium option \<Rightarrow> (string \<times> jsval) list" where
  "saved storage = (case load_prefs storage of Inr (Some (JObj kvs)) \<Rightarrow> kvs | _ \<Rightarrow> [])"

definition prefs_ok :: "date \<Rightarrow> medium option \<Rightarrow> bool" where
  "prefs_ok dt storage \<longleftrightarrow> (case getLocalData ROOTKEY storage of None \<Rightarrow> True
     | Some s \<Rightarrow> \<exists>kvs. jsonable (JObj kvs) \<and> s = json2str dt (JObj kvs))"

lemma json2str_obj_Cons: "jsonable (JObj kvs) \<Longrightarrow> \<exists>s. json2str dt (JObj kvs) = CHR ''{'' # s"
  by (simp add: json2str_JObj)

lemma load_stored:
  assumes "getLocalData ROOTKEY st = Some (json2str dt (JObj kvs))" "jsonable (JObj kvs)"
  shows "load_prefs st = Inr (Some (JObj kvs))"
  using json2str_obj_Cons [OF assms(2), of dt] JSON_parse_json2str [OF assms(2), of dt] assms(1)
  by (auto simp: load_prefs_def str2json_def)

lemma prefs_cases [consumes 1, case_names absent present]:
  assumes "prefs_ok dt st"
  obtains "getLocalData ROOTKEY st = None" "load_prefs st = Inr None" "saved st = []"
  | "getLocalData ROOTKEY st \<noteq> None" "load_prefs st = Inr (Some (JObj (saved st)))" "jsonable (JObj (saved st))"
proof (cases "getLocalData ROOTKEY st")
  case None
  then show ?thesis using that(1) by (simp add: load_prefs_def saved_def)
next
  case (Some s)
  then obtain kvs where kvs: "jsonable (JObj kvs)" "s = json2str dt (JObj kvs)" using assms by (auto simp: prefs_ok_def)
  then have "load_prefs st = Inr (Some (JObj kvs))" using load_stored Some by blast
  then show ?thesis using that(2) Some kvs(1) by (simp add: saved_def)
qed

lemma saved_jsonable: "prefs_ok dt st \<Longrightarrow> jsonable (JObj (saved st))"
  by (erule prefs_cases) simp_all

lemma save_prefs_ok:
  assumes "save_prefs dt (JObj kvs) (Some md) = Inr st'" "jsonable (JObj kvs)"
  shows "prefs_ok dt st' \<and> saved st' = kvs \<and> getLocalData ROOTKEY st' \<noteq> None"
proof -
  have ne: "json2str dt (JObj kvs) \<noteq> []" using json2str_obj_Cons [OF assms(2), of dt] by auto
  obtain md' where md': "setItem ROOTKEY (json2str dt (JObj kvs)) md = Inr md'" "st' = Some md'"
    using assms(1) ne by (auto simp: save_prefs_def saveLocalData_def bind_res_def split: sum.splits)
  then have g: "getLocalData ROOTKEY st' = Some (json2str dt (JObj kvs))"
    using ls.get_put [OF md'(1), of ROOTKEY] by (simp add: getLocalData_def)
  then show ?thesis using load_stored [OF g assms(2)] assms(2) by (auto simp: prefs_ok_def saved_def)
qed

lemma in_update: "x \<in> set (obj_set k v kvs) \<Longrightarrow> x = (k, v) \<or> x \<in> set kvs"
  by (induction kvs) (auto split: if_splits)

lemma in_delete: "x \<in> set (obj_del k kvs) \<Longrightarrow> x \<in> set kvs"
  by (induction kvs) (auto split: if_splits)

lemma jsonable_update: "jsonable (JObj kvs) \<Longrightarrow> jsonable v \<Longrightarrow> jsonable (JObj (obj_set k v kvs))"
  by (auto simp: distinct_update list_all_iff dest!: in_update)

lemma jsonable_delete: "jsonable (JObj kvs) \<Longrightarrow> jsonable (JObj (obj_del k kvs))"
  by (auto simp: distinct_delete list_all_iff dest: in_delete)

text \<open>The operations on a storage that the editor wrote.\<close>

lemma setPreferences_eq:
  assumes "prefs_ok dt st"
  shows "setPreferences dt (PKey k) v st = save_prefs dt (JObj (obj_set k v (saved st))) st"
  using assms by (cases rule: prefs_cases) (simp_all add: setPreferences_def Utils.extend_def)

lemma removePreferences_eq:
  assumes "prefs_ok dt st"
  shows "removePreferences dt k st =
    (if getLocalData ROOTKEY st = None then Inr st else save_prefs dt (JObj (obj_del k (saved st))) st)"
  using assms by (cases rule: prefs_cases) (auto simp: removePreferences_def)

lemma getPreferences_eq:
  assumes "prefs_ok dt st" "k \<noteq> []"
  shows "getPreferences k st = Inr (case map_of (saved st) k of Some x \<Rightarrow> x
    | None \<Rightarrow> if getLocalData ROOTKEY st = None then JNull else JUndef)"
  using assms by (cases rule: prefs_cases) (auto simp: getPreferences_def)

lemma save_prefs_error: "save_prefs dt v (Some md) = Inl e \<Longrightarrow> e = DomError"
  by (auto simp: save_prefs_def saveLocalData_def setItem_def Let_def bind_res_def split: if_splits sum.splits)

subsection \<open>Properties\<close>

text \<open>C29. The preferences are a map kept as text. On a storage that holds no preferences or some that the editor wrote,
  setting a name to a value updates the map, removing a name deletes it from the map, reading a name gives
  its value, and the stored text stays readable. Reading never throws; writing fails only when the storage is full.\<close>

theorem preferences_are_a_map:
  assumes ok: "prefs_ok dt (Some md)" and v: "jsonable v" and k: "k \<noteq> []"
  shows "(\<forall>st'. setPreferences dt (PKey k) v (Some md) = Inr st' \<longrightarrow> prefs_ok dt st' \<and>
      map_of (saved st') = (map_of (saved (Some md)))(k \<mapsto> v) \<and> getPreferences k st' = Inr v) \<and>
    (\<forall>st'. removePreferences dt k (Some md) = Inr st' \<longrightarrow> prefs_ok dt st' \<and>
      map_of (saved st') = (map_of (saved (Some md)))(k := None)) \<and>
    (\<forall>e. setPreferences dt (PKey k) v (Some md) = Inl e \<longrightarrow> e = DomError) \<and>
    getPreferences k (Some md) = Inr (case map_of (saved (Some md)) k of Some x \<Rightarrow> x
      | None \<Rightarrow> if getLocalData ROOTKEY (Some md) = None then JNull else JUndef)"
proof (intro conjI allI impI)
  fix st' assume "setPreferences dt (PKey k) v (Some md) = Inr st'"
  then have p: "prefs_ok dt st'" "saved st' = obj_set k v (saved (Some md))"
    using save_prefs_ok [OF _ jsonable_update [OF saved_jsonable [OF ok] v]] setPreferences_eq [OF ok] by auto
  then show "prefs_ok dt st'" "map_of (saved st') = (map_of (saved (Some md)))(k \<mapsto> v)" by (simp_all add: update_conv')
  then show "getPreferences k st' = Inr v" using getPreferences_eq [OF p(1) k] by simp
next
  fix st' assume r: "removePreferences dt k (Some md) = Inr st'"
  have "prefs_ok dt st' \<and> map_of (saved st') = (map_of (saved (Some md)))(k := None)"
    using ok
  proof (cases rule: prefs_cases)
    case absent
    then show ?thesis using r ok removePreferences_eq [OF ok] by auto
  next
    case present
    then have "save_prefs dt (JObj (obj_del k (saved (Some md)))) (Some md) = Inr st'" using r removePreferences_eq [OF ok] by auto
    from save_prefs_ok [OF this jsonable_delete [OF saved_jsonable [OF ok]]] show ?thesis by (simp add: delete_conv')
  qed
  then show "prefs_ok dt st'" "map_of (saved st') = (map_of (saved (Some md)))(k := None)" by blast+
next
  fix e assume "setPreferences dt (PKey k) v (Some md) = Inl e"
  then show "e = DomError" using save_prefs_error setPreferences_eq [OF ok] by simp
qed (rule getPreferences_eq [OF ok k])

definition empty_medium :: medium where
  "empty_medium = \<lparr>items = [], room = 1000\<rparr>"

definition demo_prefs :: "jsval option" where
  "demo_prefs = (case setPreferences demo_date (PKey ''k'') (JNum (Some 3)) (Some empty_medium) of
     Inr st \<Rightarrow> (case getPreferences ''k'' st of Inr v \<Rightarrow> Some v | Inl _ \<Rightarrow> None) | Inl _ \<Rightarrow> None)"

theorem preferences_are_a_map_witness:
  "\<exists>st'. setPreferences demo_date (PKey ''k'') (JNum (Some 3)) (Some empty_medium) = Inr st' \<and>
    getPreferences ''k'' st' = Inr (JNum (Some 3))"
proof -
  have "demo_prefs = Some (JNum (Some 3))" by code_simp
  then obtain st' where st': "setPreferences demo_date (PKey ''k'') (JNum (Some 3)) (Some empty_medium) = Inr st'"
    by (auto simp: demo_prefs_def split: sum.splits)
  have ok: "prefs_ok demo_date (Some empty_medium)" by (simp add: prefs_ok_def getLocalData_def empty_medium_def)
  have "jsonable (JNum (Some 3))" "''k'' \<noteq> []" by simp_all
  from preferences_are_a_map [OF ok this, THEN conjunct1, rule_format, OF st'] show ?thesis using st' by blast
qed

end
