(* ===== verification/EventBase.thy ===== *)
theory EventBase
  imports Utils
begin

text \<open>
  \<open>core/EventBase.js\<close>: the listener table of an object and the three operations on it. The
  table is created on first use. Event names are folded to lower case, an event string
  names several events, and a listener may add and remove listeners while an event is
  being fired, so \<open>fireEvent\<close> reads the table again before every call. Event names that
  are members of \<open>Object.prototype\<close> are outside the model.
\<close>

subsection \<open>State\<close>

record 'l evobj =
  allListeners :: "'l list jsobj option"
  onprops :: "'l jsobj"

text \<open>What a listener returns: \<open>undefined\<close>, the value \<open>true\<close>, or another value.\<close>

datatype jret = RUndef | RTrue | RVal jsval

text \<open>
  A listener is run by \<open>call\<close>, which gets the event string and may change the object and
  the rest of the world.
\<close>

type_synonym ('l, 'w) caller = "'l \<Rightarrow> string \<Rightarrow> 'l evobj \<times> 'w \<Rightarrow> ('l evobj \<times> 'w) \<times> jret"

subsection \<open>Operations\<close>

definition getListener :: "'l evobj \<Rightarrow> string \<Rightarrow> bool \<Rightarrow> 'l evobj \<times> 'l list option" where
  "getListener ob type force =
    (let ty = toLowerCase type;
         ob1 = (if allListeners ob = None \<and> force then ob\<lparr>allListeners := Some []\<rparr> else ob)
     in case allListeners ob1 of
          None \<Rightarrow> (ob1, None)
        | Some tbl \<Rightarrow>
            (case obj_get tbl ty of
               Some ls \<Rightarrow> (ob1, Some ls)
             | None \<Rightarrow> if force then (ob1\<lparr>allListeners := Some (obj_set ty [] tbl)\<rparr>, Some [])
                       else (ob1, None)))"

definition set_listeners :: "'l evobj \<Rightarrow> string \<Rightarrow> 'l list \<Rightarrow> 'l evobj" where
  "set_listeners ob type ls =
     (case allListeners ob of
        None \<Rightarrow> ob
      | Some tbl \<Rightarrow> ob\<lparr>allListeners := Some (obj_set (toLowerCase type) ls tbl)\<rparr>)"

text \<open>The loop \<open>ti = types[i++]\<close> ends at the first empty name.\<close>

definition truthy_prefix :: "string list \<Rightarrow> string list" where
  "truthy_prefix ts = takeWhile (\<lambda>t. t \<noteq> []) ts"

definition split_types :: "string \<Rightarrow> string list" where
  "split_types types = truthy_prefix (split_re (some ws) (trim types))"

definition add_one :: "'l \<Rightarrow> 'l evobj \<Rightarrow> string \<Rightarrow> 'l evobj" where
  "add_one listener ob ti =
     (case getListener ob ti True of
        (ob', Some ls) \<Rightarrow> set_listeners ob' ti (ls @ [listener])
      | (ob', None) \<Rightarrow> ob')"

definition addListener :: "'l evobj \<Rightarrow> string \<Rightarrow> 'l \<Rightarrow> 'l evobj" where
  "addListener ob types listener = foldl (add_one listener) ob (split_types types)"

definition remove_one :: "'l \<Rightarrow> 'l evobj \<Rightarrow> string \<Rightarrow> 'l evobj" where
  "remove_one listener ob ti =
     (case getListener ob ti False of
        (ob', Some ls) \<Rightarrow> set_listeners ob' ti (removeItem ls listener)
      | (ob', None) \<Rightarrow> ob')"

definition removeListener :: "'l evobj \<Rightarrow> string \<Rightarrow> 'l \<Rightarrow> 'l evobj" where
  "removeListener ob types listener = foldl (remove_one listener) ob (split_types types)"

abbreviation listeners_of :: "'l evobj \<Rightarrow> string \<Rightarrow> 'l list" where
  "listeners_of ob ti \<equiv> (case snd (getListener ob ti False) of Some ls \<Rightarrow> ls | None \<Rightarrow> [])"

text \<open>
  The loop \<open>while (k--)\<close> over the listeners of one event, from the last registered to the
  first. The flag says that a listener returned \<open>true\<close>, which ends the whole call.
\<close>

primrec fire_loop ::
  "('l, 'w) caller \<Rightarrow> string \<Rightarrow> string \<Rightarrow> nat \<Rightarrow> 'l evobj \<times> 'w \<Rightarrow> jret \<Rightarrow> ('l evobj \<times> 'w) \<times> jret \<times> bool" where
  "fire_loop call types ti 0 st r = (st, r, False)"
| "fire_loop call types ti (Suc k) st r =
     (case nth_opt (listeners_of (fst st) ti) k of
        None \<Rightarrow> fire_loop call types ti k st r
      | Some l \<Rightarrow>
          (case call l types st of (st', t) \<Rightarrow>
             if t = RTrue then (st', RTrue, True)
             else fire_loop call types ti k st' (if t = RUndef then r else t)))"

text \<open>The result \<open>r\<close> is not reset between the events of one call; an \<open>on\<close> handler overwrites it.\<close>

fun fire_types ::
  "('l, 'w) caller \<Rightarrow> string \<Rightarrow> string list \<Rightarrow> 'l evobj \<times> 'w \<Rightarrow> jret \<Rightarrow> ('l evobj \<times> 'w) \<times> jret" where
  "fire_types call types [] st r = (st, r)"
| "fire_types call types (ti # tis) st r =
     (case fire_loop call types ti (length (listeners_of (fst st) ti)) st r of
        (st1, r1, stop) \<Rightarrow>
          if stop then (st1, r1)
          else (case obj_get (onprops (fst st1)) (''on'' @ toLowerCase ti) of
                  Some h \<Rightarrow> (case call h types st1 of (st2, t) \<Rightarrow> fire_types call types tis st2 t)
                | None \<Rightarrow> fire_types call types tis st1 r1))"

definition fireEvent :: "('l, 'w) caller \<Rightarrow> string \<Rightarrow> 'l evobj \<times> 'w \<Rightarrow> ('l evobj \<times> 'w) \<times> jret" where
  "fireEvent call types st =
     fire_types call types (truthy_prefix (split_on CHR '' '' (trim types))) st RUndef"

subsection \<open>The registry interface\<close>

text \<open>
  What a client of an event source relies on: registering appends, removing filters, and
  both leave every other event alone. \<open>norm\<close> is the folding of event names.
\<close>

locale listener_registry =
  fixes reg :: "'s \<Rightarrow> string \<Rightarrow> 'l list"
    and norm :: "string \<Rightarrow> string"
    and add :: "'l \<Rightarrow> 's \<Rightarrow> string \<Rightarrow> 's"
    and rem :: "'l \<Rightarrow> 's \<Rightarrow> string \<Rightarrow> 's"
  assumes reg_add: "reg (add l s t) u = (if norm u = norm t then reg s u @ [l] else reg s u)"
    and reg_rem: "reg (rem l s t) u = (if norm u = norm t then filter (\<lambda>x. x \<noteq> l) (reg s u) else reg s u)"
begin

lemma reg_adds:
  "reg (foldl (add l) s ts) u = reg s u @ replicate (length (filter (\<lambda>t. norm t = norm u) ts)) l"
  by (induction ts arbitrary: s) (auto simp: reg_add replicate_append_same)

lemma reg_rems:
  "reg (foldl (rem l) s ts) u =
     (if norm u \<in> norm ` set ts then filter (\<lambda>x. x \<noteq> l) (reg s u) else reg s u)"
  by (induction ts arbitrary: s) (auto simp: reg_rem)

lemma reg_add_rem:
  assumes "l \<notin> set (reg s u)"
  shows "reg (foldl (rem l) (foldl (add l) s ts) ts) u = reg s u"
proof -
  have g: "filter (\<lambda>x. x \<noteq> l) (reg s u) = reg s u" using assms by (intro filter_True) auto
  have f: "filter (\<lambda>x. x \<noteq> l) (reg s u @ replicate n l) = reg s u" for n by (simp add: g)
  have "filter (\<lambda>t. norm t = norm u) ts = []" if "norm u \<notin> norm ` set ts"
    using that by (metis (mono_tags, lifting) filter_empty_conv image_eqI)
  then show ?thesis by (auto simp: reg_rems reg_adds f g)
qed

end

lemma listeners_of_alt:
  "listeners_of ob t = (case allListeners ob of
      None \<Rightarrow> [] | Some tbl \<Rightarrow> (case obj_get tbl (toLowerCase t) of Some ls \<Rightarrow> ls | None \<Rightarrow> []))"
  by (auto simp: getListener_def Let_def split: option.splits)

interpretation ev: listener_registry listeners_of toLowerCase add_one remove_one
proof unfold_locales
  fix l :: 'a and s t u
  show "listeners_of (add_one l s t) u =
      (if toLowerCase u = toLowerCase t then listeners_of s u @ [l] else listeners_of s u)"
    unfolding listeners_of_alt
    by (auto simp: add_one_def getListener_def set_listeners_def Let_def obj_get_set split: option.splits)
  show "listeners_of (remove_one l s t) u =
      (if toLowerCase u = toLowerCase t then filter (\<lambda>x. x \<noteq> l) (listeners_of s u) else listeners_of s u)"
    unfolding listeners_of_alt
    by (auto simp: remove_one_def getListener_def set_listeners_def Let_def obj_get_set
        removeItem_filter split: option.splits)
qed

subsection \<open>Firing without changing the table\<close>

text \<open>The specification: run a list of listeners until one returns \<open>true\<close>.\<close>

fun run_all :: "('l, 'w) caller \<Rightarrow> string \<Rightarrow> 'l list \<Rightarrow> 'l evobj \<times> 'w \<Rightarrow> jret \<Rightarrow> ('l evobj \<times> 'w) \<times> jret \<times> bool" where
  "run_all call types [] st r = (st, r, False)"
| "run_all call types (l # ls) st r =
     (case call l types st of (st', t) \<Rightarrow>
        if t = RTrue then (st', RTrue, True)
        else run_all call types ls st' (if t = RUndef then r else t))"

lemma fire_loop_run_all:
  assumes "\<And>l st. allListeners (fst (fst (call l types st))) = allListeners (fst st)"
  shows "k \<le> length (listeners_of (fst st) ti) \<Longrightarrow>
    fire_loop call types ti k st r = run_all call types (rev (take k (listeners_of (fst st) ti))) st r"
proof (induction k arbitrary: st r)
  case (Suc k)
  let ?ls = "listeners_of (fst st) ti"
  have k: "k < length ?ls" using Suc.prems by simp
  obtain st' t where c: "call (?ls ! k) types st = (st', t)" by (metis surj_pair)
  have same: "listeners_of (fst st') ti = ?ls"
    using assms [of "?ls ! k" st] c unfolding listeners_of_alt by simp
  have tk: "rev (take (Suc k) ?ls) = ?ls ! k # rev (take k ?ls)"
    using k by (simp add: take_Suc_conv_app_nth)
  show ?case
    using Suc.IH [of st' "if t = RUndef then r else t"] Suc.prems same c k
    by (simp add: tk nth_opt_def)
qed simp

subsection \<open>Properties\<close>

text \<open>Registering a listener for an event string appends it once to the listeners of each
  event the string names, whatever the case of the name, and leaves every other event
  alone; removing it with the same string gives back the listeners that were there before,
  when it was not among them.\<close>

theorem add_remove_listener:
  assumes "l \<notin> set (listeners_of ob u)"
  shows "listeners_of (addListener ob types l) u =
      listeners_of ob u @ replicate (length (filter (\<lambda>t. toLowerCase t = toLowerCase u) (split_types types))) l
    \<and> listeners_of (removeListener (addListener ob types l) types l) u = listeners_of ob u"
  using ev.reg_adds [of l ob "split_types types" u] ev.reg_add_rem [OF assms, of "split_types types"]
  unfolding addListener_def removeListener_def by blast

definition ev0 :: "nat evobj" where
  "ev0 = \<lparr>allListeners = Some [(''ready'', [7])], onprops = []\<rparr>"

theorem add_remove_listener_witness:
  "listeners_of (addListener ev0 ''Ready blur'' 3) ''ready'' =
      listeners_of ev0 ''ready'' @
        replicate (length (filter (\<lambda>t. toLowerCase t = toLowerCase ''ready'') (split_types ''Ready blur''))) 3
    \<and> listeners_of (removeListener (addListener ev0 ''Ready blur'' 3) ''Ready blur'' 3) ''ready''
      = listeners_of ev0 ''ready''"
proof -
  have "(3::nat) \<notin> set (listeners_of ev0 ''ready'')" by code_simp
  from add_remove_listener [OF this] show ?thesis .
qed


text \<open>A caller whose listener \<open>n\<close> logs its number; listener 2 returns \<open>true\<close>.\<close>

definition log_call :: "(nat, nat list) caller" where
  "log_call l types st = ((fst st, snd st @ [l]), if l = 2 then RTrue else RUndef)"

definition ev3 :: "nat evobj" where
  "ev3 = \<lparr>allListeners = Some [(''save'', [1, 2, 3])], onprops = []\<rparr>"


text \<open>\<open>fireEvent\<close> splits its event string at every single space and ends at the first empty
  name, while \<open>addListener\<close> splits at runs of blanks: after two spaces the remaining events
  of the string are registered but never fired.\<close>

theorem fireEvent_ignores_after_double_space:
  "split_types ''focus  blur'' = [''focus'', ''blur''] \<and>
   fireEvent call ''focus  blur'' st = fire_types call ''focus  blur'' [''focus''] st RUndef"
proof -
  have "truthy_prefix (split_on CHR '' '' (trim ''focus  blur'')) = [''focus'']" by code_simp
  moreover have "split_types ''focus  blur'' = [''focus'', ''blur'']" by code_simp
  ultimately show ?thesis by (simp add: fireEvent_def)
qed

end
