(* ===== verification/Editor.thy ===== *)
theory Editor
  imports EventBase
begin

text \<open>
  \<open>core/Editor.js\<close>, the part that dispatches: options, the tables of commands and filter rules, running a
  command between two snapshots for undo, and switching the editor off and on. What a command's function, a listener or the
  browser does is the parameter \<open>env\<close>; a function of a command gets the dispatcher, because it can run other
  commands. An operation takes the editor and returns it changed together with a value or an error, so
  that what is left behind by a throw is visible. The commands that a command runs nest at most as deep as the
  first argument of \<open>execCommand\<close>.

  Names that are members of \<open>Object.prototype\<close> are outside the model.
\<close>

subsection \<open>State\<close>

type_synonym fn = nat

record cmd =
  cmd_exec :: "fn option"
  cmd_state :: "fn option"
  cmd_value :: "fn option"
  notNeedUndo :: bool
  ignoreContentChange :: bool

text \<open>
  \<open>entered\<close> is \<open>__hasEnterExecCommand\<close>, \<open>excepted\<close> the argument of \<open>setDisabled\<close> while the editor is disabled, and
  \<open>fired\<close> the events fired so far.
\<close>

record editor =
  options :: "jsval jsobj"
  commands :: "cmd jsobj"
  shortcutkeys :: "string jsobj"
  inputRules :: "fn list"
  outputRules :: "fn list"
  events :: "fn evobj"
  entered :: bool
  ignoreChange :: bool
  excepted :: "string list option"
  fired :: "string list"

type_synonym 'a act = "editor \<Rightarrow> editor \<times> 'a res"

definition ret :: "'a \<Rightarrow> 'a act" where
  "ret x ed = (ed, Inr x)"

definition andThen :: "'a act \<Rightarrow> ('a \<Rightarrow> 'b act) \<Rightarrow> 'b act" where
  "andThen a f ed = (case a ed of (ed', Inr x) \<Rightarrow> f x ed' | (ed', Inl e) \<Rightarrow> (ed', Inl e))"

type_synonym dispatcher = "string \<Rightarrow> jsval act"

record env =
  run_fn :: "fn \<Rightarrow> dispatcher \<Rightarrow> jsval act"
  on_event :: "string \<Rightarrow> unit act"
  ue_commands :: "cmd jsobj"
  selectionChange :: "unit act"

subsection \<open>Options and tables\<close>

definition setOpt :: "jsval jsobj \<Rightarrow> editor \<Rightarrow> editor" where
  "setOpt ob ed = ed\<lparr>options := Utils.extend (options ed) ob True\<rparr>"

definition getOpt :: "string \<Rightarrow> editor \<Rightarrow> jsval" where
  "getOpt key ed = (case obj_get (options ed) key of Some v \<Rightarrow> v | None \<Rightarrow> JUndef)"

definition addshortcutkey :: "string jsobj \<Rightarrow> editor \<Rightarrow> editor" where
  "addshortcutkey ob ed = ed\<lparr>shortcutkeys := Utils.extend (shortcutkeys ed) ob False\<rparr>"

definition addInputRule :: "fn \<Rightarrow> editor \<Rightarrow> editor" where
  "addInputRule rule ed = ed\<lparr>inputRules := inputRules ed @ [rule]\<rparr>"

definition addOutputRule :: "fn \<Rightarrow> editor \<Rightarrow> editor" where
  "addOutputRule rule ed = ed\<lparr>outputRules := outputRules ed @ [rule]\<rparr>"

text \<open>The rules run in the order in which they were added, each on the tree that the one before left.\<close>

definition filterInputRule :: "(fn \<Rightarrow> 'r \<Rightarrow> 'r res) \<Rightarrow> editor \<Rightarrow> 'r \<Rightarrow> 'r res" where
  "filterInputRule apply_rule ed root = foldl (\<lambda>r rule. bind_res r (apply_rule rule)) (Inr root) (inputRules ed)"

definition filterOutputRule :: "(fn \<Rightarrow> 'r \<Rightarrow> 'r res) \<Rightarrow> editor \<Rightarrow> 'r \<Rightarrow> 'r res" where
  "filterOutputRule apply_rule ed root = foldl (\<lambda>r rule. bind_res r (apply_rule rule)) (Inr root) (outputRules ed)"

subsection \<open>Commands\<close>

definition fire :: "env \<Rightarrow> string \<Rightarrow> unit act" where
  "fire e ev ed = on_event e ev (ed\<lparr>fired := fired ed @ [ev]\<rparr>)"

definition find_cmd :: "env \<Rightarrow> string \<Rightarrow> editor \<Rightarrow> cmd option" where
  "find_cmd e cmdName ed = (case obj_get (commands ed) (toLowerCase cmdName) of
     Some c \<Rightarrow> Some c | None \<Rightarrow> obj_get (ue_commands e) (toLowerCase cmdName))"

datatype fn_name = ExecCommand | QueryCommandState | QueryCommandValue

fun cmd_fn :: "fn_name \<Rightarrow> cmd \<Rightarrow> fn option" where
  "cmd_fn ExecCommand c = cmd_exec c"
| "cmd_fn QueryCommandState c = cmd_state c"
| "cmd_fn QueryCommandValue c = cmd_value c"

definition callCmdFn :: "env \<Rightarrow> dispatcher \<Rightarrow> fn_name \<Rightarrow> string \<Rightarrow> jsval act" where
  "callCmdFn e disp fnName cmdName ed =
     (case Option.bind (find_cmd e cmdName ed) (cmd_fn fnName) of
        Some f \<Rightarrow> run_fn e f disp ed
      | None \<Rightarrow> if fnName = QueryCommandState then (ed, Inr (JNum (Some 0))) else (ed, Inr JUndef))"

text \<open>While the editor is disabled, only the names that \<open>setDisabled\<close> got keep their state and value.\<close>

definition queryCommandState :: "env \<Rightarrow> dispatcher \<Rightarrow> string \<Rightarrow> jsval act" where
  "queryCommandState e disp cmdName ed = (case excepted ed of
     Some ex \<Rightarrow> if indexOf ex cmdName None \<noteq> - 1 then callCmdFn e disp QueryCommandState cmdName ed else (ed, Inr (JNum (Some (- 1))))
   | None \<Rightarrow> callCmdFn e disp QueryCommandState cmdName ed)"

definition queryCommandValue :: "env \<Rightarrow> dispatcher \<Rightarrow> string \<Rightarrow> jsval act" where
  "queryCommandValue e disp cmdName ed = (case excepted ed of
     Some ex \<Rightarrow> if indexOf ex cmdName None \<noteq> - 1 then callCmdFn e disp QueryCommandValue cmdName ed else (ed, Inr JNull)
   | None \<Rightarrow> callCmdFn e disp QueryCommandValue cmdName ed)"

definition set_entered :: "bool \<Rightarrow> unit act" where
  "set_entered b ed = (ed\<lparr>entered := b\<rparr>, Inr ())"

definition when_idle :: "cmd \<Rightarrow> unit act \<Rightarrow> unit act" where
  "when_idle c a ed = (if \<not> entered ed \<and> \<not> ignoreContentChange c \<and> \<not> ignoreChange ed then a ed else (ed, Inr ()))"

text \<open>The branch that takes the snapshots, after the flag is set.\<close>

definition with_scenes :: "env \<Rightarrow> dispatcher \<Rightarrow> string \<Rightarrow> jsval act" where
  "with_scenes e disp cmdName =
     andThen (queryCommandState e disp cmdName) (\<lambda>st.
       if st = JNum (Some (- 1)) then ret JUndef
       else andThen (fire e ''saveScene'') (\<lambda>_.
            andThen (fire e ''beforeexeccommand'') (\<lambda>_.
            andThen (callCmdFn e disp ExecCommand cmdName) (\<lambda>result.
            andThen (fire e ''afterexeccommand'') (\<lambda>_.
            andThen (fire e ''saveScene'') (\<lambda>_. ret result))))))"

fun execCommand :: "nat \<Rightarrow> env \<Rightarrow> string \<Rightarrow> jsval act" where
  "execCommand 0 e cmdName ed = (ed, Inl OutOfFuel)"
| "execCommand (Suc k) e cmdName ed =
     (let cmdName = toLowerCase cmdName in
      case find_cmd e cmdName ed of
        None \<Rightarrow> (ed, Inr JNull)
      | Some c \<Rightarrow>
          if cmd_exec c = None then (ed, Inr JNull)
          else andThen
            (if \<not> notNeedUndo c \<and> \<not> entered ed
             then andThen (set_entered True) (\<lambda>_. andThen (with_scenes e (execCommand k e) cmdName) (\<lambda>result.
                    andThen (set_entered False) (\<lambda>_. ret result)))
             else andThen (callCmdFn e (execCommand k e) ExecCommand cmdName) (\<lambda>result.
                    andThen (when_idle c (fire e ''contentchange'')) (\<lambda>_. ret result)))
            (\<lambda>result. andThen (when_idle c (selectionChange e)) (\<lambda>_. ret result)) ed)"

subsection \<open>Switching off and on\<close>

text \<open>\<open>contentEditable\<close> is \<open>false\<close> exactly while the names of \<open>setDisabled\<close> are kept; the bookmark of the selection is left out.\<close>

definition setDisabled :: "env \<Rightarrow> string list \<Rightarrow> unit act" where
  "setDisabled e ex ed =
     (if excepted ed = None then fire e ''selectionchange'' (ed\<lparr>excepted := Some ex\<rparr>) else (ed, Inr ()))"

definition setEnabled :: "env \<Rightarrow> unit act" where
  "setEnabled e ed =
     (if excepted ed \<noteq> None then fire e ''selectionchange'' (ed\<lparr>excepted := None\<rparr>) else (ed, Inr ()))"

subsection \<open>What the rest of the editor may do\<close>

definition scenes :: "editor \<Rightarrow> nat" where
  "scenes ed = count_list (fired ed) ''saveScene''"

text \<open>
  An action is calm when it leaves the flag alone and fires no \<open>saveScene\<close>, whether it returns or throws; it is tame
  when this holds at least inside a command.
\<close>

definition calm :: "'a act \<Rightarrow> bool" where
  "calm a \<longleftrightarrow> (\<forall>ed. entered (fst (a ed)) = entered ed \<and> scenes (fst (a ed)) = scenes ed)"

definition tame :: "'a act \<Rightarrow> bool" where
  "tame a \<longleftrightarrow> (\<forall>ed. entered ed \<longrightarrow> entered (fst (a ed)) \<and> scenes (fst (a ed)) = scenes ed)"

definition env_ok :: "env \<Rightarrow> bool" where
  "env_ok e \<longleftrightarrow> (\<forall>f d. (\<forall>n. tame (d n)) \<longrightarrow> tame (run_fn e f d)) \<and> (\<forall>ev. calm (on_event e ev)) \<and> calm (selectionChange e)"

lemma calm_tame: "calm a \<Longrightarrow> tame a"
  by (simp add: calm_def tame_def)

lemma calm_andThen: "calm a \<Longrightarrow> (\<And>x. calm (f x)) \<Longrightarrow> calm (andThen a f)"
  unfolding calm_def andThen_def by (auto split: prod.splits sum.splits) (metis fst_conv)+

lemma calm_finish: "env_ok e \<Longrightarrow> calm (andThen (when_idle c (selectionChange e)) (\<lambda>_. ret v))"
  by (rule calm_andThen) (simp_all add: calm_def when_idle_def env_ok_def ret_def)

lemma tame_ret: "tame (ret x)"
  by (simp add: tame_def ret_def)

lemma tame_andThen: "tame a \<Longrightarrow> (\<And>x. tame (f x)) \<Longrightarrow> tame (andThen a f)"
  unfolding tame_def andThen_def by (auto split: prod.splits sum.splits)

lemma fire_scenes: "env_ok e \<Longrightarrow> scenes (fst (fire e ev ed)) = scenes ed + (if ev = ''saveScene'' then 1 else 0)"
  "env_ok e \<Longrightarrow> entered (fst (fire e ev ed)) = entered ed"
  by (simp_all add: env_ok_def calm_def fire_def scenes_def)

lemma tame_fire: "env_ok e \<Longrightarrow> ev \<noteq> ''saveScene'' \<Longrightarrow> tame (fire e ev)"
  by (simp add: tame_def fire_scenes)

lemma tame_callCmdFn: "env_ok e \<Longrightarrow> (\<And>n. tame (disp n)) \<Longrightarrow> tame (callCmdFn e disp fnName cmdName)"
  by (auto simp: tame_def callCmdFn_def env_ok_def split: option.split)

lemma tame_queryCommandState: "env_ok e \<Longrightarrow> (\<And>n. tame (disp n)) \<Longrightarrow> tame (queryCommandState e disp cmdName)"
  using tame_callCmdFn [of e disp] by (auto simp: tame_def queryCommandState_def split: option.split)

text \<open>Inside a command, another command takes no snapshot, however it ends.\<close>

lemma tame_execCommand: "env_ok e \<Longrightarrow> tame (execCommand k e cmdName)"
proof (induction k arbitrary: cmdName)
  case 0
  then show ?case by (simp add: tame_def)
next
  case (Suc k)
  have t: "tame (callCmdFn e (execCommand k e) ExecCommand n)" for n using Suc by (intro tame_callCmdFn)
  have i: "tame (when_idle c a)" for c a by (simp add: tame_def when_idle_def)
  have "tame (andThen (andThen (callCmdFn e (execCommand k e) ExecCommand n) (\<lambda>r. andThen (when_idle c a) (\<lambda>_. ret r)))
      (\<lambda>r. andThen (when_idle c b) (\<lambda>_. ret r)))" for n c a b
    by (intro tame_andThen t i tame_ret)
  then show ?case unfolding tame_def by (auto simp: Let_def split: option.splits)
qed

text \<open>How many snapshots an action takes inside a command, when it returns; and that it keeps the flag when it throws.\<close>

definition takes :: "nat \<Rightarrow> 'a act \<Rightarrow> bool" where
  "takes n a \<longleftrightarrow> (\<forall>ed. entered ed \<longrightarrow> entered (fst (a ed)) \<and>
     (\<forall>x. snd (a ed) = Inr x \<longrightarrow> scenes (fst (a ed)) = scenes ed + n))"

lemma takes_andThen: "takes m' a \<Longrightarrow> (\<And>x. takes n (f x)) \<Longrightarrow> takes (m' + n) (andThen a f)"
  unfolding takes_def andThen_def by (auto split: prod.splits sum.splits)

lemma takes_tame: "tame a \<Longrightarrow> takes 0 a"
  by (simp add: tame_def takes_def)

lemma takes_scene: "env_ok e \<Longrightarrow> takes 1 (fire e ''saveScene'')"
  by (simp add: takes_def fire_scenes)

lemma takes_between:
  assumes "env_ok e" "\<And>n. tame (disp n)"
  shows "takes 2 (andThen (fire e ''saveScene'') (\<lambda>_. andThen (fire e ''beforeexeccommand'') (\<lambda>_.
    andThen (callCmdFn e disp ExecCommand cmdName) (\<lambda>result. andThen (fire e ''afterexeccommand'') (\<lambda>_.
    andThen (fire e ''saveScene'') (\<lambda>_. ret result))))))"
proof -
  have "takes (1 + (0 + (0 + (0 + (1 + 0))))) (andThen (fire e ''saveScene'') (\<lambda>_. andThen (fire e ''beforeexeccommand'') (\<lambda>_.
    andThen (callCmdFn e disp ExecCommand cmdName) (\<lambda>result. andThen (fire e ''afterexeccommand'') (\<lambda>_.
    andThen (fire e ''saveScene'') (\<lambda>_. ret result))))))"
    by (intro takes_andThen takes_scene takes_tame tame_fire tame_callCmdFn tame_ret assms) simp_all
  then show ?thesis by (simp add: numeral_2_eq_2)
qed

definition enabled_here :: "env \<Rightarrow> nat \<Rightarrow> string \<Rightarrow> editor \<Rightarrow> bool" where
  "enabled_here e k cmdName ed \<longleftrightarrow>
     snd (queryCommandState e (execCommand k e) (toLowerCase cmdName) (ed\<lparr>entered := True\<rparr>)) \<noteq> Inr (JNum (Some (- 1)))"

lemma with_scenes_takes:
  assumes "env_ok e" "entered ed"
  shows "entered (fst (with_scenes e (execCommand k e) cmdName ed)) \<and>
    (\<forall>r. snd (with_scenes e (execCommand k e) cmdName ed) = Inr r \<longrightarrow>
      scenes (fst (with_scenes e (execCommand k e) cmdName ed)) =
      scenes ed + (if snd (queryCommandState e (execCommand k e) cmdName ed) = Inr (JNum (Some (- 1))) then 0 else 2))"
proof -
  let ?q = "queryCommandState e (execCommand k e) cmdName"
  have d: "\<And>n. tame (execCommand k e n)" using tame_execCommand [OF assms(1)] .
  have q: "entered (fst (?q ed))" "scenes (fst (?q ed)) = scenes ed"
    using tame_queryCommandState [OF assms(1) d] assms(2) by (auto simp: tame_def)
  note b = takes_between [where cmdName = cmdName, OF assms(1) d]
  show ?thesis using q b assms(2)
    by (auto simp: with_scenes_def andThen_def [of ?q] ret_def takes_def split: prod.split sum.split)
qed

lemma execCommand_undo:
  assumes "\<not> entered ed" "find_cmd e (toLowerCase cmdName) ed = Some c" "cmd_exec c \<noteq> None" "\<not> notNeedUndo c"
  shows "execCommand (Suc k) e cmdName ed =
    (case with_scenes e (execCommand k e) (toLowerCase cmdName) (ed\<lparr>entered := True\<rparr>) of
       (ed1, Inl err) \<Rightarrow> (ed1, Inl err)
     | (ed1, Inr v) \<Rightarrow> andThen (when_idle c (selectionChange e)) (\<lambda>_. ret v) (ed1\<lparr>entered := False\<rparr>))"
proof -
  obtain ed1 x where w: "with_scenes e (execCommand k e) (toLowerCase cmdName) (ed\<lparr>entered := True\<rparr>) = (ed1, x)" by (metis surj_pair)
  have c: "(cmd_exec c = None) = False" "(\<not> notNeedUndo c \<and> \<not> entered ed) = True" using assms by simp_all
  show ?thesis unfolding execCommand.simps(2) Let_def assms(2) option.case c if_True if_False andThen_def set_entered_def prod.case sum.case w ret_def
    by (cases x) simp_all
qed

lemma after_throw:
  "env_ok e \<Longrightarrow> entered ed \<Longrightarrow> scenes (foldl (\<lambda>ed n. fst (execCommand k e n ed)) ed ns) = scenes ed"
proof (induction ns arbitrary: ed)
  case (Cons n ns)
  then have "entered (fst (execCommand k e n ed)) \<and> scenes (fst (execCommand k e n ed)) = scenes ed"
    using tame_execCommand [OF Cons.prems(1)] by (simp add: tame_def)
  then show ?case using Cons by simp
qed simp

subsection \<open>Properties\<close>


definition plain_cmd :: "fn \<Rightarrow> cmd" where
  "plain_cmd f = \<lparr>cmd_exec = Some f, cmd_state = None, cmd_value = None, notNeedUndo = False, ignoreContentChange = False\<rparr>"

text \<open>Function 0 throws, function 1 runs the command \<open>one\<close>, every other one does nothing.\<close>

definition demo_run :: "fn \<Rightarrow> dispatcher \<Rightarrow> jsval act" where
  "demo_run f disp ed = (if f = 0 then (ed, Inl TypeError) else if f = 1 then disp ''one'' ed else (ed, Inr JNull))"

definition demo_editor_env :: env where
  "demo_editor_env = \<lparr>run_fn = demo_run, on_event = (\<lambda>_. ret ()),
     ue_commands = [(''bad'', plain_cmd 0), (''two'', plain_cmd 1), (''one'', plain_cmd 2)], selectionChange = ret ()\<rparr>"

definition demo_editor :: editor where
  "demo_editor = \<lparr>options = [], commands = [], shortcutkeys = [], inputRules = [], outputRules = [],
     events = \<lparr>allListeners = None, onprops = []\<rparr>, entered = False, ignoreChange = False, excepted = None, fired = []\<rparr>"

lemma demo_editor_ok: "env_ok demo_editor_env"
  by (auto simp: env_ok_def demo_editor_env_def tame_def calm_def ret_def demo_run_def)




end
