(* ===== verification/Plugin.thy ===== *)
theory Plugin
  imports Editor
begin

text \<open>
  \<open>core/plugin.js\<close> and \<open>core/keymap.js\<close>: the registry of plugins and what loading them does to an
  editor. A plugin's function returns a description of what it adds (key bindings, listeners, commands, filter
  rules, default options), which \<open>load\<close> enters into the editor's tables. A value in the
  description has the shape that its key asks for; anything else is ignored here.
\<close>

subsection \<open>The registry\<close>

datatype export_value =
    XKeys "string jsobj"
  | XEvents "(string \<times> fn) list"
  | XMulti "(string \<times> fn) list"
  | XCommands "cmd jsobj"
  | XRule fn
  | XOptions "jsval jsobj"

type_synonym exports = "(string \<times> export_value) list"

record plugin =
  optionName :: string
  execFn :: "editor \<Rightarrow> editor \<times> exports option"
  afterDisabled :: "(editor \<Rightarrow> editor) option"

type_synonym registry = "plugin jsobj"

text \<open>The third argument of \<open>register\<close>: missing, a name, or the function for the disabled case.\<close>

datatype old_name = NoName | OldName string | OldFn "editor \<Rightarrow> editor"

definition register :: "string \<Rightarrow> (editor \<Rightarrow> editor \<times> exports option) \<Rightarrow> old_name \<Rightarrow> (editor \<Rightarrow> editor) option \<Rightarrow> registry \<Rightarrow> registry" where
  "register pluginName fn oldOptionName aft reg =
     (let (nm, aft) = (case oldOptionName of
            OldFn f \<Rightarrow> ([], Some f) | OldName s \<Rightarrow> (s, aft) | NoName \<Rightarrow> ([], aft))
      in obj_set pluginName \<lparr>optionName = (if nm \<noteq> [] then nm else pluginName), execFn = fn, afterDisabled = aft\<rparr> reg)"

subsection \<open>Loading\<close>

definition add_listeners :: "(string \<times> fn) list \<Rightarrow> editor \<Rightarrow> editor" where
  "add_listeners evs ed = foldl (\<lambda>ed (eventName, f). ed\<lparr>events := addListener (events ed) eventName f\<rparr>) ed evs"

definition add_multi :: "(string \<times> fn) list \<Rightarrow> editor \<Rightarrow> editor" where
  "add_multi evs ed = foldl (\<lambda>ed (ty, handler).
     add_listeners (map (\<lambda>t. (t, handler)) (split_re (some ws) (trim ty))) ed) ed evs"

definition install :: "editor \<Rightarrow> string \<times> export_value \<Rightarrow> editor" where
  "install ed kv = (case kv of (k, v) \<Rightarrow>
     let k = toLowerCase k in
     case v of
       XKeys ob \<Rightarrow> if k = ''shortcutkey'' then addshortcutkey ob ed else ed
     | XEvents evs \<Rightarrow> if k = ''bindevents'' then add_listeners evs ed else ed
     | XMulti evs \<Rightarrow> if k = ''bindmultievents'' then add_multi evs ed else ed
     | XCommands cs \<Rightarrow> if k = ''commands'' then ed\<lparr>commands := foldl (\<lambda>t (n, c). obj_set n c t) (commands ed) cs\<rparr> else ed
     | XRule f \<Rightarrow> if k = ''outputrule'' then addOutputRule f ed else if k = ''inputrule'' then addInputRule f ed else ed
     | XOptions ob \<Rightarrow> if k = ''defaultoptions'' then setOpt ob ed else ed)"

text \<open>The plugin's function runs before the option is looked at, also for a plugin that is switched off.\<close>

definition load_one :: "editor \<Rightarrow> plugin \<Rightarrow> editor" where
  "load_one ed p =
     (case execFn p ed of (ed1, ex) \<Rightarrow>
        if obj_get (options ed1) (optionName p) \<noteq> Some (JBool False)
        then (case ex of Some kvs \<Rightarrow> foldl install ed1 kvs | None \<Rightarrow> ed1)
        else (case afterDisabled p of Some f \<Rightarrow> f ed1 | None \<Rightarrow> ed1))"

definition load :: "registry \<Rightarrow> (editor \<Rightarrow> editor) list \<Rightarrow> editor \<Rightarrow> editor" where
  "load reg old_plugins ed = foldl (\<lambda>ed f. f ed) (foldl load_one ed (map snd reg)) old_plugins"

text \<open>The property that \<open>run\<close> calls is \<open>exeFn\<close>, which no plugin has.\<close>

definition run :: "string \<Rightarrow> registry \<Rightarrow> editor \<Rightarrow> editor res" where
  "run pluginName reg ed = (case obj_get reg pluginName of None \<Rightarrow> Inr ed | Some p \<Rightarrow> Inl TypeError)"

subsection \<open>Key codes\<close>

definition keymap :: "nat jsobj" where
  "keymap = [(''Backspace'', 8), (''Tab'', 9), (''Enter'', 13), (''Shift'', 16), (''Control'', 17), (''Alt'', 18), (''CapsLock'', 20),
     (''Esc'', 27), (''Spacebar'', 32), (''PageUp'', 33), (''PageDown'', 34), (''End'', 35), (''Home'', 36), (''Left'', 37), (''Up'', 38),
     (''Right'', 39), (''Down'', 40), (''Insert'', 45), (''Del'', 46), (''NumLock'', 144), (''Cmd'', 91), (''='', 187), (''-'', 189),
     (''b'', 66), (''i'', 73), (''z'', 90), (''y'', 89), (''v'', 86), (''x'', 88), (''s'', 83), (''n'', 78)]"

subsection \<open>Options set by the user\<close>

definition keeps_options :: "(editor \<Rightarrow> editor) \<Rightarrow> bool" where
  "keeps_options f \<longleftrightarrow> (\<forall>ed k v. obj_get (options ed) k = Some v \<longrightarrow> obj_get (options (f ed)) k = Some v)"

definition plugin_ok :: "plugin \<Rightarrow> bool" where
  "plugin_ok p \<longleftrightarrow> keeps_options (\<lambda>ed. fst (execFn p ed)) \<and> (\<forall>f. afterDisabled p = Some f \<longrightarrow> keeps_options f)"

lemma extend_keeps: "obj_get t k = Some v \<Longrightarrow> obj_get (Utils.extend t ob True) k = Some v"
proof (induction ob arbitrary: t)
  case (Cons kv ob)
  obtain j w where kv: "kv = (j, w)" by (cases kv)
  have "obj_get (if j \<notin> set (obj_keys t) then obj_set j w t else t) k = Some v"
    using Cons.prems weak_map_of_SomeI by (auto simp: update_conv dest: map_of_SomeD) (metis fst_conv image_eqI map_of_SomeD)
  then show ?case using Cons.IH by (simp add: Utils.extend_def kv)
qed (simp add: Utils.extend_def)

lemma options_add_listeners: "options (add_listeners evs ed) = options ed"
  unfolding add_listeners_def by (induction evs arbitrary: ed) (auto simp: split_beta)

lemma options_add_multi: "options (add_multi evs ed) = options ed"
  unfolding add_multi_def by (induction evs arbitrary: ed) (auto simp: split_beta options_add_listeners)

lemma install_keeps: "obj_get (options ed) k = Some v \<Longrightarrow> obj_get (options (install ed kv)) k = Some v"
  by (auto simp: install_def Let_def addshortcutkey_def options_add_listeners options_add_multi addOutputRule_def addInputRule_def
      setOpt_def extend_keeps split: prod.splits export_value.splits)

lemma installs_keep: "obj_get (options ed) k = Some v \<Longrightarrow> obj_get (options (foldl install ed kvs)) k = Some v"
  by (induction kvs arbitrary: ed) (auto simp: install_keeps)

lemma load_one_keeps:
  assumes "plugin_ok p" "obj_get (options ed) k = Some v"
  shows "obj_get (options (load_one ed p)) k = Some v"
proof -
  obtain ed1 ex where x: "execFn p ed = (ed1, ex)" by (metis surj_pair)
  then have "obj_get (options ed1) k = Some v" using assms by (auto simp: plugin_ok_def keeps_options_def) (metis fst_conv)
  then show ?thesis using assms(1) by (auto simp: load_one_def x plugin_ok_def keeps_options_def installs_keep split: option.splits)
qed

subsection \<open>Properties\<close>

text \<open>What the user configured wins: an option that is set when the plugins are loaded has the same value afterwards, whatever defaults
  the plugins bring and however many there are, and whatever their order.\<close>

theorem load_keeps_user_options:
  assumes "list_all plugin_ok (map snd reg)" "list_all keeps_options old_plugins" "obj_get (options ed) k = Some v"
  shows "obj_get (options (load reg old_plugins ed)) k = Some v"
proof -
  have "obj_get (options (foldl load_one ed ps)) k = Some v" if "list_all plugin_ok ps" "obj_get (options ed) k = Some v" for ps ed
    using that by (induction ps arbitrary: ed) (auto simp: load_one_keeps)
  then have "obj_get (options (foldl load_one ed (map snd reg))) k = Some v" using assms(1,3) by blast
  moreover have "obj_get (options (foldl (\<lambda>ed f. f ed) ed fs)) k = Some v"
    if "list_all keeps_options fs" "obj_get (options ed) k = Some v" for fs ed
    using that by (induction fs arbitrary: ed) (auto simp: keeps_options_def)
  ultimately show ?thesis using assms(2) by (simp add: load_def)
qed

definition demo_plugin :: plugin where
  "demo_plugin = \<lparr>optionName = ''auto'', execFn = (\<lambda>ed. (ed, Some [(''defaultOptions'', XOptions [(''auto'', JBool True), (''max'', JNum (Some 9))])])),
     afterDisabled = None\<rparr>"

theorem load_keeps_user_options_witness:
  "obj_get (options (load [(''p'', demo_plugin)] [] (demo_editor\<lparr>options := [(''max'', JNum (Some 5))]\<rparr>))) ''max'' = Some (JNum (Some 5)) \<and>
   obj_get (options (load [(''p'', demo_plugin)] [] (demo_editor\<lparr>options := [(''max'', JNum (Some 5))]\<rparr>))) ''auto'' = Some (JBool True)"
proof
  show "obj_get (options (load [(''p'', demo_plugin)] [] (demo_editor\<lparr>options := [(''max'', JNum (Some 5))]\<rparr>))) ''max'' = Some (JNum (Some 5))"
    by (rule load_keeps_user_options) (simp_all add: plugin_ok_def keeps_options_def demo_plugin_def)
  show "obj_get (options (load [(''p'', demo_plugin)] [] (demo_editor\<lparr>options := [(''max'', JNum (Some 5))]\<rparr>))) ''auto'' = Some (JBool True)"
    by code_simp
qed

text \<open>A plugin that is registered cannot be run by name: \<open>run\<close> throws for every registered name, and does nothing for any other.\<close>

theorem run_registered_throws:
  "run pluginName (register pluginName f o1 aft reg) ed = Inl TypeError \<and> (obj_get reg other = None \<and> other \<noteq> pluginName \<longrightarrow>
     run other (register pluginName f o1 aft reg) ed = Inr ed)"
  by (simp add: run_def register_def Let_def split_beta update_conv)

theorem run_registered_throws_witness: "run ''q'' (register ''p'' (\<lambda>ed. (ed, None)) NoName None []) demo_editor = Inr demo_editor"
  using run_registered_throws [of "''p''" "\<lambda>ed. (ed, None)" NoName None "[]" demo_editor "''q''"] by simp

end
