(* ===== verification/FilterNode.thy ===== *)
theory FilterNode
  imports UTree
begin

text \<open>
  \<open>core/filternode.js\<close>: the white list that every document passes before it enters the
  editor. A rule deletes an element, hands it to a function, or names the attributes it may
  keep; an element without a rule is unwrapped, a script or style without one is deleted,
  and so is every comment. The loops walk child lists that the recursion changes. For rules
  without functions the filter is shown to end and to leave a tree in which every element
  has a rule that keeps it, with no attribute its rule does not name, and no comment.

  The value of the key \<open>-\<close> is kept apart from the rules of the tags. Tags that are members of
  \<open>Object.prototype\<close> are outside the model.
\<close>

subsection \<open>Rules\<close>

text \<open>The attributes of \<open>$\<close>: for \<open>style\<close> an array names the properties to keep.\<close>

type_synonym attr_spec = "string list option jsobj"

datatype rule = RDel | RFun "ptr \<Rightarrow> store \<Rightarrow> store" | RObj "attr_spec option"

definition keep_styles :: "unode \<Rightarrow> string list \<Rightarrow> string" where
  "keep_styles n vs =
     join '';'' (concat (map (\<lambda>v. if getStyle n v \<noteq> [] then [v @ '':'' @ getStyle n v] else []) vs))"

definition keep_attr :: "unode \<Rightarrow> string option jsobj \<Rightarrow> string \<times> string list option \<Rightarrow> string option jsobj" where
  "keep_attr n tmpAttrs av = (case av of (a, sp) \<Rightarrow>
     (let tmpVal = (case sp of
            Some vs \<Rightarrow> if a = ''style'' then Some (keep_styles n vs) else getAttr n a
          | None \<Rightarrow> getAttr n a)
      in if tmpVal = None \<or> tmpVal = Some [] then tmpAttrs else obj_set a tmpVal tmpAttrs))"

definition keep_attrs :: "attr_spec option \<Rightarrow> unode \<Rightarrow> unode" where
  "keep_attrs sp n = (case (sp, attrs n) of
      (Some sps, Some _) \<Rightarrow> n\<lparr>attrs := Some (foldl (keep_attr n) [] sps)\<rparr>
    | _ \<Rightarrow> n)"

subsection \<open>The walk\<close>

definition delete_node :: "ptr \<Rightarrow> store \<Rightarrow> store res" where
  "delete_node node h = (case parentNode (h ! node) of
      None \<Rightarrow> Inl TypeError
    | Some p \<Rightarrow> Inr (fst (removeChild p node False h)))"

fun filterNode :: "nat \<Rightarrow> rule jsobj \<Rightarrow> ptr \<Rightarrow> store \<Rightarrow> store res"
  and filter_from :: "nat \<Rightarrow> rule jsobj \<Rightarrow> ptr \<Rightarrow> nat \<Rightarrow> store \<Rightarrow> store res" where
  "filterNode 0 rules node h = Inl OutOfFuel"
| "filterNode (Suc k) rules node h =
     (case ntype (h ! node) of
        Text \<Rightarrow> Inr h
      | Root \<Rightarrow> Inr h
      | Comment \<Rightarrow> delete_node node h
      | Element \<Rightarrow>
          (case obj_get rules (tagName (h ! node)) of
             Some RDel \<Rightarrow> delete_node node h
           | Some (RFun f) \<Rightarrow>
               (case parentNode (h ! node) of
                  None \<Rightarrow> Inl TypeError
                | Some p \<Rightarrow>
                    bind_res (getIndex h node) (\<lambda>index.
                      let h1 = f node h in
                      if parentNode (h1 ! node) \<noteq> None then filter_from k rules node 0 h1
                      else if index < 0 then Inr h1
                      else filter_from k rules p (nat index) h1))
           | Some (RObj sp) \<Rightarrow> filter_from k rules node 0 (upd node (keep_attrs sp) h)
           | None \<Rightarrow>
               if dtd_has dtd_c_cdata (tagName (h ! node)) then delete_node node h
               else (case parentNode (h ! node) of
                  None \<Rightarrow> Inl TypeError
                | Some p \<Rightarrow>
                    bind_res (getIndex h node) (\<lambda>index.
                      let h1 = fst (removeChild p node True h) in
                      if index < 0 then Inr h1 else filter_from k rules p (nat index) h1))))"
| "filter_from 0 rules p i h = Inl OutOfFuel"
| "filter_from (Suc k) rules p i h =
     (case nth_opt (kids h p) i of
        None \<Rightarrow> Inr h
      | Some ci \<Rightarrow>
          bind_res (filterNode k rules ci h) (\<lambda>h1.
            filter_from k rules p (if parentNode (h1 ! ci) = None then i else Suc i) h1))"

declare filterNode.simps(2) [simp del] filter_from.simps(2) [simp del]

definition del_rules :: "string option \<Rightarrow> rule jsobj \<Rightarrow> rule jsobj" where
  "del_rules dels rules = (case dels of
      Some (c # s) \<Rightarrow> foldl (\<lambda>r k. obj_set k RDel r) rules (split_on CHR '' '' (c # s))
    | _ \<Rightarrow> rules)"

definition filter_root :: "nat \<Rightarrow> string option \<Rightarrow> rule jsobj \<Rightarrow> ptr \<Rightarrow> store \<Rightarrow> store res" where
  "filter_root k dels rules root h =
     (if dels = None \<and> rules = [] then Inr h
      else filter_from k (del_rules dels rules) root 0 h)"

subsection \<open>Clean trees\<close>

definition attrs_allowed :: "attr_spec option \<Rightarrow> unode \<Rightarrow> bool" where
  "attrs_allowed sp n \<longleftrightarrow> (case (sp, attrs n) of
      (Some sps, Some a) \<Rightarrow> set (obj_keys a) \<subseteq> set (obj_keys sps)
    | _ \<Rightarrow> True)"

fun clean :: "rule jsobj \<Rightarrow> store \<Rightarrow> ptree \<Rightarrow> bool" where
  "clean rules h (PT p ts) \<longleftrightarrow>
     (case ntype (h ! p) of
        Text \<Rightarrow> True
      | Root \<Rightarrow> True
      | Comment \<Rightarrow> False
      | Element \<Rightarrow>
          (case obj_get rules (tagName (h ! p)) of
             Some (RObj sp) \<Rightarrow> attrs_allowed sp (h ! p) \<and> list_all (clean rules h) ts
           | _ \<Rightarrow> False))"

definition no_functions :: "rule jsobj \<Rightarrow> bool" where
  "no_functions rules \<longleftrightarrow> list_all (\<lambda>(k, r). case r of RFun f \<Rightarrow> False | _ \<Rightarrow> True) rules"

lemma obj_keys_set: "fst ` set (obj_set k v ob) = insert k (fst ` set ob)"
  using dom_map_of_conv_image_fst [of "obj_set k v ob"] dom_map_of_conv_image_fst [of ob]
  by (simp add: update_conv')

lemma keep_attrs_allowed: "attrs_allowed sp (keep_attrs sp n)"
proof -
  have "set (obj_keys (foldl (keep_attr n) ts sps)) \<subseteq> set (obj_keys ts) \<union> set (obj_keys sps)" for ts sps
  proof (induction sps arbitrary: ts)
    case (Cons av sps)
    obtain a s where av: "av = (a, s)" by (cases av)
    have "set (obj_keys (keep_attr n ts av)) \<subseteq> insert a (set (obj_keys ts))"
      by (auto simp: keep_attr_def av Let_def obj_keys_set split: option.splits)
    moreover have "set (obj_keys (foldl (keep_attr n) (keep_attr n ts av) sps)) \<subseteq>
        set (obj_keys (keep_attr n ts av)) \<union> set (obj_keys sps)" by (rule Cons)
    ultimately have "set (obj_keys (foldl (keep_attr n) ts (av # sps))) \<subseteq>
        insert a (set (obj_keys ts)) \<union> set (obj_keys sps)" unfolding foldl_Cons by blast
    then show ?case by (simp only: av list.map list.set fst_conv Un_insert_left Un_insert_right)
  qed simp
  from this [of "[]"] show ?thesis by (auto simp: attrs_allowed_def keep_attrs_def split: option.splits)
qed

subsection \<open>Frames\<close>

text \<open>Nothing that the filter reads of a node changes but its child list.\<close>

definition same_node :: "store \<Rightarrow> store \<Rightarrow> ptr \<Rightarrow> bool" where
  "same_node h h' q \<longleftrightarrow> ntype (h' ! q) = ntype (h ! q) \<and> tagName (h' ! q) = tagName (h ! q) \<and>
     attrs (h' ! q) = attrs (h ! q) \<and> parentNode (h' ! q) = parentNode (h ! q)"

lemma same_node_refl [simp]: "same_node h h q"
  by (simp add: same_node_def)

lemma same_node_trans: "same_node h h1 q \<Longrightarrow> same_node h1 h2 q \<Longrightarrow> same_node h h2 q"
  by (simp add: same_node_def)

lemma clean_frame: "(\<And>q. q \<in> set (ptrs t) \<Longrightarrow> same_node h h' q) \<Longrightarrow> clean rules h' t = clean rules h t"
proof (induction t)
  case (PT p ts)
  have "list_all (clean rules h') ts = list_all (clean rules h) ts"
    using PT by (intro list_all_cong) auto
  moreover have "same_node h h' p" using PT.prems by simp
  moreover from this have "attrs_allowed sp (h' ! p) = attrs_allowed sp (h ! p)" for sp
    by (simp add: same_node_def attrs_allowed_def)
  ultimately show ?case by (simp add: same_node_def split: node_type.splits option.splits rule.splits)
qed

lemma removeChild_same:
  "q \<noteq> n \<Longrightarrow> same_node h (fst (removeChild p n False h)) q"
  by (auto simp: removeChild_def same_node_def link_simps Let_def split: option.splits)

lemma keep_children_same:
  "q \<notin> set cs \<Longrightarrow> same_node h (foldl (\<lambda>h (j, cj). set_parent cj (Some this)
      (set_children this (splice_at (i + j) 0 [cj] (kids h this)) h)) h (enumerate n cs)) q"
proof (induction cs arbitrary: h n)
  case (Cons c cs)
  let ?h = "set_parent c (Some this) (set_children this (splice_at (i + n) 0 [c] (kids h this)) h)"
  have "same_node h ?h q" using Cons.prems by (auto simp: same_node_def link_simps)
  then show ?case using Cons.IH [of ?h "Suc n"] Cons.prems by (auto intro: same_node_trans)
qed simp

lemma removeChild_keep_same:
  assumes "q \<noteq> n" "q \<notin> set (kids h n)" "n \<noteq> p"
  shows "same_node h (fst (removeChild p n True h)) q"
proof (cases "index_of n (kids h p)")
  case None
  show ?thesis
  proof (cases "children (h ! p)")
    case (Some cs)
    then have i: "index_of n cs = None" using None by simp
    show ?thesis by (simp add: removeChild_def Some i)
  qed (simp add: removeChild_def)
next
  case (Some i)
  then obtain cs where c: "children (h ! p) = Some cs" by (cases "children (h ! p)") auto
  let ?h = "set_parent n None (set_children p (splice_at i 1 [] cs) h)"
  have k: "kids ?h n = kids h n" using assms(3) by (auto simp: link_simps)
  have "same_node h ?h q" using assms(1) by (auto simp: same_node_def link_simps)
  then show ?thesis
    using keep_children_same [of q "kids h n" ?h p i 0] assms(2) c Some k
    by (auto simp: removeChild_def keep_children_def Let_def intro: same_node_trans)
qed

subsection \<open>Children of a subtree\<close>

lemma sub_child:
  assumes "p \<in> set (ptrs t)" "distinct (ptrs t)" "sub p t = us @ x # vs"
  shows "proot x \<in> set (ptrs t) \<and> sub (proot x) t = subs x \<and>
    at (proot x) (\<lambda>_. gs) t = at p (\<lambda>_. us @ PT (proot x) gs # vs) t"
  using assms
proof (induction rule: path_induct)
  case (here ts)
  then have ts: "ts = us @ x # vs" by (simp add: here_simps)
  obtain n ns where x: "x = PT n ns" by (cases x)
  have d: "n \<noteq> p" "\<forall>y \<in> set us. n \<notin> set (ptrs y)" "\<forall>y \<in> set vs. n \<notin> set (ptrs y)"
    using here(1) by (auto simp: ts x)
  show ?case using d by (simp add: ts x here_simps path_simps)
next
  case (below q us0 c vs0)
  obtain n ns where x: "x = PT n ns" by (cases x)
  have s: "sub p c = us @ x # vs" using below by (simp add: path_simps)
  then have n: "n \<in> set (ptrs c)" using ptrs_sub [of x p c] by (auto simp: x)
  then have d: "q \<noteq> n" "\<forall>y \<in> set us0. n \<notin> set (ptrs y)" "\<forall>y \<in> set vs0. n \<notin> set (ptrs y)"
    using below.hyps(2) by auto
  show ?case using below.IH [OF s] d below.hyps by (simp add: x path_simps)
qed

lemma at_same: "p \<in> set (ptrs t) \<Longrightarrow> distinct (ptrs t) \<Longrightarrow> at p (\<lambda>_. sub p t) t = t"
  by (induction rule: path_induct) (simp_all add: here_simps path_simps)

abbreviation nodes :: "ptree list \<Rightarrow> ptr set" where
  "nodes ts \<equiv> set (concat (map ptrs ts))"

subsection \<open>The filter ends and cleans\<close>

text \<open>What a loop from position \<open>length us\<close> over the children of \<open>p\<close> achieves.\<close>

definition filtered ::
  "rule jsobj \<Rightarrow> store \<Rightarrow> ptr option \<Rightarrow> ptree \<Rightarrow> ptr \<Rightarrow> ptree list \<Rightarrow> ptree list \<Rightarrow> store \<Rightarrow> bool" where
  "filtered rules h par t p us vs h' \<longleftrightarrow>
     (\<exists>gs. represents h' par (at p (\<lambda>_. us @ gs) t) \<and> list_all (clean rules h') gs \<and>
        nodes gs \<subseteq> nodes vs \<and> (\<forall>q. q \<notin> nodes vs \<longrightarrow> same_node h h' q))"

text \<open>A larger bound gives the same result.\<close>

lemma filter_mono:
  "(filterNode k rules n h = Inr h' \<longrightarrow> k \<le> k' \<longrightarrow> filterNode k' rules n h = Inr h') \<and>
   (filter_from k rules p i h = Inr h' \<longrightarrow> k \<le> k' \<longrightarrow> filter_from k' rules p i h = Inr h')"
proof (induction k arbitrary: k' n h h' p i)
  case (Suc k)
  have "filterNode k' rules n h = Inr h'" if a: "filterNode (Suc k) rules n h = Inr h'" and b: "Suc k \<le> k'" for n h h' k'
  proof -
    obtain l where l: "k' = Suc l" "k \<le> l" using b by (cases k') auto
    have ff: "\<And>p i h h'. filter_from k rules p i h = Inr h' \<Longrightarrow> filter_from l rules p i h = Inr h'"
      using Suc.IH l by blast
    show ?thesis using a unfolding l
      by (auto simp: filterNode.simps Let_def bind_res_def intro: ff
          split: node_type.splits option.splits rule.splits if_splits sum.splits)
  qed
  moreover have "filter_from k' rules p i h = Inr h'" if a: "filter_from (Suc k) rules p i h = Inr h'" and b: "Suc k \<le> k'" for p i h h' k'
  proof -
    obtain l where l: "k' = Suc l" "k \<le> l" using b by (cases k') auto
    have fn: "\<And>n h h'. filterNode k rules n h = Inr h' \<Longrightarrow> filterNode l rules n h = Inr h'"
      and ff: "\<And>p i h h'. filter_from k rules p i h = Inr h' \<Longrightarrow> filter_from l rules p i h = Inr h'"
      using Suc.IH l by blast+
    show ?thesis using a unfolding l
      by (auto simp: filter_from.simps bind_res_def dest!: fn intro: ff split: option.splits sum.splits if_splits)
  qed
  ultimately show ?case by blast
qed simp

lemma filter_from_step:
  assumes "nth_opt (kids h p) i = Some ci" "filterNode k rules ci h = Inr h1"
    "filter_from l rules p (if parentNode (h1 ! ci) = None then i else Suc i) h1 = Inr h2"
  shows "\<exists>m. filter_from m rules p i h = Inr h2"
proof -
  let ?m = "max k l"
  have "filterNode ?m rules ci h = Inr h1" using filter_mono assms(2) by (meson max.cobounded1)
  moreover have "filter_from ?m rules p (if parentNode (h1 ! ci) = None then i else Suc i) h1 = Inr h2"
    using filter_mono assms(3) by (meson max.cobounded2)
  ultimately have "filter_from (Suc ?m) rules p i h = Inr h2"
    by (simp add: filter_from.simps(2) assms(1))
  then show ?thesis by blast
qed

lemma filtered_after:
  assumes t: "p \<in> set (ptrs t)" "distinct (ptrs t)"
    and f: "filtered rules h1 par (at p (\<lambda>_. us @ g1) t) p us g1 h2"
    and n: "nodes g1 \<subseteq> nodes vs" and s: "\<forall>q. q \<notin> nodes vs \<longrightarrow> same_node h h1 q"
  shows "filtered rules h par t p us vs h2"
proof -
  obtain gs where g: "represents h2 par (at p (\<lambda>_. us @ gs) (at p (\<lambda>_. us @ g1) t))" "list_all (clean rules h2) gs"
    "nodes gs \<subseteq> nodes g1" "\<forall>q. q \<notin> nodes g1 \<longrightarrow> same_node h1 h2 q"
    using f by (auto simp: filtered_def)
  have "\<forall>q. q \<notin> nodes vs \<longrightarrow> same_node h h2 q" using s g(4) n same_node_trans by blast
  then show ?thesis unfolding filtered_def using g n at_at [OF t] by (metis subset_trans)
qed

lemma filtered_next:
  assumes t: "p \<in> set (ptrs t)" "distinct (ptrs t)"
    and f: "filtered rules h1 par (at p (\<lambda>_. us @ x' # vs) t) p (us @ [x']) vs h2"
    and c: "clean rules h1 x'" and n: "set (ptrs x') \<subseteq> set (ptrs x)" "set (ptrs x') \<inter> nodes vs = {}"
    and s: "\<forall>q. q \<notin> set (ptrs x) \<longrightarrow> same_node h h1 q"
  shows "filtered rules h par t p us (x # vs) h2"
proof -
  obtain gs where g: "represents h2 par (at p (\<lambda>_. (us @ [x']) @ gs) (at p (\<lambda>_. us @ x' # vs) t))"
    "list_all (clean rules h2) gs" "nodes gs \<subseteq> nodes vs" "\<forall>q. q \<notin> nodes vs \<longrightarrow> same_node h1 h2 q"
    using f by (auto simp: filtered_def)
  have "clean rules h2 x' = clean rules h1 x'" using n(2) g(4) by (intro clean_frame) blast
  then have cl: "list_all (clean rules h2) (x' # gs)" using c g(2) by simp
  have r: "represents h2 par (at p (\<lambda>_. us @ x' # gs) t)" using g(1) at_at [OF t] by simp
  have "same_node h h2 q" if "q \<notin> nodes (x # vs)" for q
    using that s g(4) same_node_trans [of h h1 q h2] by auto
  moreover have "nodes (x' # gs) \<subseteq> nodes (x # vs)" using n(1) g(3) by auto
  ultimately show ?thesis unfolding filtered_def using cl r by blast
qed

text \<open>The place of a child in its parent's list.\<close>

lemma child_place:
  assumes t: "represents h par t" "p \<in> set (ptrs t)" "sub p t = us @ x # vs"
  shows "nth_opt (kids h p) (length us) = Some (proot x)" "parentNode (h ! proot x) = Some p"
    "getIndex h (proot x) = Inr (int (length us))" "proot x \<noteq> p"
proof -
  have d: "distinct (ptrs t)" using t(1) by (simp add: represents_def)
  have sd: "distinct (p # concat (map ptrs (us @ x # vs)))" using sub_distinct [OF t(2) d] t(3) by simp
  have k: "kids h p = map proot (us @ x # vs)" "list_all (rep h (Some p)) (us @ x # vs)"
    using rep_sub [OF t(2) d, of h par] t by (auto simp: represents_def)
  then have c: "children (h ! p) = Some (map proot (us @ x # vs))" by (auto split: option.splits)
  show "nth_opt (kids h p) (length us) = Some (proot x)" by (simp add: k nth_append)
  show pn: "parentNode (h ! proot x) = Some p" using k(2) by (auto intro: rep_parent)
  show "getIndex h (proot x) = Inr (int (length us))"
    using index_of_proot [of us x vs] sd c pn by (simp add: getIndex_def parent_kids_def)
  show "proot x \<noteq> p" using sd proot_in_ptrs [of x] by (auto simp del: proot_in_ptrs)
qed

lemma removeChild_keep_parent:
  assumes t: "represents h par t" "p \<in> set (ptrs t)" "sub p t = us @ x # vs"
  shows "parentNode (fst (removeChild p (proot x) True h) ! proot x) = None"
    and "\<forall>q. q \<notin> set (ptrs x) \<longrightarrow> same_node h (fst (removeChild p (proot x) True h)) q"
proof -
  have d: "distinct (ptrs t)" using t(1) by (simp add: represents_def)
  have sd: "distinct (p # concat (map ptrs (us @ x # vs)))" using sub_distinct [OF t(2) d] t(3) by simp
  have k: "kids h p = map proot (us @ x # vs)" "rep h (Some p) x"
    using rep_sub [OF t(2) d, of h par] t by (auto simp: represents_def)
  then have c: "children (h ! p) = Some (map proot (us @ x # vs))" by (auto split: option.splits)
  obtain n ns where x: "x = PT n ns" by (cases x)
  have np: "n \<noteq> p" "n < length h" and kn: "kids h n = map proot ns" using k(2) sd by (auto simp: x)
  have nk: "n \<notin> set (map proot ns)" using sd proot_in_ptrs by (fastforce simp: x)
  let ?h = "set_parent n None (set_children p (map proot (us @ vs)) h)"
  have e: "fst (removeChild p n True h) = keep_children p (length us) (map proot ns) ?h"
    using c index_of_proot [of us x vs] sd kn np
    by (simp add: removeChild_def splice_at_def Let_def x link_simps)
  have "same_node ?h (fst (removeChild p n True h)) n"
    unfolding e keep_children_def using nk by (rule keep_children_same)
  then show "parentNode (fst (removeChild p (proot x) True h) ! proot x) = None"
    using np by (simp add: same_node_def link_simps x)
  have "q \<notin> set (kids h n)" if "q \<notin> set (ptrs x)" for q
    using that kn proot_in_ptrs by (fastforce simp: x)
  then show "\<forall>q. q \<notin> set (ptrs x) \<longrightarrow> same_node h (fst (removeChild p (proot x) True h)) q"
    using removeChild_keep_same [of _ n h p] np by (auto simp: x)
qed

lemma upd_attrs_rep:
  "represents h par t \<Longrightarrow> represents (upd n (keep_attrs sp) h) par t"
  unfolding represents_def
proof (elim conjE, intro conjI)
  assume r: "rep h par t"
  have "children (keep_attrs sp m) = children m" "parentNode (keep_attrs sp m) = parentNode m" for m
    by (auto simp: keep_attrs_def split: option.splits)
  then have "same_links h (upd n (keep_attrs sp) h) q" for q
    by (cases "n < length h") (auto simp: same_links_def upd_def nth_list_update list_update_beyond)
  then show "rep (upd n (keep_attrs sp) h) par t" using rep_frame [OF r] by blast
qed

lemma no_functions_get: "no_functions rules \<Longrightarrow> obj_get rules k \<noteq> Some (RFun f)"
  by (auto simp: no_functions_def list_all_iff dest!: map_of_SomeD)

lemma card_nodes_less:
  assumes "distinct (concat (map ptrs (us @ x # vs)))" "nodes gs \<subseteq> nodes (us @ x # vs)" "proot x \<notin> nodes gs"
  shows "card (nodes gs) < card (nodes (us @ x # vs))"
proof (rule psubset_card_mono)
  show "nodes gs \<subset> nodes (us @ x # vs)" using assms(2,3) proot_in_ptrs [of x] by (auto simp del: proot_in_ptrs)
qed simp

lemma loop_delete:
  assumes t: "represents h par t" "p \<in> set (ptrs t)" "sub p t = us @ x # vs"
    and del: "filterNode k rules (proot x) h = delete_node (proot x) h"
    and IH: "\<And>h t. represents h par t \<Longrightarrow> p \<in> set (ptrs t) \<Longrightarrow> sub p t = us @ vs \<Longrightarrow>
      \<exists>k h'. filter_from k rules p (length us) h = Inr h' \<and> filtered rules h par t p us vs h'"
  shows "\<exists>k h'. filter_from k rules p (length us) h = Inr h' \<and> filtered rules h par t p us (x # vs) h'"
proof -
  note pl = child_place [OF t] and rm = removeChild_rep [OF t]
  have d: "distinct (ptrs t)" using t(1) by (simp add: represents_def)
  let ?h = "fst (removeChild p (proot x) False h)" and ?t = "at p (\<lambda>_. us @ vs) t"
  have "p \<in> set (ptrs ?t)" "sub p ?t = us @ vs" using t(2) d by (auto simp: in_ptrs_at sub_at)
  from IH [OF rm(2) this] obtain l h' where
    l: "filter_from l rules p (length us) ?h = Inr h'" "filtered rules ?h par ?t p us vs h'" by blast
  have "parentNode (?h ! proot x) = None" using rm(3) rep_parent by (auto simp: represents_def)
  moreover have "filterNode k rules (proot x) h = Inr ?h" using del pl(2) by (simp add: delete_node_def)
  ultimately obtain m where "filter_from m rules p (length us) h = Inr h'"
    using filter_from_step [OF pl(1), of k rules ?h l h'] l(1) by auto
  moreover have "filtered rules h par t p us (x # vs) h'"
    by (rule filtered_after [OF t(2) d l(2)]) (auto intro!: removeChild_same)
  ultimately show ?thesis by blast
qed

lemma loop_keep:
  assumes t: "represents h par t" "p \<in> set (ptrs t)" "sub p t = us @ x # vs"
    and one: "filterNode k rules (proot x) h = Inr h1"
    and r1: "represents h1 par (at p (\<lambda>_. us @ x' # vs) t)" and x': "proot x' = proot x" "clean rules h1 x'"
    and n: "set (ptrs x') \<subseteq> set (ptrs x)" and s: "\<forall>q. q \<notin> set (ptrs x) \<longrightarrow> same_node h h1 q"
    and IH: "\<And>h t. represents h par t \<Longrightarrow> p \<in> set (ptrs t) \<Longrightarrow> sub p t = (us @ [x']) @ vs \<Longrightarrow>
      \<exists>k h'. filter_from k rules p (length (us @ [x'])) h = Inr h' \<and> filtered rules h par t p (us @ [x']) vs h'"
  shows "\<exists>k h'. filter_from k rules p (length us) h = Inr h' \<and> filtered rules h par t p us (x # vs) h'"
proof -
  note pl = child_place [OF t]
  have d: "distinct (ptrs t)" using t(1) by (simp add: represents_def)
  have sd: "distinct (p # concat (map ptrs (us @ x # vs)))" using sub_distinct [OF t(2) d] t(3) by simp
  let ?t = "at p (\<lambda>_. us @ x' # vs) t"
  have p: "p \<in> set (ptrs ?t)" "sub p ?t = us @ x' # vs" using t(2) d by (auto simp: in_ptrs_at sub_at)
  from IH [OF r1 p(1)] p(2) obtain l h' where
    l: "filter_from l rules p (Suc (length us)) h1 = Inr h'" "filtered rules h1 par ?t p (us @ [x']) vs h'" by auto
  have "parentNode (h1 ! proot x) = Some p" using child_place(2) [OF r1 p] x'(1) by simp
  then obtain m where "filter_from m rules p (length us) h = Inr h'"
    using filter_from_step [OF pl(1) one, of l h'] l(1) by auto
  moreover have "set (ptrs x') \<inter> nodes vs = {}" using n sd by auto
  then have "filtered rules h par t p us (x # vs) h'" using filtered_next [OF t(2) d l(2) x'(2) n _ s] by blast
  ultimately show ?thesis by blast
qed

text \<open>
  The loop in the order of its two measures: the number of nodes below \<open>p\<close>, then the
  number of children still to visit. Each way a child can be treated is one of the cases.
\<close>

lemma loop_attrs:
  assumes t: "represents h par t" "p \<in> set (ptrs t)" "sub p t = us @ x # vs"
    and ty: "ntype (h ! proot x) = Element" "obj_get rules (tagName (h ! proot x)) = Some (RObj sp)"
    and below: "\<And>h. represents h par t \<Longrightarrow>
      \<exists>k h'. filter_from k rules (proot x) 0 h = Inr h' \<and> filtered rules h par t (proot x) [] (subs x) h'"
  obtains k h1 x' where "filterNode k rules (proot x) h = Inr h1" "represents h1 par (at p (\<lambda>_. us @ x' # vs) t)"
    "proot x' = proot x" "clean rules h1 x'" "set (ptrs x') \<subseteq> set (ptrs x)"
    "\<forall>q. q \<notin> set (ptrs x) \<longrightarrow> same_node h h1 q"
proof -
  obtain n ns where x: "x = PT n ns" by (cases x)
  have d: "distinct (ptrs t)" using t(1) by (simp add: represents_def)
  have sd: "distinct (p # concat (map ptrs (us @ x # vs)))" using sub_distinct [OF t(2) d] t(3) by simp
  let ?h = "upd n (keep_attrs sp) h"
  from below [OF upd_attrs_rep [OF t(1), of n sp]] obtain k h1 where
    k: "filter_from k rules n 0 ?h = Inr h1" "filtered rules ?h par t n [] ns h1" by (auto simp: x)
  obtain gs where g: "represents h1 par (at n (\<lambda>_. gs) t)" "list_all (clean rules h1) gs" "nodes gs \<subseteq> nodes ns"
    "\<forall>q. q \<notin> nodes ns \<longrightarrow> same_node ?h h1 q" using k(2) by (auto simp: filtered_def)
  have at: "at n (\<lambda>_. gs) t = at p (\<lambda>_. us @ PT n gs # vs) t" "n \<in> set (ptrs t)"
    using sub_child [OF t(2) d t(3), of gs] by (auto simp: x)
  have nl: "n < length h" using rep_bound t(1) at(2) by (auto simp: represents_def)
  have ka: "ntype (keep_attrs sp m) = ntype m" "tagName (keep_attrs sp m) = tagName m" for m
    by (auto simp: keep_attrs_def split: option.splits)
  have "same_node ?h h1 n" using g(4) sd by (auto simp: x)
  then have "ntype (h1 ! n) = Element" "tagName (h1 ! n) = tagName (h ! n)" "attrs (h1 ! n) = attrs (keep_attrs sp (h ! n))"
    using ty nl ka by (auto simp: same_node_def upd_def x)
  then have "clean rules h1 (PT n gs)"
    using g(2) ty keep_attrs_allowed [of sp "h ! n"] by (simp add: x attrs_allowed_def)
  moreover have "filterNode (Suc k) rules n h = Inr h1" using k(1) ty by (simp add: filterNode.simps(2) x)
  moreover have "same_node h h1 q" if "q \<notin> set (ptrs x)" for q
  proof -
    have "same_node h ?h q" using that nl by (auto simp: same_node_def upd_def x)
    then show ?thesis using g(4) that same_node_trans by (auto simp: x)
  qed
  ultimately show thesis using that [of "Suc k" h1 "PT n gs"] g(1,3) at(1) by (auto simp: x)
qed

lemma loop_unwrap:
  assumes t: "represents h par t" "p \<in> set (ptrs t)" "sub p t = us @ x # vs"
    and ty: "ntype (h ! proot x) = Element" "obj_get rules (tagName (h ! proot x)) = None"
      "\<not> dtd_has dtd_c_cdata (tagName (h ! proot x))"
    and IH: "\<And>h t vs'. represents h par t \<Longrightarrow> p \<in> set (ptrs t) \<Longrightarrow> sub p t = us @ vs' \<Longrightarrow>
      nodes vs' \<subseteq> nodes (x # vs) - {proot x} \<Longrightarrow>
      \<exists>k h'. filter_from k rules p (length us) h = Inr h' \<and> filtered rules h par t p us vs' h'"
  shows "\<exists>k h'. filter_from k rules p (length us) h = Inr h' \<and> filtered rules h par t p us (x # vs) h'"
proof -
  note pl = child_place [OF t] and rk = removeChild_keep_parent [OF t]
  have d: "distinct (ptrs t)" using t(1) by (simp add: represents_def)
  obtain n ns where x: "x = PT n ns" by (cases x)
  have sd: "distinct (p # concat (map ptrs (us @ x # vs)))" using sub_distinct [OF t(2) d] t(3) by simp
  have px: "n \<notin> nodes (ns @ vs)" using sd by (auto simp: x)
  let ?h = "fst (removeChild p (proot x) True h)" and ?t = "at p (\<lambda>_. us @ ns @ vs) t"
  have r1: "represents ?h par ?t" using removeChild_keep_rep [OF t] by (simp add: x)
  have in1: "p \<in> set (ptrs ?t)" "sub p ?t = us @ ns @ vs" using t(2) d by (auto simp: in_ptrs_at sub_at)
  from IH [OF r1 in1] px obtain k h1 where
    k: "filter_from k rules p (length us) ?h = Inr h1" "filtered rules ?h par ?t p us (ns @ vs) h1" by (auto simp: x)
  have f1: "filtered rules h par t p us (x # vs) h1"
    by (rule filtered_after [OF t(2) d k(2)]) (use rk(2) in \<open>auto simp: x\<close>)
  obtain gs where g: "represents h1 par (at p (\<lambda>_. us @ gs) ?t)" "nodes gs \<subseteq> nodes (ns @ vs)"
    "\<forall>q. q \<notin> nodes (ns @ vs) \<longrightarrow> same_node ?h h1 q" using k(2) by (auto simp: filtered_def)
  have r2: "represents h1 par (at p (\<lambda>_. us @ gs) t)" using g(1) at_at [OF t(2) d] by simp
  have in2: "p \<in> set (ptrs (at p (\<lambda>_. us @ gs) t))" "sub p (at p (\<lambda>_. us @ gs) t) = us @ gs"
    using t(2) d by (auto simp: in_ptrs_at sub_at)
  have gn: "nodes gs \<subseteq> nodes (x # vs) - {proot x}" using g(2) px by (auto simp: x)
  from IH [OF r2 in2 gn] obtain l h2 where
    l: "filter_from l rules p (length us) h1 = Inr h2" "filtered rules h1 par (at p (\<lambda>_. us @ gs) t) p us gs h2" by blast
  have "parentNode (h1 ! proot x) = None" using g(3) px rk(1) by (auto simp: same_node_def x)
  moreover have "filterNode (Suc k) rules (proot x) h = Inr h1"
    using ty pl(2,3) k(1) by (simp add: filterNode.simps(2))
  ultimately obtain m where "filter_from m rules p (length us) h = Inr h2"
    using filter_from_step [OF pl(1), of "Suc k" rules h1 l h2] l(1) by auto
  moreover have "\<forall>q. q \<notin> nodes (x # vs) \<longrightarrow> same_node h h1 q" using f1 by (auto simp: filtered_def)
  then have "filtered rules h par t p us (x # vs) h2"
    using filtered_after [OF t(2) d l(2), of "x # vs" h] gn by blast
  ultimately show ?thesis by blast
qed

lemma loop_total:
  assumes nf: "no_functions rules"
  shows "represents h par t \<Longrightarrow> p \<in> set (ptrs t) \<Longrightarrow> sub p t = us @ vs \<Longrightarrow> card (nodes (us @ vs)) \<le> N \<Longrightarrow>
    \<exists>k h'. filter_from k rules p (length us) h = Inr h' \<and> filtered rules h par t p us vs h'"
proof (induction N arbitrary: h t p us vs rule: less_induct)
  case (less N)
  show ?case using less.prems
  proof (induction vs arbitrary: h t us)
    case Nil
    have none: "nth_opt (kids h p) (length us) = None"
      using rep_sub [OF Nil(2), of h par] Nil by (simp add: represents_def)
    have "filter_from (Suc 0) rules p (length us) h = Inr h" by (simp add: filter_from.simps(2) none)
    moreover have "filtered rules h par t p us [] h"
      unfolding filtered_def using Nil at_same [of p t] by (auto simp: represents_def intro!: exI [of _ "[]"])
    ultimately show ?case by blast
  next
    case (Cons x vs)
    note t = Cons.prems(1-3) and pl = child_place [OF Cons.prems(1-3)]
    have d: "distinct (ptrs t)" using t(1) by (simp add: represents_def)
    have sd: "distinct (p # concat (map ptrs (us @ x # vs)))" using sub_distinct [OF t(2) d] t(3) by simp
    have smaller: "card (nodes (us @ gs)) < N" if "nodes gs \<subseteq> nodes (x # vs) - {proot x}" for gs
    proof -
      have "proot x \<notin> nodes us" using sd proot_in_ptrs [of x] by (auto simp del: proot_in_ptrs)
      then have "card (nodes (us @ gs)) < card (nodes (us @ x # vs))"
        using sd that by (intro card_nodes_less) auto
      then show ?thesis using Cons.prems(4) by simp
    qed
    have IH: "\<exists>k h'. filter_from k rules p (length us) h = Inr h' \<and> filtered rules h par t p us gs h'"
      if "represents h par t" "p \<in> set (ptrs t)" "sub p t = us @ gs" "nodes gs \<subseteq> nodes (x # vs) - {proot x}" for h t gs
      using less.IH [OF smaller [OF that(4)] that(1-3)] by simp
    have sub_vs: "nodes vs \<subseteq> nodes (x # vs) - {proot x}" using sd proot_in_ptrs [of x] by (auto simp del: proot_in_ptrs)
    have del: "\<exists>k h'. filter_from k rules p (length us) h = Inr h' \<and> filtered rules h par t p us (x # vs) h'"
      if "filterNode (Suc 0) rules (proot x) h = delete_node (proot x) h"
      using loop_delete [OF t that] IH [OF _ _ _ sub_vs] by blast
    have keep: "\<exists>k h'. filter_from k rules p (length us) h = Inr h' \<and> filtered rules h par t p us (x # vs) h'"
      if "filterNode k rules (proot x) h = Inr h1" "represents h1 par (at p (\<lambda>_. us @ x' # vs) t)"
        "proot x' = proot x" "clean rules h1 x'" "set (ptrs x') \<subseteq> set (ptrs x)"
        "\<forall>q. q \<notin> set (ptrs x) \<longrightarrow> same_node h h1 q" for k h1 x'
    proof (rule loop_keep [OF t that])
      fix h t assume a: "represents h par t" "p \<in> set (ptrs t)" "sub p t = (us @ [x']) @ vs"
      have "card (nodes ((us @ [x']) @ vs)) \<le> card (nodes (us @ x # vs))"
        using that(5) by (intro card_mono) auto
      then show "\<exists>k h'. filter_from k rules p (length (us @ [x'])) h = Inr h' \<and> filtered rules h par t p (us @ [x']) vs h'"
        using Cons.IH [OF a] Cons.prems(4) by simp
    qed
    have xt: "at p (\<lambda>_. us @ x # vs) t = t" using at_same [OF t(2) d] t(3) by simp
    have plain: ?case if "filterNode (Suc 0) rules (proot x) h = Inr h" "clean rules h x"
      using keep [OF that(1), of x] that(2) t(1) by (simp add: xt)
    show ?case
    proof (cases "ntype (h ! proot x)")
      case Element
      show ?thesis
      proof (cases "obj_get rules (tagName (h ! proot x))")
        case None
        show ?thesis
        proof (cases "dtd_has dtd_c_cdata (tagName (h ! proot x))")
          case True
          then show ?thesis using Element None by (intro del) (simp add: filterNode.simps(2))
        next
          case False
          then show ?thesis using loop_unwrap [OF t Element None False] IH by blast
        qed
      next
        case (Some r)
        show ?thesis
        proof (cases r)
          case RDel
          then show ?thesis using Element Some by (intro del) (simp add: filterNode.simps(2))
        next
          case (RFun f)
          then show ?thesis using Some no_functions_get [OF nf] by blast
        next
          case (RObj sp)
          have "\<exists>k h'. filter_from k rules (proot x) 0 h = Inr h' \<and> filtered rules h par t (proot x) [] (subs x) h'"
            if "represents h par t" for h
          proof -
            have "card (nodes (subs x)) < card (nodes (us @ x # vs))"
              using sd by (intro card_nodes_less) (cases x; auto)+
            then show ?thesis
              using less.IH [of "card (nodes (subs x))" h t "proot x" "[]" "subs x"] that Cons.prems(4)
                sub_child [OF t(2) d t(3)] by simp
          qed
          from loop_attrs [OF t Element Some [unfolded RObj] this] show ?thesis using keep by blast
        qed
      qed
    next
      case Comment
      then show ?thesis by (intro del) (simp add: filterNode.simps(2))
    qed (use plain in \<open>cases x, simp add: filterNode.simps(2)\<close>)+
  qed
qed

subsection \<open>What the filter never changes\<close>

definition static :: "store \<Rightarrow> store \<Rightarrow> bool" where
  "static h h' \<longleftrightarrow> length h' = length h \<and> (\<forall>q. ntype (h' ! q) = ntype (h ! q) \<and> data (h' ! q) = data (h ! q) \<and>
     (children (h ! q) \<noteq> None \<longrightarrow> children (h' ! q) \<noteq> None))"

lemma static_refl [simp]: "static h h"
  by (simp add: static_def)

lemma static_trans: "static h h1 \<Longrightarrow> static h1 h2 \<Longrightarrow> static h h2"
  by (simp add: static_def)

lemma static_links: "static h (set_children p cs h)" "static h (set_parent p x h)"
  by (auto simp: static_def link_simps)

lemma static_keep: "static h (keep_children p i cs h)"
proof -
  have "static h (foldl (\<lambda>h (j, cj). set_parent cj (Some p) (set_children p (splice_at (i + j) 0 [cj] (kids h p)) h)) h xs)" for xs
  proof (induction xs arbitrary: h)
    case (Cons x xs)
    obtain j c where x: "x = (j, c)" by (cases x)
    have "static h (set_parent c (Some p) (set_children p (splice_at (i + j) 0 [c] (kids h p)) h))"
      using static_links static_trans by metis
    then show ?case using Cons static_trans by (fastforce simp: x)
  qed simp
  then show ?thesis by (simp add: keep_children_def)
qed

lemma static_removeChild: "static h (fst (removeChild p n b h))"
  using static_links static_keep static_trans
  by (auto simp: removeChild_def Let_def split: option.splits) (metis static_links static_keep static_trans)+

lemma static_attrs: "static h (upd n (keep_attrs sp) h)"
  by (cases "n < length h")
    (auto simp: static_def upd_def keep_attrs_def nth_list_update list_update_beyond split: option.splits)

lemma filter_static:
  assumes nf: "no_functions rules"
  shows "(filterNode k rules n h = Inr h' \<longrightarrow> static h h') \<and> (filter_from k rules p i h = Inr h' \<longrightarrow> static h h')"
proof (induction k arbitrary: n h h' p i)
  case (Suc k)
  have "static h h'" if "filterNode (Suc k) rules n h = Inr h'" for n h h'
    using that Suc.IH no_functions_get [OF nf] static_removeChild static_attrs
    by (auto simp: filterNode.simps Let_def bind_res_def delete_node_def
        split: node_type.splits option.splits rule.splits if_splits sum.splits)
      (metis static_trans static_removeChild static_attrs)+
  moreover have "static h h'" if "filter_from (Suc k) rules p i h = Inr h'" for h h' p i
    using that Suc.IH by (auto simp: filter_from.simps bind_res_def split: option.splits sum.splits)
      (metis static_trans)+
  ultimately show ?case by blast
qed simp

lemma no_functions_dels: "no_functions rules \<Longrightarrow> no_functions (del_rules dels rules)"
proof -
  have set: "no_functions r \<Longrightarrow> no_functions (obj_set k RDel r)" for k r
    by (induction r) (auto simp: no_functions_def)
  have "no_functions r \<Longrightarrow> no_functions (foldl (\<lambda>r k. obj_set k RDel r) r ks)" for ks r
    by (induction ks arbitrary: r) (auto intro: set)
  then show "no_functions rules \<Longrightarrow> no_functions (del_rules dels rules)"
    by (auto simp: del_rules_def split: option.splits list.splits)
qed

lemma filter_root_total:
  assumes t: "represents h None t" and nf: "no_functions rules" and ne: "dels \<noteq> None \<or> rules \<noteq> []"
  obtains k h' gs where "\<forall>k'. k \<le> k' \<longrightarrow> filter_root k' dels rules (proot t) h = Inr h'"
    "represents h' None (PT (proot t) gs)" "list_all (clean (del_rules dels rules) h') gs"
    "nodes gs \<subseteq> set (ptrs t)" "static h h'"
proof -
  obtain r ts where tt: "t = PT r ts" by (cases t)
  note nf' = no_functions_dels [OF nf, of dels]
  have "sub r t = [] @ ts" by (simp add: tt here_simps)
  from loop_total [OF nf' t _ this order_refl] obtain k h' where
    k: "filter_from k (del_rules dels rules) r 0 h = Inr h'" "filtered (del_rules dels rules) h None t r [] ts h'"
    by (auto simp: tt)
  obtain gs where g: "represents h' None (at r (\<lambda>_. gs) t)" "list_all (clean (del_rules dels rules) h') gs" "nodes gs \<subseteq> nodes ts"
    using k(2) by (auto simp: filtered_def)
  have "filter_root k' dels rules r h = Inr h'" if "k \<le> k'" for k'
    using ne filter_mono [THEN conjunct2, rule_format, OF k(1) that] by (auto simp: filter_root_def)
  moreover have "static h h'" using filter_static [OF nf'] k(1) by blast
  ultimately show thesis using that [of k h' gs] g by (auto simp: tt here_simps)
qed

subsection \<open>Properties\<close>

text \<open>C3. With rules that contain no function the filter ends, whatever the tree, and leaves a
  consistent tree in which every element has a rule that keeps it and only attributes its
  rule names, and in which there is no comment. A larger bound gives the same result.\<close>

theorem filter_whitelists:
  assumes "represents h None t" "no_functions rules" "dels \<noteq> None \<or> rules \<noteq> []"
  shows "\<exists>k h' gs. (\<forall>k'. k \<le> k' \<longrightarrow> filter_root k' dels rules (proot t) h = Inr h') \<and>
    represents h' None (PT (proot t) gs) \<and> list_all (clean (del_rules dels rules) h') gs"
proof -
  obtain k h' gs where "\<forall>k'. k \<le> k' \<longrightarrow> filter_root k' dels rules (proot t) h = Inr h'"
    "represents h' None (PT (proot t) gs)" "list_all (clean (del_rules dels rules) h') gs"
    by (rule filter_root_total [OF assms]) blast
  then show ?thesis by blast
qed

text \<open>Rules that keep paragraphs with their class and delete line breaks.\<close>

definition demo_rules :: "rule jsobj" where
  "demo_rules = [(''p'', RObj (Some [(''class'', None)]))]"

theorem filter_whitelists_witness:
  "\<exists>k h' gs. (\<forall>k'. k \<le> k' \<longrightarrow> filter_root k' (Some ''br'') demo_rules (proot demo_tree) demo_store = Inr h') \<and>
    represents h' None (PT (proot demo_tree) gs) \<and> list_all (clean (del_rules (Some ''br'') demo_rules) h') gs"
  by (rule filter_whitelists [OF demo_represents(1)]) (simp_all add: no_functions_def demo_rules_def)

end
