(* ===== verification/Escaping.thy ===== *)
theory Escaping
  imports Utils
begin

text \<open>
  The escaping functions \<open>unhtml\<close> and \<open>html\<close> of \<open>core/utils.js\<close>. Their regular expressions
  are read character by character (\<open>unh\<close>, \<open>htm\<close>), the readings are proved equal to the
  replace calls, and the properties follow: unescaping undoes escaping, escaping is
  idempotent, what escaping guarantees, and the inputs on which it escapes nothing.
\<close>

subsection \<open>Escaping: a character-by-character reading of the regular expressions\<close>

text \<open>
  \<open>ent\<close> is the entity name that the optional group of \<open>unhtml_re\<close> finds after a special
  character: the text up to the next semicolon, if it is one of the names.
\<close>

definition named_entities :: "string list" where
  "named_entities = [''amp'', ''lt'', ''quot'', ''gt'', ''#39'', ''nbsp'']"

definition num_ent :: "string \<Rightarrow> bool" where
  "num_ent n \<longleftrightarrow> (case n of c # d \<Rightarrow> c = CHR ''#'' \<and> d \<noteq> [] \<and> list_all is_digit d | [] \<Rightarrow> False)"

definition is_ent :: "string \<Rightarrow> bool" where
  "is_ent n \<longleftrightarrow> n \<in> set named_entities \<or> num_ent n"

definition ent :: "(string \<Rightarrow> bool) \<Rightarrow> string \<Rightarrow> string option" where
  "ent P s = (let n = takeWhile (\<lambda>c. c \<noteq> CHR '';'') s
              in if n \<noteq> s \<and> P n then Some n else None)"

lemma takeWhile_semi: "CHR '';'' \<notin> set n \<Longrightarrow> takeWhile (\<lambda>c. c \<noteq> CHR '';'') (n @ CHR '';'' # t) = n"
  by (induction n) auto

lemma semi_unique:
  "n @ CHR '';'' # t = w @ CHR '';'' # u \<Longrightarrow> CHR '';'' \<notin> set n \<Longrightarrow> CHR '';'' \<notin> set w \<Longrightarrow> n = w"
  by (metis takeWhile_semi)

lemma semi_cases:
  obtains (none) "CHR '';'' \<notin> set s" | (semi) n t where "s = n @ CHR '';'' # t" "CHR '';'' \<notin> set n"
  by (metis split_list_first)

lemma ent_append [simp]:
  "CHR '';'' \<notin> set n \<Longrightarrow> ent P (n @ CHR '';'' # t) = (if P n then Some n else None)"
  by (auto simp: ent_def takeWhile_semi Let_def)

lemma ent_no_semi [simp]: "CHR '';'' \<notin> set s \<Longrightarrow> ent P s = None"
  by (auto simp: ent_def Let_def takeWhile_eq_all_conv)

lemma named_entities_no_semi: "n \<in> set named_entities \<Longrightarrow> CHR '';'' \<notin> set n"
  by (auto simp: named_entities_def)

lemma is_digit_semi [simp]: "\<not> is_digit CHR '';''"
  by (simp add: is_digit_def code_def)

lemma m_Cap_Alt:
  "m (Seq (Cap k (Alt a c)) b) s = m (Seq (Cap k a) b) s @ m (Seq (Cap k c) b) s"
  by simp

lemma m_reads_semi:
  assumes r: "reads r w f" and w: "CHR '';'' \<notin> set w" and n: "CHR '';'' \<notin> set n"
  shows "m (Seq r (chr CHR '';'')) (pre, n @ CHR '';'' # t, cs) =
    (if n = w then [(rev (w @ '';'') @ pre, t, f cs)] else [])"
proof (cases "take (length w) (n @ CHR '';'' # t) = w")
  case True
  then obtain u where u: "n @ CHR '';'' # t = w @ u" by (metis append_take_drop_id)
  show ?thesis
  proof (cases u)
    case Nil
    with u w show ?thesis by (metis append_Nil2 in_set_conv_decomp)
  next
    case (Cons x xs)
    have "x = CHR '';'' \<longleftrightarrow> n = w"
    proof
      assume "x = CHR '';''"
      with u Cons n w show "n = w" by (blast intro: semi_unique)
    next
      assume "n = w"
      with u Cons show "x = CHR '';''" by simp
    qed
    with u Cons True show ?thesis using r by (auto simp: reads_def m_chr)
  qed
next
  case False
  with r show ?thesis by (auto simp: reads_def)
qed

lemma m_semi_none:
  assumes "CHR '';'' \<notin> set s"
  shows "m (Seq r (chr CHR '';'')) (pre, s, cs) = []"
proof -
  have "False" if "t \<in> set (m (Seq r (chr CHR '';'')) (pre, s, cs))" for t
  proof -
    from that obtain u where u: "u \<in> set (m r (pre, s, cs))" "t \<in> set (m (chr CHR '';'') u)"
      by (rule m_SeqE)
    from m_extends [OF u(1)] have "set (st_rest u) \<subseteq> set s" by (auto simp: extends_def)
    moreover from u(2) have "CHR '';'' \<in> set (st_rest u)"
      by (cases u) (auto simp: m_chr split: list.splits if_splits)
    ultimately show False using assms by blast
  qed
  then show ?thesis by (metis list.set_intros(1) neq_Nil_conv)
qed

lemmas m_lit_semi = m_reads_semi [OF reads_Cap [OF reads_lit]]

text \<open>The numeric alternative \<open>#\d+\<close>.\<close>

lemma m_digits_semi:
  "concat (map (m (chr CHR '';'') \<circ> set_cap k r0) (m (Star True digit) (pre, s, cs))) =
     (let d = takeWhile is_digit s in
      case dropWhile is_digit s of
        x # t \<Rightarrow> if x = CHR '';''
                 then [(x # rev d @ pre, t, (k, take (length r0 - Suc (length t)) r0) # cs)] else []
      | [] \<Rightarrow> [])"
  (is "?L = ?R")
proof -
  let ?n = "length (takeWhile is_digit s)"
  have tk: "take ?n s = takeWhile is_digit s" by (metis takeWhile_eq_take)
  have ms: "m (Star True digit) (pre, s, cs) = (rev (takeWhile is_digit s) @ pre, dropWhile is_digit s, cs) #
      map (\<lambda>j. (rev (take j s) @ pre, drop j s, cs)) (rev [0..<?n])"
    by (simp add: digit_def m_many_cls tk dropWhile_eq_drop)
  have small: "m (chr CHR '';'') (set_cap k r0 (rev (take j s) @ pre, drop j s, cs)) = []"
    if "j < ?n" for j
  proof -
    have "is_digit (s ! j)" using that by (metis nth_mem set_takeWhileD takeWhile_nth)
    moreover have "drop j s = s ! j # drop (Suc j) s"
      using that length_takeWhile_le [of is_digit s] by (simp add: Cons_nth_drop_Suc)
    ultimately show ?thesis by (auto simp: m_chr set_cap_def)
  qed
  have "concat (map (m (chr CHR '';'') \<circ> set_cap k r0)
      (map (\<lambda>j. (rev (take j s) @ pre, drop j s, cs)) (rev [0..<?n]))) = []"
    using small by auto
  then have L: "?L = m (chr CHR '';'') (set_cap k r0
      (rev (takeWhile is_digit s) @ pre, dropWhile is_digit s, cs))"
    by (simp only: ms list.map concat.simps comp_apply append_Nil2)
  show ?thesis
    unfolding L
    by (auto simp: Let_def m_chr set_cap_def split: list.split simp del: dropWhile_eq_Nil_conv)
qed

lemma m_num_semi:
  assumes "CHR '';'' \<notin> set n"
  shows "m (Seq (Cap k (Seq (chr CHR ''#'') (some digit))) (chr CHR '';'')) (pre, n @ CHR '';'' # t, cs) =
    (if num_ent n then [(rev (n @ '';'') @ pre, t, (k, n) # cs)] else [])"
proof (cases n)
  case Nil
  then show ?thesis by (simp add: m_chr num_ent_def)
next
  case (Cons x d)
  show ?thesis
  proof (cases "x = CHR ''#''")
    case False
    with Cons show ?thesis by (auto simp: m_chr num_ent_def)
  next
    case True
    let ?r = "n @ CHR '';'' # t"
    have rw: "m (Seq (Cap k (Seq (chr CHR ''#'') (some digit))) (chr CHR '';'')) (pre, ?r, cs) =
        (case d of y # e \<Rightarrow> if is_digit y
           then concat (map (m (chr CHR '';'') \<circ> set_cap k ?r)
                  (m (Star True digit) (y # x # pre, e @ CHR '';'' # t, cs))) else []
         | [] \<Rightarrow> [])"
      using True Cons by (cases d) (auto simp: m_chr some_def digit_def comp_def)
    show ?thesis
    proof (cases d)
      case Nil
      with rw \<open>n = x # d\<close> show ?thesis by (simp add: num_ent_def)
    next
      case (Cons y e)
      show ?thesis
      proof (cases "list_all is_digit d")
        case True
        then have "takeWhile is_digit (e @ CHR '';'' # t) = e" "dropWhile is_digit (e @ CHR '';'' # t) = CHR '';'' # t"
          using Cons by (auto simp: takeWhile_append2 dropWhile_append2 list_all_iff)
        with rw True Cons \<open>n = x # d\<close> \<open>x = CHR ''#''\<close> show ?thesis
          by (simp add: m_digits_semi Let_def num_ent_def)
      next
        case False
        show ?thesis
        proof (cases "list_all is_digit e")
          case True
          with False Cons rw \<open>n = x # d\<close> \<open>x = CHR ''#''\<close> show ?thesis by (simp add: num_ent_def)
        next
          case nd: False
          then obtain z zs where z: "dropWhile is_digit e = z # zs"
            by (metis dropWhile_eq_Nil_conv list.exhaust list_all_iff)
          then have "z \<in> set e" by (metis list.set_intros(1) set_dropWhileD)
          with assms Cons \<open>n = x # d\<close> have "z \<noteq> CHR '';''" by auto
          moreover have "dropWhile is_digit (e @ CHR '';'' # t) = z # zs @ CHR '';'' # t"
            using z nd by (auto simp: dropWhile_append list_all_iff)
          ultimately show ?thesis
            using False Cons rw \<open>n = x # d\<close> \<open>x = CHR ''#''\<close> by (simp add: m_digits_semi Let_def num_ent_def)
        qed
      qed
    qed
  qed
qed

lemma m_Cap_alts:
  "m (Seq (Cap k (alts (map lit ns @ [r]))) b) s =
     concat (map (\<lambda>w. m (Seq (Cap k (lit w)) b) s) ns) @ m (Seq (Cap k r) b) s"
proof (induction ns)
  case (Cons w ws)
  have "alts (map lit (w # ws) @ [r]) = Alt (lit w) (alts (map lit ws @ [r]))"
    by (cases ws) simp_all
  with Cons show ?case by (simp only: m_Cap_Alt list.map concat.simps append_assoc)
qed simp

lemma entity_name_alts:
  "entity_name = Cap 1 (alts (map lit named_entities @ [Seq (chr CHR ''#'') (some digit)]))"
  by (simp add: entity_name_def named_entities_def)

lemma entity_match:
  "case ent is_ent s of
     None \<Rightarrow> m entity_re (pre, s, cs) = []
   | Some n \<Rightarrow> \<exists>ts. m entity_re (pre, s, cs) =
       (rev (n @ '';'') @ pre, drop (Suc (length n)) s, (1, n) # cs) # ts"
proof (cases s rule: semi_cases)
  case none
  have "m entity_re (pre, s, cs) = []"
    unfolding entity_re_def by (rule m_semi_none [OF none])
  with none show ?thesis by simp
next
  case (semi n t)
  have "concat (map (\<lambda>w. m (Seq (Cap 1 (lit w)) (chr CHR '';'')) (pre, s, cs)) named_entities) =
     concat (map (\<lambda>w. if n = w then [(rev (w @ '';'') @ pre, t, (1, w) # cs)] else []) named_entities)"
    using m_lit_semi [OF named_entities_no_semi semi(2)] semi(1)
    by (intro arg_cong [of _ _ concat] map_cong refl) simp
  then have eq: "m entity_re (pre, s, cs) =
     concat (map (\<lambda>w. if n = w then [(rev (w @ '';'') @ pre, t, (1, w) # cs)] else []) named_entities)
     @ (if num_ent n then [(rev (n @ '';'') @ pre, t, (1, n) # cs)] else [])"
    unfolding entity_re_def entity_name_alts m_Cap_alts using m_num_semi [OF semi(2)] semi(1) by simp
  show ?thesis
    using semi unfolding eq by (auto simp: is_ent_def named_entities_def)
qed

definition special :: "char \<Rightarrow> bool" where
  "special c \<longleftrightarrow> c \<in> {CHR ''&'', CHR ''<'', quote, CHR ''>'', apos}"

definition esc_name :: "char \<Rightarrow> string" where
  "esc_name c = (if c = CHR ''<'' then ''lt'' else if c = CHR ''&'' then ''amp''
     else if c = quote then ''quot'' else if c = CHR ''>'' then ''gt'' else ''#39'')"

lemma ent_length: "ent P s = Some n \<Longrightarrow> length n < length s"
  by (cases s rule: semi_cases) (auto split: if_splits)

function unh :: "string \<Rightarrow> string" where
  "unh [] = []"
| "unh (c # s) =
     (if special c
      then (case ent is_ent s of
              Some n \<Rightarrow> c # n @ CHR '';'' # unh (drop (Suc (length n)) s)
            | None \<Rightarrow> CHR ''&'' # esc_name c @ CHR '';'' # unh s)
      else c # unh s)"
  by pat_completeness auto
termination by (relation "measure length") auto

lemma m_unhtml_re:
  "m unhtml_re (pre, c # s, cs) =
     (if special c
      then m entity_re (c # pre, s, cs) @ [(c # pre, s, cs)] else [])"
  by (simp add: unhtml_re_def special_def cls_def opt_def)

lemma replace_unhtml: "replace_all unhtml_re unhtml_repl pre s = unh s"
proof (induction s arbitrary: pre rule: unh.induct)
  case 1
  then show ?case by (simp add: replace_all_Nil unhtml_re_def cls_def)
next
  case (2 c s)
  show ?case
  proof (cases "special c")
    case False
    then show ?thesis using "2.IH"(3) by (simp add: replace_all_skip m_unhtml_re)
  next
    case sp: True
    show ?thesis
    proof (cases "ent is_ent s")
      case None
      with entity_match [where s = s and pre = "c # pre" and cs = "[]"]
      have m: "m unhtml_re (pre, c # s, []) = [(c # pre, s, [])]" using sp by (simp add: m_unhtml_re)
      have "unhtml_repl [c] [] = CHR ''&'' # esc_name c @ '';''"
        using sp by (auto simp: unhtml_repl_def cap_def unhtml_table_def esc_name_def special_def
            quote_def apos_def)
      then show ?thesis using sp None "2.IH"(1) [OF sp None]
        by (simp add: replace_all_here [OF m])
    next
      case (Some n)
      with entity_match [where s = s and pre = "c # pre" and cs = "[]"] obtain ts
        where m: "m unhtml_re (pre, c # s, []) =
          (rev (n @ '';'') @ c # pre, drop (Suc (length n)) s, [(1, n)]) # ts"
        using sp by (auto simp: m_unhtml_re)
      from Some have s: "s = n @ CHR '';'' # drop (Suc (length n)) s" and n: "n \<noteq> []"
        by (cases s rule: semi_cases, auto simp: is_ent_def named_entities_def num_ent_def split: if_splits)+
      have t: "take (Suc (length n)) s = n @ '';''" by (subst s) simp
      show ?thesis
        using sp Some "2.IH"(2) [OF sp Some] n ent_length [OF Some]
        by (simp add: replace_all_here [OF m] t unhtml_repl_def cap_def)
    qed
  qed
qed

lemma unhtml_unh: "unhtml s = unh s"
  by (simp add: unhtml_def unhtml_reg_def replace_def replace_unhtml)

function htm :: "string \<Rightarrow> string" where
  "htm [] = []"
| "htm (c # s) =
     (if c = CHR ''&''
      then (case ent (\<lambda>n. n \<in> set named_entities) s of
              Some n \<Rightarrow> the (map_of html_table (CHR ''&'' # n @ '';'')) @ htm (drop (Suc (length n)) s)
            | None \<Rightarrow> c # htm s)
      else c # htm s)"
  by pat_completeness auto
termination by (relation "measure length") auto

lemma m_Cap_Seq_Alt:
  "m (Seq (Cap k (Seq (Cap l (Alt a b)) c)) d) s =
     m (Seq (Cap k (Seq (Cap l a) c)) d) s @ m (Seq (Cap k (Seq (Cap l b) c)) d) s"
  by simp

text \<open>The nested groups of \<open>html_re\<close> list the names of \<open>named_entities\<close> in another order.\<close>

definition html_tail :: re where
  "html_tail = Seq (Cap 1 (alts [Seq (Cap 2 (alts [lit ''g'', lit ''l'', lit ''quo''])) (lit ''t''),
       lit ''amp'', lit ''#39'', lit ''nbsp''])) (chr CHR '';'')"

lemma html_re_tail: "html_re = Seq (chr CHR ''&'') html_tail"
  by (simp add: html_re_def html_tail_def)

lemmas reads_t = reads_Cap [OF reads_Seq [OF reads_Cap [OF reads_lit] reads_lit]]

lemma m_html_tail:
  assumes n: "CHR '';'' \<notin> set n"
  shows "if n \<in> set named_entities
    then \<exists>cs'. m html_tail (pre, n @ CHR '';'' # t, cs) = [(rev (n @ '';'') @ pre, t, cs')]
    else m html_tail (pre, n @ CHR '';'' # t, cs) = []"
proof -
  have one: "m (Seq (Cap 1 (Seq (Cap 2 (lit v)) (lit ''t''))) (chr CHR '';'')) (pre, n @ CHR '';'' # t, cs) =
    (if n = v @ ''t'' then [(rev (v @ ''t'' @ '';'') @ pre, t, (1, v @ ''t'') # (2, v) # cs)] else [])"
    if "CHR '';'' \<notin> set v" for v
    using m_reads_semi [OF reads_t _ n, of v "''t''"] that by simp
  have two: "m (Seq (Cap 1 (lit v)) (chr CHR '';'')) (pre, n @ CHR '';'' # t, cs) =
    (if n = v then [(rev (v @ '';'') @ pre, t, (1, v) # cs)] else [])"
    if "CHR '';'' \<notin> set v" for v
    using m_lit_semi [OF that n] by simp
  have "m html_tail (pre, n @ CHR '';'' # t, cs) =
     concat (map (\<lambda>v. if n = v @ ''t'' then [(rev (v @ ''t'' @ '';'') @ pre, t, (1, v @ ''t'') # (2, v) # cs)] else [])
       [''g'', ''l'', ''quo'']) @
     concat (map (\<lambda>v. if n = v then [(rev (v @ '';'') @ pre, t, (1, v) # cs)] else [])
       [''amp'', ''#39'', ''nbsp''])"
    unfolding html_tail_def alts.simps m_Cap_Alt m_Cap_Seq_Alt
    using one [of "''g''"] one [of "''l''"] one [of "''quo''"] two [of "''amp''"] two [of "''#39''"]
      two [of "''nbsp''"]
    by (simp del: m.simps)
  then show ?thesis
    by (auto simp: named_entities_def)
qed

lemma m_html_none:
  "m html_tail (pre, s, cs) = []" if "CHR '';'' \<notin> set s"
  unfolding html_tail_def by (rule m_semi_none [OF that])

lemma html_htm: "replace_all html_re
     (\<lambda>a cs. case map_of html_table a of Some e \<Rightarrow> e | None \<Rightarrow> ''undefined'') pre s = htm s"
  (is "replace_all _ ?f _ _ = _")
proof (induction s arbitrary: pre rule: htm.induct)
  case 1
  then show ?case by (simp add: replace_all_Nil html_re_tail m_chr)
next
  case (2 c s)
  show ?case
  proof (cases "c = CHR ''&''")
    case False
    then show ?thesis using "2.IH"(3) by (simp add: replace_all_skip html_re_tail m_chr)
  next
    case amp: True
    have m: "m html_re (pre, c # s, []) = m html_tail (c # pre, s, [])"
      using amp by (simp add: html_re_tail m_chr)
    show ?thesis
    proof (cases "ent (\<lambda>n. n \<in> set named_entities) s")
      case None
      then have "m html_tail (c # pre, s, []) = []"
        using m_html_tail m_html_none by (cases s rule: semi_cases) (auto split: if_splits)
      then show ?thesis using amp None "2.IH"(1) [OF amp None] m by (simp add: replace_all_skip)
    next
      case (Some n)
      then obtain t where s: "s = n @ CHR '';'' # t" and n: "n \<in> set named_entities"
        by (cases s rule: semi_cases) (auto split: if_splits)
      with m_html_tail [of n "c # pre" t "[]"] obtain cs' where
        m': "m html_re (pre, c # s, []) = [(rev (n @ '';'') @ c # pre, t, cs')]"
        unfolding m by (auto simp: named_entities_no_semi)
      have "map_of html_table (CHR ''&'' # n @ '';'') \<noteq> None"
        using n by (auto simp: named_entities_def html_table_def)
      then show ?thesis using amp Some "2.IH"(2) [OF amp Some] s
        by (auto simp: replace_all_here [OF m' [unfolded s amp]])
    qed
  qed
qed

lemma html_is_htm: "html s = htm s"
  by (simp add: html_def replace_def html_htm)

subsection \<open>Properties of the escaping functions\<close>

lemma htm_plain: "CHR ''&'' \<notin> set n \<Longrightarrow> htm (n @ t) = n @ htm t"
  by (induction n) auto

lemma is_ent_plain: "is_ent n \<Longrightarrow> CHR ''&'' \<notin> set n \<and> CHR '';'' \<notin> set n"
  by (auto simp: is_ent_def named_entities_def num_ent_def list_all_iff is_digit_def code_def
      split: list.splits)

lemma esc_name_ent: "esc_name c \<in> set named_entities"
  by (simp add: esc_name_def named_entities_def)

lemma esc_name_table: "special c \<Longrightarrow> map_of html_table (CHR ''&'' # esc_name c @ '';'') = Some [c]"
  by (auto simp: special_def esc_name_def html_table_def quote_def apos_def)

lemma ent_is_entD:
  assumes "ent P s = Some n"
  obtains t where "s = n @ CHR '';'' # t" "CHR '';'' \<notin> set n" "P n"
  using assms by (cases s rule: semi_cases) (auto split: if_splits)

lemma htm_entity:
  "n \<in> set named_entities \<Longrightarrow> htm (CHR ''&'' # n @ CHR '';'' # t) =
     the (map_of html_table (CHR ''&'' # n @ '';'')) @ htm t"
  by (simp add: named_entities_no_semi)

lemma htm_unh: "htm (unh s) = htm s"
proof (induction s rule: unh.induct)
  case (2 c s)
  show ?case
  proof (cases "special c")
    case False
    then show ?thesis using "2.IH"(3) by (simp add: special_def)
  next
    case sp: True
    show ?thesis
    proof (cases "ent is_ent s")
      case None
      then have "ent (\<lambda>n. n \<in> set named_entities) s = None"
        by (cases s rule: semi_cases) (auto simp: is_ent_def split: if_splits)
      then have "htm (c # s) = c # htm s" by simp
      then show ?thesis using sp None "2.IH"(1) [OF sp None]
        by (simp add: htm_entity esc_name_ent esc_name_table del: htm.simps)
    next
      case (Some n)
      then obtain t where s: "s = n @ CHR '';'' # t" and n: "CHR '';'' \<notin> set n" "is_ent n"
        by (rule ent_is_entD)
      then have pl: "CHR ''&'' \<notin> set n" by (simp add: is_ent_plain)
      have IH: "htm (unh t) = htm t" using "2.IH"(2) [OF sp Some] s by simp
      show ?thesis using s n pl sp Some IH by (simp add: htm_plain)
    qed
  qed
qed simp

lemma unh_plain: "\<not> (\<exists>c\<in>set n. special c) \<Longrightarrow> unh (n @ t) = n @ unh t"
  by (induction n) auto

lemma unh_idem: "unh (unh s) = unh s"
proof (induction s rule: unh.induct)
  case (2 c s)
  show ?case
  proof (cases "special c")
    case False
    then show ?thesis using "2.IH"(3) by simp
  next
    case sp: True
    show ?thesis
    proof (cases "ent is_ent s")
      case None
      have "is_ent (esc_name c)" using esc_name_ent by (simp add: is_ent_def)
      then show ?thesis using sp None "2.IH"(1) [OF sp None] is_ent_plain [of "esc_name c"]
        by (simp add: special_def)
    next
      case (Some n)
      then show ?thesis using sp "2.IH"(2) [OF sp Some]
        by (auto elim!: ent_is_entD)
    qed
  qed
qed simp

lemma unh_safe: "CHR '';'' \<notin> set s \<Longrightarrow> set (unh s) \<inter> {CHR ''<'', quote, CHR ''>'', apos} = {}"
  by (induction s) (auto simp: special_def esc_name_def quote_def apos_def)

subsection \<open>Properties\<close>

text \<open>C33. Unescaping undoes escaping: \<open>html(unhtml(s))\<close> is \<open>html(s)\<close> for every string, so a
  string without entities comes back unchanged.\<close>

theorem html_unhtml: "html (unhtml s) = html s"
  by (simp add: html_is_htm unhtml_unh htm_unh)

text \<open>Escaping twice is escaping once: an entity that is already there is kept.\<close>

theorem unhtml_idempotent: "unhtml (unhtml s) = unhtml s"
  by (simp add: unhtml_unh unh_idem)

text \<open>On a string without a semicolon, which therefore holds no entity, the escaped text
  has no angle bracket, double quote or apostrophe.\<close>

theorem unhtml_safe:
  "CHR '';'' \<notin> set s \<Longrightarrow> set (unhtml s) \<inter> {CHR ''<'', CHR 0x22, CHR ''>'', CHR 0x27} = {}"
  using unh_safe [of s] by (simp add: unhtml_unh quote_def apos_def)

theorem unhtml_safe_witness:
  "set (unhtml ''<a href=x>'') \<inter> {CHR ''<'', CHR 0x22, CHR ''>'', CHR 0x27} = {}"
  by (rule unhtml_safe) simp

text \<open>The optional entity group of the expression is tried after every special character
  and not only after an ampersand, so an angle bracket or a quote that is followed by an
  entity name and a semicolon passes unescaped.\<close>

theorem unhtml_leaves_special:
  assumes "c \<in> {CHR ''<'', CHR 0x22, CHR ''>'', CHR 0x27}" "is_ent n"
  shows "unhtml (c # n @ CHR '';'' # t) = c # n @ CHR '';'' # unhtml t"
  using assms is_ent_plain [OF assms(2)] by (auto simp: unhtml_unh special_def quote_def apos_def)

theorem unhtml_leaves_special_witness:
  "unhtml (CHR 0x22 # ''gt'' @ CHR '';'' # '' onload=f'') =
     CHR 0x22 # ''gt'' @ CHR '';'' # unhtml '' onload=f''"
  by (rule unhtml_leaves_special) (simp_all add: is_ent_def named_entities_def)

end
