(* ===== verification/DefaultFilter.thy ===== *)
theory DefaultFilter
  imports FilterNode ParserInv Escaping
begin

text \<open>
  \<open>plugins/defaultfilter.js\<close>: the rule that every document passes on its way into the editor and the
  one on its way out. Each is a walk over the tree (\<open>uNode.traversal\<close>) with a function that looks at one
  element; here each case of that function is a definition, and the walk appears with a
  function that can throw. Going in, scripts and styles are hidden in the attributes of a \<open>div\<close>, other
  \<open>div\<close>s are dissolved into paragraphs, nested paragraphs and lists are pulled out;
  going out, what was hidden is restored.
\<close>

subsection \<open>The walk\<close>

fun nodeTraversal_res :: "nat \<Rightarrow> (ptr \<Rightarrow> store \<Rightarrow> store res) \<Rightarrow> ptr \<Rightarrow> store \<Rightarrow> store res"
  and traverse_res :: "nat \<Rightarrow> (ptr \<Rightarrow> store \<Rightarrow> store res) \<Rightarrow> ptr \<Rightarrow> nat \<Rightarrow> store \<Rightarrow> store res" where
  "nodeTraversal_res 0 fn root h = Inl OutOfFuel"
| "nodeTraversal_res (Suc k) fn root h = (if kids h root \<noteq> [] then traverse_res k fn root 0 h else fn root h)"
| "traverse_res 0 fn root i h = Inl OutOfFuel"
| "traverse_res (Suc k) fn root i h =
     (case nth_opt (kids h root) i of
        None \<Rightarrow> Inr h
      | Some ci \<Rightarrow>
          bind_res (nodeTraversal_res k fn ci h) (\<lambda>h1.
            if parentNode (h1 ! ci) = None then traverse_res k fn root i h1
            else bind_res (if kids h1 ci \<noteq> [] then fn ci h1 else Inr h1) (\<lambda>h2.
              traverse_res k fn root (if parentNode (h2 ! ci) = None then i else Suc i) h2)))"

definition traversal_res :: "nat \<Rightarrow> (ptr \<Rightarrow> store \<Rightarrow> store res) \<Rightarrow> ptr \<Rightarrow> store \<Rightarrow> store res" where
  "traversal_res k fn this h = (if kids h this \<noteq> [] then nodeTraversal_res k fn this h else Inr h)"

subsection \<open>Options and helpers\<close>

record filter_opts =
  allowDivTransToP :: bool
  disabledTableInTable :: bool
  autoClearEmptyNode :: bool
  webkit :: bool
  br_ie :: bool
  br_ie11below :: bool
  br_fillChar :: string

text \<open>A test of the form \<open>val = node.getAttr(..)\<close>: a missing and an empty value are false.\<close>

definition attr_val :: "unode \<Rightarrow> string \<Rightarrow> string option" where
  "attr_val n a = (case getAttr n a of Some (c # s) \<Rightarrow> Some (c # s) | _ \<Rightarrow> None)"

definition no_attrs :: "unode \<Rightarrow> bool" where
  "no_attrs n = (case attrs n of None \<Rightarrow> True | Some a \<Rightarrow> a = [])"

definition parent_of :: "ptr \<Rightarrow> store \<Rightarrow> ptr res" where
  "parent_of node h = (case parentNode (h ! node) of None \<Rightarrow> Inl TypeError | Some p \<Rightarrow> Inr p)"

definition unwrap_node :: "ptr \<Rightarrow> store \<Rightarrow> store res" where
  "unwrap_node node h = bind_res (parent_of node h) (\<lambda>p. Inr (fst (removeChild p node True h)))"

text \<open>An inline element without attributes: it goes when it is empty, a \<open>span\<close> is unwrapped.\<close>

definition clear_node :: "ptr \<Rightarrow> store \<Rightarrow> store res" where
  "clear_node node h =
     (if firstChild h node = None then delete_node node h
      else if tagName (h ! node) = ''span'' \<and> no_attrs (h ! node) then unwrap_node node h
      else Inr h)"

definition clearable :: "filter_opts \<Rightarrow> unode \<Rightarrow> bool" where
  "clearable opts n \<longleftrightarrow> autoClearEmptyNode opts \<and> dtd_has dtd_L (tagName n) \<and>
     \<not> dtd_has dtd_empty (tagName n) \<and> no_attrs n"

definition bookmark_re :: re where
  "bookmark_re = Seq Bol (lit_i ''_baidu_bookmark_'')"

subsection \<open>Going in, case by case\<close>

text \<open>Reading \<open>innerHTML\<close> of a \<open>style\<close> or \<open>script\<close> always gives a text, since these are not void elements.\<close>

definition in_cdata :: "filter_opts \<Rightarrow> ptr \<Rightarrow> store \<Rightarrow> store res" where
  "in_cdata opts node h =
     bind_res (innerHTML_get node h) (\<lambda>(h1, r).
       let txt = (case r of Inr s \<Rightarrow> s | Inl _ \<Rightarrow> []);
           h2 = upd node (\<lambda>n. (setAttr_obj [(''cdata_tag'', Some (tagName n)), (''cdata_data'', Some txt),
                   (''_ue_custom_node_'', Some ''true'')] n)\<lparr>tagName := ''div''\<rparr>) h1
       in Inr (innerHTML (br_fillChar opts) node [] h2))"

definition in_a :: "ptr \<Rightarrow> store \<Rightarrow> store res" where
  "in_a node h = (case attr_val (h ! node) ''href'' of
     Some v \<Rightarrow> Inr (upd node (setAttr ''_href'' (Some v)) h) | None \<Rightarrow> Inr h)"

definition in_img :: "ptr \<Rightarrow> store \<Rightarrow> store res" where
  "in_img node h =
     (if (case attr_val (h ! node) ''src'' of Some v \<Rightarrow> test (Seq Bol (lit ''data:'')) v | None \<Rightarrow> False)
      then delete_node node h
      else Inr (upd node (\<lambda>n. setAttr ''_src'' (getAttr n ''src'') n) h))"

definition in_span :: "filter_opts \<Rightarrow> ptr \<Rightarrow> store \<Rightarrow> store res" where
  "in_span opts node h =
     (let val = getStyle (h ! node) ''white-space'' in
      bind_res
        (if webkit opts \<and> val \<noteq> [] \<and> test (Alt (lit ''nowrap'') (lit ''normal'')) val
         then (let h1 = upd node (setStyle [(''white-space'', [])]) h in
               if autoClearEmptyNode opts \<and> no_attrs (h1 ! node) then unwrap_node node h1 else Inr h1)
         else Inr h)
        (\<lambda>h1. case attr_val (h1 ! node) ''id'' of
            Some v \<Rightarrow> if test bookmark_re v then delete_node node h1 else Inr h1
          | None \<Rightarrow> Inr h1))"

fun move_rest :: "nat \<Rightarrow> ptr \<Rightarrow> ptr option \<Rightarrow> ptr \<Rightarrow> store \<Rightarrow> store res" where
  "move_rest k par None prev h = Inr h"
| "move_rest 0 par (Some x) prev h = Inl OutOfFuel"
| "move_rest (Suc k) par (Some x) prev h =
     bind_res (nextSibling h x) (\<lambda>tmp. move_rest k par tmp x (fst (insertAfter par x prev h)))"

definition is_p :: "store \<Rightarrow> ptr \<Rightarrow> bool" where
  "is_p h n \<longleftrightarrow> ntype (h ! n) = Element \<and> tagName (h ! n) = ''p''"

text \<open>A paragraph inside a paragraph: it and what follows it move behind the outer one. The bound is the number of children.\<close>

definition split_p :: "ptr \<Rightarrow> store \<Rightarrow> store res" where
  "split_p node h = (case find (is_p h) (kids h node) of
     None \<Rightarrow> Inr h
   | Some n \<Rightarrow> bind_res (nextSibling h n) (\<lambda>next. bind_res (parent_of node h) (\<lambda>par.
       move_rest (length (kids h node)) par next n (fst (insertAfter par n node h)))))"

definition in_p :: "filter_opts \<Rightarrow> ptr \<Rightarrow> store \<Rightarrow> store res" where
  "in_p opts node h =
     (let h1 = (case attr_val (h ! node) ''align'' of
           Some v \<Rightarrow> upd node (\<lambda>n. setStyle [(''text-align'', v)] (setAttr ''align'' None n)) h | None \<Rightarrow> h)
      in bind_res (split_p node h1) (\<lambda>h2.
           if firstChild h2 node = None
           then Inr (innerHTML (br_fillChar opts) node (if br_ie opts then ''&nbsp;'' else ''<br/>'') h2)
           else Inr h2))"

text \<open>The loop of the case \<open>div\<close>, with the paragraph that collects what is not a block.\<close>

fun div_loop :: "nat \<Rightarrow> ptr \<Rightarrow> ptr \<Rightarrow> store \<Rightarrow> (store \<times> ptr) res" where
  "div_loop 0 node p h = Inl OutOfFuel"
| "div_loop (Suc k) node p h =
     (case firstChild h node of
        None \<Rightarrow> Inr (h, p)
      | Some tmpNode \<Rightarrow>
          if ntype (h ! tmpNode) = Text \<or> \<not> dtd_has dtd_block (tagName (h ! tmpNode))
          then div_loop k node p (fst (appendChild p tmpNode h))
          else bind_res (parent_of node h) (\<lambda>par.
            if firstChild h p \<noteq> None
            then (let (h2, p2) = createElement_tag ''p'' (fst (insertBefore par p node h)) in div_loop k node p2 h2)
            else div_loop k node p (fst (insertBefore par tmpNode node h))))"

definition line_number_re :: re where
  "line_number_re = Seq Bol (Seq (lit ''line number'') (some digit))"

definition dissolve_div :: "ptr \<Rightarrow> store \<Rightarrow> store res" where
  "dissolve_div node h =
     (let (h1, p) = createElement_tag ''p'' h in
      bind_res (div_loop (Suc (2 * length (kids h node))) node p h1) (\<lambda>(h2, p).
      bind_res (if firstChild h2 p \<noteq> None
                then bind_res (parent_of node h2) (\<lambda>par. Inr (fst (insertBefore par p node h2))) else Inr h2)
        (delete_node node)))"

definition in_div :: "filter_opts \<Rightarrow> ptr \<Rightarrow> store \<Rightarrow> store res" where
  "in_div opts node h =
     (if attr_val (h ! node) ''cdata_tag'' \<noteq> None then Inr h
      else if (case attr_val (h ! node) ''class'' of Some v \<Rightarrow> test line_number_re v | None \<Rightarrow> False) then Inr h
      else if \<not> allowDivTransToP opts then Inr h
      else dissolve_div node h)"

fun fold_store :: "(ptr \<Rightarrow> store \<Rightarrow> store res) \<Rightarrow> ptr list \<Rightarrow> store \<Rightarrow> store res" where
  "fold_store f [] h = Inr h"
| "fold_store f (x # xs) h = bind_res (f x h) (fold_store f xs)"

definition in_li :: "ptr \<Rightarrow> store \<Rightarrow> store res" where
  "in_li node h =
     (let h1 = (if (case attr_val (h ! node) ''class'' of Some v \<Rightarrow> \<not> test (lit ''list-'') v | None \<Rightarrow> True)
                then upd node delAttrs h else h)
      in bind_res (getNodesByTagName h1 node ''ol ul'') (\<lambda>tmpNodes.
           fold_store (\<lambda>n h. bind_res (parent_of node h) (\<lambda>par. Inr (fst (insertAfter par n node h)))) tmpNodes h1))"

definition in_td :: "filter_opts \<Rightarrow> ptr \<Rightarrow> store \<Rightarrow> store res" where
  "in_td opts node h =
     (if kids h node = []
      then (let (h1, c) = (if br_ie11below opts then createText '' '' False h else createElement_tag ''br'' h)
            in Inr (fst (appendChild node c h1)))
      else Inr h)"

fun tdParent :: "nat \<Rightarrow> ptr option \<Rightarrow> store \<Rightarrow> bool res" where
  "tdParent k None h = Inr False"
| "tdParent 0 (Some node) h = Inl OutOfFuel"
| "tdParent (Suc k) (Some node) h =
     (if ntype (h ! node) \<noteq> Element then Inr False
      else if tagName (h ! node) = ''td'' then Inr True
      else tdParent k (parentNode (h ! node)) h)"

definition in_tab :: "filter_opts \<Rightarrow> ptr \<Rightarrow> store \<Rightarrow> store res" where
  "in_tab opts node h =
     (if \<not> disabledTableInTable opts then Inr h
      else bind_res (tdParent (Suc (length h)) (Some node) h) (\<lambda>inside.
        if \<not> inside then Inr h
        else bind_res (innerText node [] False h) (\<lambda>(h1, r).
          let (h2, t) = createText (case r of Inr s \<Rightarrow> s | Inl _ \<Rightarrow> []) False h1 in
          bind_res (parent_of node h2) (\<lambda>par. delete_node node (fst (insertBefore par t node h2))))))"

definition input_node :: "filter_opts \<Rightarrow> ptr \<Rightarrow> store \<Rightarrow> store res" where
  "input_node opts node h =
     (if ntype (h ! node) \<noteq> Element then Inr h
      else let tag = tagName (h ! node) in
        if \<not> dtd_has dtd_c_cdata tag \<and> clearable opts (h ! node) then clear_node node h
        else if tag = ''style'' \<or> tag = ''script'' then in_cdata opts node h
        else if tag = ''a'' then in_a node h
        else if tag = ''img'' then in_img node h
        else if tag = ''span'' then in_span opts node h
        else if tag = ''p'' then in_p opts node h
        else if tag = ''div'' then in_div opts node h
        else if tag = ''dl'' then Inr (upd node (\<lambda>n. n\<lparr>tagName := ''ul''\<rparr>) h)
        else if tag = ''dt'' \<or> tag = ''dd'' then Inr (upd node (\<lambda>n. n\<lparr>tagName := ''li''\<rparr>) h)
        else if tag = ''li'' then in_li node h
        else if tag = ''td'' \<or> tag = ''th'' \<or> tag = ''caption'' then in_td opts node h
        else if tag = ''table'' then in_tab opts node h
        else Inr h)"

definition input_rule :: "nat \<Rightarrow> filter_opts \<Rightarrow> ptr \<Rightarrow> store \<Rightarrow> store res" where
  "input_rule k opts root h = traversal_res k (input_node opts) root h"

subsection \<open>Going out\<close>

definition out_div :: "ptr \<Rightarrow> store \<Rightarrow> store res" where
  "out_div node h = (case attr_val (h ! node) ''cdata_tag'' of
     None \<Rightarrow> Inr h
   | Some v \<Rightarrow>
       (let h1 = upd node (\<lambda>n. n\<lparr>tagName := v\<rparr>) h;
            (h2, t) = createText (case getAttr (h1 ! node) ''cdata_data'' of Some d \<Rightarrow> d | None \<Rightarrow> []) False h1;
            h3 = fst (appendChild node t h2)
        in Inr (upd node (setAttr_obj [(''cdata_tag'', Some []), (''cdata_data'', Some []), (''_ue_custom_node_'', Some [])]) h3)))"

definition out_a :: "ptr \<Rightarrow> store \<Rightarrow> store res" where
  "out_a node h = (case attr_val (h ! node) ''_href'' of
     Some v \<Rightarrow> Inr (upd node (setAttr_obj [(''href'', Some (html v)), (''_href'', Some [])]) h) | None \<Rightarrow> Inr h)"

definition out_span :: "ptr \<Rightarrow> store \<Rightarrow> store res" where
  "out_span node h = (case attr_val (h ! node) ''id'' of
     Some v \<Rightarrow> if test bookmark_re v then delete_node node h else Inr h | None \<Rightarrow> Inr h)"

definition out_img :: "ptr \<Rightarrow> store \<Rightarrow> store res" where
  "out_img node h = (case attr_val (h ! node) ''_src'' of
     Some v \<Rightarrow> Inr (upd node (\<lambda>n. setAttr_obj [(''src'', getAttr n ''_src''), (''_src'', Some [])] n) h) | None \<Rightarrow> Inr h)"

definition output_node :: "filter_opts \<Rightarrow> ptr \<Rightarrow> store \<Rightarrow> store res" where
  "output_node opts node h =
     (if ntype (h ! node) \<noteq> Element then Inr h
      else let tag = tagName (h ! node) in
        if clearable opts (h ! node) then clear_node node h
        else if tag = ''div'' then out_div node h
        else if tag = ''a'' then out_a node h
        else if tag = ''span'' then out_span node h
        else if tag = ''img'' then out_img node h
        else Inr h)"

definition output_rule :: "nat \<Rightarrow> filter_opts \<Rightarrow> ptr \<Rightarrow> store \<Rightarrow> store res" where
  "output_rule k opts root h = traversal_res k (output_node opts) root h"

subsection \<open>The element tables on the names used here\<close>

lemmas lower_eval = lower_char_def is_upper_def code_def

lemma dtd_has_up:
  "lower_keys s \<Longrightarrow> toLowerCase k = k \<Longrightarrow>
   dtd_has (dtd_up s) k = (case map_of s k of Some v \<Rightarrow> v \<noteq> 0 | None \<Rightarrow> k \<in> set object_prototype_names)"
  by (simp add: dtd_has_def dtd_up_get)

lemma tag_facts: "dtd_has dtd_c_cdata ''script''" "dtd_has dtd_c_cdata ''style''" "\<not> dtd_has dtd_empty ''script''"
  "\<not> dtd_has dtd_empty ''style''" "\<not> dtd_has dtd_empty ''div''" "\<not> dtd_has dtd_empty ''p''"
  "dtd_has dtd_block ''h1''" "\<not> dtd_has dtd_block ''b''"
  unfolding dtd_c_cdata_def dtd_empty_def dtd_block_def
  by (simp_all add: dtd_has_up lower_keys_def lower_eval object_prototype_names_def)

lemma cdata_no_trans: "in_table notTransTagName ''script''" "in_table notTransTagName ''style''"
  by (simp_all add: in_table_def notTransTagName_def)

subsection \<open>What the operations leave alone\<close>

text \<open>The nodes keep what they say; only links change.\<close>

definition carries :: "store \<Rightarrow> store \<Rightarrow> bool" where
  "carries h h' \<longleftrightarrow> length h \<le> length h' \<and> (\<forall>r < length h. ntype (h' ! r) = ntype (h ! r) \<and> data (h' ! r) = data (h ! r) \<and>
     tagName (h' ! r) = tagName (h ! r) \<and> attrs (h' ! r) = attrs (h ! r))"

lemma carries_refl [simp]: "carries h h"
  by (simp add: carries_def)

lemma carries_trans: "carries h h1 \<Longrightarrow> carries h1 h2 \<Longrightarrow> carries h h2"
  by (auto simp: carries_def)

lemma carries_links [simp]: "carries h (set_children p cs h)" "carries h (set_parent p x h)"
  by (simp_all add: carries_def link_simps)

lemma carries_set: "carries h h1 \<Longrightarrow> carries h (set_children p cs h1)" "carries h h1 \<Longrightarrow> carries h (set_parent p x h1)"
  using carries_trans [OF _ carries_links(1)] carries_trans [OF _ carries_links(2)] by auto

lemma carries_removeChild: "carries h (fst (removeChild p n False h))"
  by (auto simp: removeChild_def Let_def carries_def link_simps split: option.splits)

lemma carries_detach: "carries h (detach n h)"
  by (simp add: detach_def carries_removeChild split: option.splits)

lemma carries_appendChild: "carries h (fst (appendChild p n h))"
proof -
  let ?h = "if children (h ! p) = None then set_children p [] h else h"
  have "carries h (detach n ?h)" using carries_trans [OF _ carries_detach] by simp
  then show ?thesis by (simp add: appendChild_def Let_def carries_set)
qed

lemma carries_insertBefore: "carries h (fst (insertBefore p n s h))"
  by (simp add: insertBefore_def Let_def carries_set carries_detach split: option.split)

lemma carries_alloc: "carries h (h @ [n])"
  by (simp add: carries_def nth_append)

lemma length_removeChild [simp]: "length (fst (removeChild p n False h)) = length h"
  by (simp add: removeChild_def Let_def split: option.splits)

lemma length_detach [simp]: "length (detach n h) = length h"
  by (simp add: detach_def split: option.splits)

lemma length_appendChild [simp]: "length (fst (appendChild p n h)) = length h"
  by (simp add: appendChild_def Let_def)

lemma length_insertBefore [simp]: "length (fst (insertBefore p n s h)) = length h"
  by (simp add: insertBefore_def Let_def split: option.splits)

lemma detach_frame: "r \<noteq> n \<Longrightarrow> parentNode (h ! n) \<noteq> Some r \<Longrightarrow> detach n h ! r = h ! r"
  by (auto simp: detach_def removeChild_def Let_def link_simps split: option.splits)

lemma appendChild_frame: "r \<noteq> p \<Longrightarrow> r \<noteq> n \<Longrightarrow> parentNode (h ! n) \<noteq> Some r \<Longrightarrow> fst (appendChild p n h) ! r = h ! r"
proof -
  assume a: "r \<noteq> p" "r \<noteq> n" "parentNode (h ! n) \<noteq> Some r"
  let ?h = "if children (h ! p) = None then set_children p [] h else h"
  have "parentNode (?h ! n) = parentNode (h ! n)" by (simp add: link_simps)
  then have "detach n ?h ! r = ?h ! r" using a by (intro detach_frame) simp_all
  also have "\<dots> = h ! r" using a by (simp add: link_simps)
  finally show ?thesis using a by (simp add: appendChild_def Let_def link_simps)
qed

lemma insertBefore_frame: "r \<noteq> p \<Longrightarrow> r \<noteq> n \<Longrightarrow> parentNode (h ! n) \<noteq> Some r \<Longrightarrow> fst (insertBefore p n s h) ! r = h ! r"
  by (auto simp: insertBefore_def Let_def link_simps detach_frame split: option.splits)

lemma represents_frame:
  "represents h par t \<Longrightarrow> (\<And>r. r \<in> set (ptrs t) \<Longrightarrow> h' ! r = h ! r) \<Longrightarrow> length h \<le> length h' \<Longrightarrow> represents h' par t"
  unfolding represents_def by (auto intro!: rep_frame [of h par t] simp: same_links_def)

lemma doc_carries: "rep h par t \<Longrightarrow> carries h h' \<Longrightarrow> doc h' t = doc h t"
proof (induction t arbitrary: par)
  case (PT p ts)
  have "doc h' x = doc h x" if "x \<in> set ts" for x using PT that by (auto simp: list_all_iff)
  then show ?case using PT.prems by (auto simp: carries_def)
qed

subsection \<open>A \<open>div\<close> becomes paragraphs\<close>

fun block_doc :: "utree \<Rightarrow> bool" where
  "block_doc (UT ty d tg ats ts) \<longleftrightarrow> ty \<noteq> Text \<and> dtd_has dtd_block tg"

definition para :: "utree list \<Rightarrow> utree list" where
  "para ts = (if ts = [] then [] else [UT Element None ''p'' (Some []) ts])"

text \<open>What should become of the children: blocks stay, the runs between them become paragraphs.\<close>

fun regroup :: "utree list \<Rightarrow> utree list \<Rightarrow> utree list" where
  "regroup run [] = para run"
| "regroup run (x # xs) =
     (if block_doc x then para run @ x # regroup [] xs else regroup (run @ [x]) xs)"

definition fresh_p :: "store \<Rightarrow> ptr \<Rightarrow> bool" where
  "fresh_p h p \<longleftrightarrow> ntype (h ! p) = Element \<and> data (h ! p) = None \<and> tagName (h ! p) = ''p'' \<and> attrs (h ! p) = Some []"

lemma fresh_p_takes: "fresh_p h p \<Longrightarrow> takes_children (h ! p)"
  by (simp add: fresh_p_def takes_children_def tag_facts)

lemma fresh_p_carries: "fresh_p h p \<Longrightarrow> carries h h' \<Longrightarrow> p < length h \<Longrightarrow> fresh_p h' p"
  by (simp add: fresh_p_def carries_def)

text \<open>The state of the loop: the tree with the \<open>div\<close>, and the paragraph beside it.\<close>

definition dividing :: "store \<Rightarrow> ptr option \<Rightarrow> ptr \<Rightarrow> ptree list \<Rightarrow> ptr \<Rightarrow> ptree list \<Rightarrow> ptree list \<Rightarrow> ptr \<Rightarrow> ptree list \<Rightarrow> bool" where
  "dividing h par q us node ts vs p ps \<longleftrightarrow> represents h par (PT q (us @ PT node ts # vs)) \<and> represents h None (PT p ps) \<and>
     set (ptrs (PT q (us @ PT node ts # vs))) \<inter> set (ptrs (PT p ps)) = {} \<and> fresh_p h p \<and> children (h ! p) \<noteq> None"

lemma dividing_parent: "dividing h par q us node ts vs p ps \<Longrightarrow> parent_of node h = Inr q"
  by (simp add: dividing_def represents_def parent_of_def)

lemma dividing_first:
  "dividing h par q us node ts vs p ps \<Longrightarrow> firstChild h node = (case ts of [] \<Rightarrow> None | x # _ \<Rightarrow> Some (proot x)) \<and>
     firstChild h p = (case ps of [] \<Rightarrow> None | x # _ \<Rightarrow> Some (proot x))"
  by (cases ts; cases ps) (auto simp: dividing_def represents_def firstChild_def nth_opt_def split: option.splits)

lemma append_step:
  assumes d: "dividing h par q us node (x # ts) vs p ps"
  shows "dividing (fst (appendChild p (proot x) h)) par q us node ts vs p (ps @ [x])"
proof -
  let ?t = "PT q (us @ PT node (x # ts) # vs)" and ?t' = "PT q (us @ PT node ts # vs)" and ?h = "detach (proot x) h"
  let ?h' = "fst (appendChild p (proot x) h)"
  have r: "represents h par ?t" "represents h None (PT p ps)" and dj: "set (ptrs ?t) \<inter> set (ptrs (PT p ps)) = {}"
    and f: "fresh_p h p" and c: "children (h ! p) \<noteq> None" using d by (auto simp: dividing_def)
  have dt: "distinct (ptrs ?t)" using r(1) by (simp add: represents_def)
  have nodes: "node \<in> set (ptrs ?t)" "q \<noteq> node" "\<forall>x \<in> set us. node \<notin> set (ptrs x)" "\<forall>x \<in> set vs. node \<notin> set (ptrs x)"
    using dt by auto
  note at = path_simps [OF nodes(2,3,4)]
  have s: "sub node ?t = [] @ x # ts" unfolding at(1) here_simps by simp
  have t': "at node (\<lambda>_. [] @ ts) ?t = ?t'" unfolding at(2) here_simps by simp
  note dr = detach_rep [OF r(1) nodes(1) s, unfolded t']
  have px: "parentNode (h ! proot x) = Some node"
    using r(1) by (cases x) (simp add: represents_def)
  have pn: "p \<notin> set (ptrs ?t)" "p < length h" using dj r(2) by (auto simp: represents_def)
  have "set (ptrs ?t') \<inter> set (ptrs x) = {}" using dt by auto
  then have xt: "proot x \<notin> set (ptrs ?t')" using proot_in_ptrs [of x] by blast
  have "proot x \<in> set (ptrs ?t)" using proot_in_ptrs [of x] by simp
  then have xp: "proot x \<notin> set (ptrs (PT p ps))" using dj by blast
  have "?h ! r = h ! r" if "r \<in> set (ptrs (PT p ps))" for r
    using that xp px dj nodes(1) by (intro detach_frame) auto
  then have rp: "represents ?h None (PT p ps)" by (intro represents_frame [OF r(2)]) auto
  have djx: "set (ptrs (PT p ps)) \<inter> set (ptrs x) = {}" using dj by auto
  have tk: "takes_children (?h ! p)"
    using fresh_p_carries [OF f carries_detach pn(2)] by (rule fresh_p_takes)
  have p: "?h ! p = h ! p" using pn(1) px nodes(1) xp by (intro detach_frame) auto
  have c1: "(ntype (h ! p) = Root \<or> ntype (h ! p) = Element \<and> \<not> dtd_has dtd_empty (tagName (h ! p))) = True"
    using tk p by (simp add: takes_children_def)
  have c2: "(children (h ! p) = None) = False" using c by simp
  have same: "fst (appendChild p (proot x) ?h) = ?h'"
    unfolding appendChild_def Let_def p c1 c2 if_True if_False detach_free [OF dr(2)] ..
  have rp': "represents ?h' None (PT p (ps @ [x]))"
    using appendChild_rep(2) [OF rp _ dr(2) djx tk] same by (simp add: here_simps)
  have "?h' ! r = ?h ! r" if "r \<in> set (ptrs ?t')" for r
  proof -
    have "parentNode (?h ! proot x) = None" using dr(2) by (cases x) (simp add: represents_def)
    moreover have "r \<noteq> p" "r \<noteq> proot x" using that xt pn(1) by auto
    ultimately show ?thesis unfolding same [symmetric] by (intro appendChild_frame) auto
  qed
  then have rt': "represents ?h' par ?t'" by (intro represents_frame [OF dr(1)]) auto
  have "set (ptrs ?t') \<inter> set (ptrs (PT p (ps @ [x]))) = {}" using dj dt by auto
  moreover have "children (?h' ! p) \<noteq> None" using rp' by (intro kids_children) (simp add: represents_def)
  ultimately show ?thesis using rt' rp' fresh_p_carries [OF f carries_appendChild pn(2)] by (simp add: dividing_def)
qed

lemma flush_step:
  assumes d: "dividing h par q us node ts vs p ps"
    and h': "h' = fst (insertBefore q p node h)" "(h2, p2) = createElement_tag ''p'' h'"
  shows "dividing h2 par q (us @ [PT p ps]) node ts vs p2 [] \<and> carries h h2 \<and> p2 = length h"
proof -
  let ?t = "PT q (us @ PT node ts # vs)" and ?t' = "PT q (us @ PT p ps # PT node ts # vs)"
  have r: "represents h par ?t" "represents h None (PT p ps)" and dj: "set (ptrs ?t) \<inter> set (ptrs (PT p ps)) = {}"
    using d by (auto simp: dividing_def)
  have t1: "represents h' par ?t'"
    using insertBefore_rep(2) [OF r(1) _ r(2) dj, of q us "PT node ts" vs] by (simp add: h'(1) here_simps)
  have h2: "h2 = h' @ [new_uNode Element None ''p'' None None (Some [])]" "p2 = length h'"
    using h'(2) by (simp_all add: createElement_tag_def alloc_def)
  have l: "length h' = length h" by (simp add: h'(1))
  have b: "r < length h'" if "r \<in> set (ptrs ?t')" for r using t1 that unfolding represents_def by (blast dest: rep_bound)
  have "h2 ! r = h' ! r" if "r \<in> set (ptrs ?t')" for r using b [OF that] unfolding h2 by (rule nth_append_left)
  then have t': "represents h2 par ?t'" by (rule represents_frame [OF t1]) (simp_all add: h2)
  have "p2 \<notin> set (ptrs ?t')" using b h2(2) by blast
  moreover have "represents h2 None (PT p2 [])" by (simp add: represents_def h2 new_uNode_def)
  moreover have "fresh_p h2 p2" "children (h2 ! p2) \<noteq> None" by (simp_all add: fresh_p_def h2 new_uNode_def)
  moreover have "carries h h2" unfolding h2 h'(1) using carries_trans [OF carries_insertBefore carries_alloc] .
  ultimately show ?thesis using t' l h2(2) by (simp add: dividing_def)
qed

lemma block_step:
  assumes d: "dividing h par q us node (x # ts) vs p []"
  shows "dividing (fst (insertBefore q (proot x) node h)) par q (us @ [x]) node ts vs p []"
proof -
  let ?t = "PT q (us @ PT node (x # ts) # vs)" and ?t1 = "PT q (us @ PT node ts # vs)" and ?h' = "fst (insertBefore q (proot x) node h)"
  let ?t' = "PT q (us @ x # PT node ts # vs)"
  have r: "represents h par ?t" "represents h None (PT p [])" and dj: "set (ptrs ?t) \<inter> set (ptrs (PT p [])) = {}"
    and f: "fresh_p h p" and c: "children (h ! p) \<noteq> None" using d by (auto simp: dividing_def)
  have dt: "distinct (ptrs ?t)" using r(1) by (simp add: represents_def)
  have nodes: "node \<in> set (ptrs ?t)" "q \<noteq> node" "\<forall>x \<in> set us. node \<notin> set (ptrs x)" "\<forall>x \<in> set vs. node \<notin> set (ptrs x)"
    using dt by auto
  note at = path_simps [OF nodes(2,3,4)]
  have s: "sub node ?t = [] @ x # ts" "?t1 = at node (\<lambda>_. [] @ ts) ?t" unfolding at here_simps by simp_all
  have "kids h q \<noteq> []" using r(1) by (simp add: represents_def)
  then have "represents (fst (insertBefore q (proot x) (proot (PT node ts)) h)) par (at q (\<lambda>_. us @ x # PT node ts # vs) ?t1)"
    by (intro insertBefore_move_rep [OF r(1) nodes(1) s]) (simp_all only: here_simps ptrs.simps list.set_intros simp_thms)
  then have t': "represents ?h' par ?t'" by (simp add: here_simps)
  have px: "parentNode (h ! proot x) = Some node" using r(1) by (cases x) (simp add: represents_def)
  have "proot x \<in> set (ptrs ?t)" using proot_in_ptrs [of x] by simp
  then have "p \<noteq> proot x" "p \<noteq> q" "p \<noteq> node" using dj nodes(1) by auto
  then have p: "?h' ! p = h ! p" using px by (intro insertBefore_frame) auto
  then have "represents ?h' None (PT p [])" using r(2) by (intro represents_frame [OF r(2)]) auto
  moreover have "set (ptrs ?t') \<inter> set (ptrs (PT p [])) = {}" using dj by auto
  ultimately show ?thesis using t' f c p by (simp add: dividing_def fresh_p_def)
qed

text \<open>The loop returns, and what it has put before the \<open>div\<close>, with the paragraph at hand, is the regrouped list.\<close>

definition loop_ok :: "nat \<Rightarrow> store \<Rightarrow> ptr option \<Rightarrow> ptr \<Rightarrow> ptree list \<Rightarrow> ptr \<Rightarrow> ptree list \<Rightarrow> ptree list \<Rightarrow> ptr \<Rightarrow> ptree list \<Rightarrow> bool" where
  "loop_ok k h par q us node ts vs p ps \<longleftrightarrow> (\<exists>h' p' ms ps'. div_loop k node p h = Inr (h', p') \<and>
     dividing h' par q (us @ ms) node [] vs p' ps' \<and> carries h h' \<and>
     map (doc h') ms @ para (map (doc h') ps') = regroup (map (doc h) ps) (map (doc h) ts))"

lemma docs_carries: "carries h g \<Longrightarrow> list_all (rep h o1) xs \<Longrightarrow> map (doc g) xs = map (doc h) xs"
  by (auto simp: list_all_iff intro: doc_carries)

lemma dividing_reps:
  "dividing h par q us node ts vs p ps \<Longrightarrow> list_all (rep h (Some node)) ts \<and> list_all (rep h (Some p)) ps"
  by (simp add: dividing_def represents_def)

lemma block_doc_iff: "block_doc (doc h x) \<longleftrightarrow> \<not> (ntype (h ! proot x) = Text \<or> \<not> dtd_has dtd_block (tagName (h ! proot x)))"
  by (cases x) simp

lemma loop_plain:
  assumes d: "dividing h par q us node (x # ts) vs p ps" and b: "\<not> block_doc (doc h x)"
    and l: "loop_ok k (fst (appendChild p (proot x) h)) par q us node ts vs p (ps @ [x])"
  shows "loop_ok (Suc k) h par q us node (x # ts) vs p ps"
proof -
  let ?h = "fst (appendChild p (proot x) h)"
  have c: "carries h ?h" by (rule carries_appendChild)
  obtain h' p' ms ps' where
    r: "div_loop k node p ?h = Inr (h', p')" "dividing h' par q (us @ ms) node [] vs p' ps'" "carries ?h h'"
      "map (doc h') ms @ para (map (doc h') ps') = regroup (map (doc ?h) (ps @ [x])) (map (doc ?h) ts)"
    using l unfolding loop_ok_def by blast
  have e: "map (doc ?h) (ps @ [x]) = map (doc h) ps @ [doc h x]" "map (doc ?h) ts = map (doc h) ts"
    using dividing_reps [OF d] docs_carries [OF c, of "Some p" ps] docs_carries [OF c, of "Some node" "x # ts"] by simp_all
  have "map (doc h') ms @ para (map (doc h') ps') = regroup (map (doc h) ps) (map (doc h) (x # ts))"
    unfolding r(4) e using b by simp
  moreover have "div_loop (Suc k) node p h = Inr (h', p')"
    using dividing_first [OF d] b r(1) by (simp add: block_doc_iff)
  ultimately show ?thesis using r(2) carries_trans [OF c r(3)] unfolding loop_ok_def by blast
qed

lemma loop_block:
  assumes d: "dividing h par q us node (x # ts) vs p []" and b: "block_doc (doc h x)"
    and l: "loop_ok k (fst (insertBefore q (proot x) node h)) par q (us @ [x]) node ts vs p []"
  shows "loop_ok (Suc k) h par q us node (x # ts) vs p []"
proof -
  let ?h = "fst (insertBefore q (proot x) node h)"
  have c: "carries h ?h" by (rule carries_insertBefore)
  obtain h' p' ms ps' where
    r: "div_loop k node p ?h = Inr (h', p')" "dividing h' par q ((us @ [x]) @ ms) node [] vs p' ps'" "carries ?h h'"
      "map (doc h') ms @ para (map (doc h') ps') = regroup [] (map (doc ?h) ts)"
    using l unfolding loop_ok_def by auto
  have c': "carries h h'" using c r(3) by (rule carries_trans)
  have e: "doc h' x = doc h x" "map (doc ?h) ts = map (doc h) ts"
    using dividing_reps [OF d] docs_carries [OF c', of "Some node" "x # ts"] docs_carries [OF c, of "Some node" "x # ts"] by simp_all
  have "map (doc h') (x # ms) @ para (map (doc h') ps') = regroup [] (map (doc h) (x # ts))"
    using r(4) b unfolding e by (simp add: para_def e)
  moreover have "div_loop (Suc k) node p h = Inr (h', p')"
    using dividing_first [OF d] dividing_parent [OF d] b r(1) by (simp add: block_doc_iff)
  ultimately show ?thesis using r(2) c' unfolding loop_ok_def
    by (intro exI [of _ h'] exI [of _ p'] exI [of _ "x # ms"] exI [of _ ps']) simp
qed

lemma loop_flush:
  assumes d: "dividing h par q us node (x # ts) vs p ps" and b: "block_doc (doc h x)" "ps \<noteq> []"
    and cr: "(h2, p2) = createElement_tag ''p'' (fst (insertBefore q p node h))"
    and l: "loop_ok k h2 par q (us @ [PT p ps]) node (x # ts) vs p2 []"
  shows "loop_ok (Suc k) h par q us node (x # ts) vs p ps"
proof -
  have c: "carries h h2" using flush_step [OF d refl cr] by blast
  obtain h' p' ms ps' where
    r: "div_loop k node p2 h2 = Inr (h', p')" "dividing h' par q ((us @ [PT p ps]) @ ms) node [] vs p' ps'" "carries h2 h'"
      "map (doc h') ms @ para (map (doc h') ps') = regroup [] (map (doc h2) (x # ts))"
    using l unfolding loop_ok_def by auto
  have c': "carries h h'" using c r(3) by (rule carries_trans)
  have e: "map (doc h2) (x # ts) = map (doc h) (x # ts)" "map (doc h') ps = map (doc h) ps"
    using dividing_reps [OF d] docs_carries [OF c, of "Some node" "x # ts"] docs_carries [OF c', of "Some p" ps] by simp_all
  have pd: "doc h' (PT p ps) = UT Element None ''p'' (Some []) (map (doc h) ps)"
    using d c' e(2) by (auto simp: dividing_def fresh_p_def carries_def represents_def)
  have "map (doc h') (PT p ps # ms) @ para (map (doc h') ps') = regroup (map (doc h) ps) (map (doc h) (x # ts))"
    using r(4) b pd unfolding e by (simp add: para_def)
  moreover have "div_loop (Suc k) node p h = Inr (h', p')"
    using dividing_first [OF d] dividing_parent [OF d] b r(1) cr [symmetric] by (cases ps) (simp_all add: block_doc_iff)
  ultimately show ?thesis using r(2) c' unfolding loop_ok_def
    by (intro exI [of _ h'] exI [of _ p'] exI [of _ "PT p ps # ms"] exI [of _ ps']) simp
qed

lemma div_loop_regroups:
  "dividing h par q us node ts vs p ps \<Longrightarrow> 2 * length ts + (if ps = [] then 0 else 1) < k \<Longrightarrow>
   loop_ok k h par q us node ts vs p ps"
proof (induction k arbitrary: h us ts p ps)
  case (Suc k)
  show ?case
  proof (cases ts)
    case Nil
    then have "div_loop (Suc k) node p h = Inr (h, p)" using dividing_first [OF Suc.prems(1)] by simp
    then show ?thesis using Suc.prems(1) Nil unfolding loop_ok_def
      by (intro exI [of _ h] exI [of _ p] exI [of _ "[]"] exI [of _ ps]) simp
  next
    case (Cons x ts')
    have d: "dividing h par q us node (x # ts') vs p ps" using Suc.prems(1) Cons by simp
    obtain h2 p2 where cr: "(h2, p2) = createElement_tag ''p'' (fst (insertBefore q p node h))" by (metis surj_pair)
    consider (plain) "\<not> block_doc (doc h x)" | (flush) "block_doc (doc h x)" "ps \<noteq> []" | (block) "block_doc (doc h x)" "ps = []"
      by blast
    then show ?thesis
    proof cases
      case plain
      show ?thesis unfolding Cons
        using Suc.prems(2) Cons by (intro loop_plain [OF d plain] Suc.IH append_step [OF d]) (simp split: if_splits)
    next
      case flush
      show ?thesis unfolding Cons
        using Suc.prems(2) Cons flush by (intro loop_flush [OF d flush cr] Suc.IH flush_step [OF d refl cr, THEN conjunct1]) simp
    next
      case block
      show ?thesis unfolding Cons block(2)
        using Suc.prems(2) Cons d block by (intro loop_block Suc.IH block_step) simp_all
    qed
  qed
qed simp

lemma dissolve_start:
  assumes "represents h par (PT q (us @ PT node ts # vs))" and cr: "(h1, p) = createElement_tag ''p'' h"
  shows "dividing h1 par q us node ts vs p [] \<and> carries h h1"
proof -
  let ?t = "PT q (us @ PT node ts # vs)"
  have b: "r < length h" if "r \<in> set (ptrs ?t)" for r using assms(1) that unfolding represents_def by (blast dest: rep_bound)
  have h1: "h1 = h @ [new_uNode Element None ''p'' None None (Some [])]" "p = length h"
    using cr by (simp_all add: createElement_tag_def alloc_def)
  have "h1 ! r = h ! r" if "r \<in> set (ptrs ?t)" for r using b [OF that] unfolding h1 by (rule nth_append_left)
  then have "represents h1 par ?t" by (rule represents_frame [OF assms(1)]) (simp_all add: h1)
  moreover have "p \<notin> set (ptrs ?t)" using b h1(2) by blast
  moreover have "represents h1 None (PT p [])" "fresh_p h1 p" "children (h1 ! p) \<noteq> None"
    by (simp_all add: represents_def fresh_p_def h1 new_uNode_def)
  ultimately show ?thesis using carries_alloc [of h] h1(1) by (simp add: dividing_def)
qed

lemma dissolve_finish:
  assumes d: "dividing h par q us node [] vs p ps"
  shows "\<exists>h' ms. bind_res (if firstChild h p \<noteq> None
      then bind_res (parent_of node h) (\<lambda>par. Inr (fst (insertBefore par p node h))) else Inr h) (delete_node node) = Inr h' \<and>
    represents h' par (PT q (us @ ms @ vs)) \<and> carries h h' \<and> map (doc h') ms = para (map (doc h) ps)"
proof -
  define h3 where "h3 = (if ps = [] then h else fst (insertBefore q p node h))"
  define ms where "ms = (if ps = [] then [] else [PT p ps])"
  let ?h' = "fst (removeChild q node False h3)" and ?t = "PT q ((us @ ms) @ PT node [] # vs)"
  have r: "represents h par (PT q (us @ PT node [] # vs))" "represents h None (PT p ps)"
    "set (ptrs (PT q (us @ PT node [] # vs))) \<inter> set (ptrs (PT p ps)) = {}" using d by (auto simp: dividing_def)
  have r3: "represents h3 par ?t"
    using r insertBefore_rep(2) [OF r(1) _ r(2,3), of q us "PT node []" vs] by (simp add: h3_def ms_def here_simps)
  have r': "represents ?h' par (PT q (us @ ms @ vs))"
    using removeChild_rep(2) [OF r3, of q "us @ ms" "PT node []" vs] by (simp add: here_simps)
  have c: "carries h ?h'" using carries_trans [OF carries_insertBefore carries_removeChild] carries_removeChild by (simp add: h3_def)
  have "parentNode (h3 ! node) = Some q" using r3 by (simp add: represents_def)
  then have "delete_node node h3 = Inr ?h'" by (simp add: delete_node_def)
  moreover have "map (doc ?h') ps = map (doc h) ps" using dividing_reps [OF d] docs_carries [OF c] by blast
  then have "map (doc ?h') ms = para (map (doc h) ps)"
    using d c by (auto simp: ms_def para_def dividing_def fresh_p_def carries_def represents_def)
  ultimately show ?thesis using r' c dividing_first [OF d] dividing_parent [OF d]
    by (intro exI [of _ ?h'] exI [of _ ms]) (cases ps; simp add: h3_def)
qed

subsection \<open>Properties\<close>

text \<open>C9. A \<open>div\<close> on its way into the editor is replaced by its content, regrouped: block elements stand where they stood, and
  every run of other nodes between them becomes one paragraph. The loop returns although it works on the list it
  empties, the order is kept, nothing is lost, links stay consistent and the other children are untouched.\<close>

theorem div_becomes_paragraphs:
  assumes "represents h par (PT q (us @ PT node ts # vs))"
  shows "\<exists>h' ms. dissolve_div node h = Inr h' \<and> represents h' par (PT q (us @ ms @ vs)) \<and>
    map (doc h') ms = regroup [] (map (doc h) ts) \<and> map (doc h') (us @ vs) = map (doc h) (us @ vs)"
proof -
  obtain h1 p where cr: "(h1, p) = createElement_tag ''p'' h" by (metis surj_pair)
  note st = dissolve_start [OF assms cr]
  have "length (kids h node) = length ts" using assms by (simp add: represents_def)
  then have "loop_ok (Suc (2 * length (kids h node))) h1 par q us node ts vs p []" using div_loop_regroups st by simp
  then obtain h2 p2 ms ps where l: "div_loop (Suc (2 * length (kids h node))) node p h1 = Inr (h2, p2)"
      "dividing h2 par q (us @ ms) node [] vs p2 ps" "carries h1 h2"
      "map (doc h2) ms @ para (map (doc h2) ps) = regroup [] (map (doc h1) ts)"
    unfolding loop_ok_def by auto
  obtain h' ns where f: "bind_res (if firstChild h2 p2 \<noteq> None
      then bind_res (parent_of node h2) (\<lambda>par. Inr (fst (insertBefore par p2 node h2))) else Inr h2) (delete_node node) = Inr h'"
      "represents h' par (PT q ((us @ ms) @ ns @ vs))" "carries h2 h'" "map (doc h') ns = para (map (doc h2) ps)"
    using dissolve_finish [OF l(2)] by blast
  have c: "carries h h'" using st l(3) f(3) carries_trans by blast
  have "list_all (rep h2 (Some q)) ms" using l(2) by (simp add: dividing_def represents_def)
  then have "map (doc h') (ms @ ns) = regroup [] (map (doc h1) ts)" using docs_carries [OF f(3)] f(4) l(4) by (metis map_append)
  moreover have "map (doc h1) ts = map (doc h) ts" "map (doc h') (us @ vs) = map (doc h) (us @ vs)"
    using assms st docs_carries [of h h1 "Some node" ts] docs_carries [OF c, of "Some q" "us @ vs"] by (simp_all add: represents_def)
  moreover have "dissolve_div node h = Inr h'" unfolding dissolve_div_def cr [symmetric] Let_def prod.case l(1) bind_res_simps f(1) ..
  ultimately show ?thesis using f(2) by (intro exI [of _ h'] exI [of _ "ms @ ns"]) simp
qed

text \<open>The \<open>div\<close> with the node 1 holds a text, a heading, a text and a bold element.\<close>

definition div_store :: store where
  "div_store = [new_uNode Root None undefined_name None None (Some [1]),
     new_uNode Element None ''div'' (Some 0) None (Some [2, 3, 4, 5]),
     new_uNode Text (Some ''a'') undefined_name (Some 1) None None, new_uNode Element None ''h1'' (Some 1) None (Some []),
     new_uNode Text (Some ''b'') undefined_name (Some 1) None None, new_uNode Element None ''b'' (Some 1) None (Some [])]"

theorem div_becomes_paragraphs_witness:
  "\<exists>h' ms. dissolve_div 1 div_store = Inr h' \<and> represents h' None (PT 0 ms) \<and>
    map (doc h') ms = [UT Element None ''p'' (Some []) [UT Text (Some ''a'') undefined_name (Some []) []],
      UT Element None ''h1'' (Some []) [],
      UT Element None ''p'' (Some []) [UT Text (Some ''b'') undefined_name (Some []) [], UT Element None ''b'' (Some []) []]]"
proof -
  have r: "represents div_store None (PT 0 ([] @ PT 1 [PT 2 [], PT 3 [], PT 4 [], PT 5 []] # []))"
    by (simp add: represents_def div_store_def new_uNode_def)
  show ?thesis using div_becomes_paragraphs [OF r] by (simp add: div_store_def new_uNode_def para_def tag_facts)
qed


end
