(* ===== verification/XssFilter.thy ===== *)
theory XssFilter
  imports DefaultFilter
begin

text \<open>
  \<open>plugins/xssFilter.js\<close>: the white list of elements and attributes that \<open>ueditor.config.js\<close> gives, applied to every
  element on the way in and on the way out by a walk over the tree. The walk is specified once, for every
  function that deletes a node or changes its attributes (the interface \<open>node_walk\<close>), as a function on
  documents, and the filter is an instance. The specification shows a gap: a node whose children are all deleted is
  not looked at any more.

  A value of the white list is an array of names. Names that are members of \<open>Object.prototype\<close> are outside
  the model.
\<close>

subsection \<open>The filter\<close>

type_synonym whitList = "string list jsobj"

text \<open>The loop over the attributes; \<open>setAttr\<close> with one argument deletes.\<close>

definition strip_attrs :: "string list \<Rightarrow> unode \<Rightarrow> unode" where
  "strip_attrs allowed n =
     foldl (\<lambda>n' key. if key \<in> set allowed then n' else setAttr key None n') n (obj_keys (attr_obj n))"

definition xss_filter :: "whitList \<Rightarrow> ptr \<Rightarrow> store \<Rightarrow> store res" where
  "xss_filter wl node h = (case obj_get wl (tagName (h ! node)) of
     None \<Rightarrow> delete_node node h
   | Some allowed \<Rightarrow> Inr (upd node (strip_attrs allowed) h))"

definition xss_node :: "whitList \<Rightarrow> ptr \<Rightarrow> store \<Rightarrow> store res" where
  "xss_node wl node h = (if ntype (h ! node) \<noteq> Element then Inr h else xss_filter wl node h)"

text \<open>The walk, with a bound that is shown to be enough.\<close>

definition xss_rule :: "whitList \<Rightarrow> ptr \<Rightarrow> store \<Rightarrow> store res" where
  "xss_rule wl root h = traversal_res (2 * length h) (xss_node wl) root h"

record xss_config =
  whitList :: "whitList option"
  xssFilterRules :: bool
  inputXssFilter :: bool
  outputXssFilter :: bool

text \<open>What the plugin adds to an editor: the rules for \<open>filterNode\<close>, an input rule, an output rule.\<close>

record xss_plugin =
  filterRules :: "rule jsobj option"
  xss_input :: "(ptr \<Rightarrow> store \<Rightarrow> store res) list"
  xss_output :: "(ptr \<Rightarrow> store \<Rightarrow> store res) list"

definition xss_rules :: "whitList \<Rightarrow> rule jsobj" where
  "xss_rules wl = map (\<lambda>(key, _). (key, RFun (\<lambda>node h. case xss_filter wl node h of Inr h' \<Rightarrow> h' | Inl _ \<Rightarrow> h))) wl"

definition xssFilter :: "xss_config \<Rightarrow> xss_plugin" where
  "xssFilter config = (case whitList config of
     None \<Rightarrow> \<lparr>filterRules = None, xss_input = [], xss_output = []\<rparr>
   | Some wl \<Rightarrow>
       \<lparr>filterRules = (if xssFilterRules config then Some (xss_rules wl) else None),
        xss_input = (if inputXssFilter config then [xss_rule wl] else []),
        xss_output = (if outputXssFilter config then [xss_rule wl] else [])\<rparr>)"

subsection \<open>What a walk does to a document\<close>

type_synonym attr_map = "string option jsobj option"

fun walked :: "(node_type \<Rightarrow> string \<Rightarrow> attr_map \<Rightarrow> attr_map option) \<Rightarrow> utree \<Rightarrow> utree list" where
  "walked act (UT ty d tg ats ts) =
     (let ts' = concat (map (walked act) ts) in
      if ts \<noteq> [] \<and> ts' = [] then [UT ty d tg ats []]
      else (case act ty tg ats of None \<Rightarrow> [] | Some a \<Rightarrow> [UT ty d tg a ts']))"

text \<open>A part of the walk touches the nodes of \<open>S\<close> and the child list of \<open>q\<close>.\<close>

definition stays :: "store \<Rightarrow> store \<Rightarrow> ptr \<Rightarrow> ptr set \<Rightarrow> bool" where
  "stays h h' q S \<longleftrightarrow> length h' = length h \<and> (\<forall>r. r \<notin> S \<longrightarrow> r \<noteq> q \<longrightarrow> h' ! r = h ! r) \<and>
     (\<exists>cs. h' ! q = (h ! q)\<lparr>children := cs\<rparr> \<and> (children (h ! q) \<noteq> None \<longrightarrow> cs \<noteq> None))"

lemma stays_refl [simp]: "stays h h q S"
  by (auto simp: stays_def intro!: exI [of _ "children (h ! q)"])

lemma stays_trans: "stays h h1 q S \<Longrightarrow> stays h1 h2 q T \<Longrightarrow> stays h h2 q (S \<union> T)"
  unfolding stays_def by (elim conjE exE) auto

lemma stays_mono: "stays h h' q S \<Longrightarrow> S \<subseteq> T \<Longrightarrow> stays h h' q T"
  unfolding stays_def by blast

lemma doc_frame: "(\<And>r. r \<in> set (ptrs t) \<Longrightarrow> h' ! r = h ! r) \<Longrightarrow> doc h' t = doc h t"
  by (induction t) auto

lemma docs_frame: "(\<And>r. r \<in> set (concat (map ptrs ts)) \<Longrightarrow> h' ! r = h ! r) \<Longrightarrow> map (doc h') ts = map (doc h) ts"
  by (auto intro!: doc_frame)

text \<open>A subtree may change under its parent.\<close>

lemma represents_within:
  assumes r: "represents h par (PT q (us @ PT c ts # vs))" and r1: "represents h1 (Some q) (PT c ms)"
    and s: "stays h h1 c (set (concat (map ptrs ts)))" and m: "set (concat (map ptrs ms)) \<subseteq> set (concat (map ptrs ts))"
  shows "represents h1 par (PT q (us @ PT c ms # vs))"
proof -
  let ?T = "insert c (set (concat (map ptrs ts)))"
  have d: "distinct (ptrs (PT q (us @ PT c ts # vs)))" using r by (simp add: represents_def)
  have out: "h1 ! x = h ! x" if "x \<notin> ?T" for x using s that by (simp add: stays_def)
  have q: "q \<notin> ?T" using d by auto
  have "rep h1 (Some q) u" if "u \<in> set us \<union> set vs" for u
  proof (rule rep_frame [of h])
    show "rep h (Some q) u" using r that by (auto simp: represents_def list_all_iff)
    fix x assume "x \<in> set (ptrs u)"
    then have "x \<notin> ?T" using d that by auto
    then show "same_links h h1 x" using out s by (simp add: same_links_def stays_def)
  qed
  then have "rep h1 par (PT q (us @ PT c ms # vs))"
    using r r1 out [OF q] s by (auto simp: represents_def list_all_iff stays_def)
  moreover have "distinct (concat (map ptrs ms))" using r1 by (simp add: represents_def)
  then have "distinct (ptrs (PT q (us @ PT c ms # vs)))"
    using d m by (simp only: ptrs.simps map_append list.map concat_append concat.simps distinct.simps distinct_append set_append set_simps) blast
  ultimately show ?thesis by (simp add: represents_def)
qed

subsection \<open>Walks\<close>

text \<open>The contract: the function deletes the node or gives it other attributes, depending on its kind, tag and attributes.\<close>

locale node_walk =
  fixes fn :: "ptr \<Rightarrow> store \<Rightarrow> store res"
    and act :: "node_type \<Rightarrow> string \<Rightarrow> attr_map \<Rightarrow> attr_map option"
  assumes drop: "parentNode (h ! p) = Some q \<Longrightarrow> act (ntype (h ! p)) (tagName (h ! p)) (attrs (h ! p)) = None \<Longrightarrow>
      fn p h = Inr (fst (removeChild q p False h))"
    and keep: "act (ntype (h ! p)) (tagName (h ! p)) (attrs (h ! p)) = Some a \<Longrightarrow>
      fn p h = Inr (upd p (\<lambda>n. n\<lparr>attrs := a\<rparr>) h)"
begin

definition visits :: "ptree \<Rightarrow> bool" where
  "visits t \<longleftrightarrow> (\<forall>h par q us vs k. represents h par (PT q (us @ t # vs)) \<longrightarrow> 2 * length (ptrs t) \<le> k \<longrightarrow>
     (\<exists>h' ms. traverse_res (Suc k) fn q (length us) h = traverse_res k fn q (length us + length ms) h' \<and>
        represents h' par (PT q (us @ ms @ vs)) \<and> map (doc h') ms = walked act (doc h t) \<and>
        set (concat (map ptrs ms)) \<subseteq> set (ptrs t) \<and> stays h h' q (set (ptrs t))))"

lemma visits_all:
  assumes "\<And>x. x \<in> set xs \<Longrightarrow> visits x" "represents h par (PT c (us @ xs))" "2 * length (concat (map ptrs xs)) + 1 \<le> k"
  shows "\<exists>h' ms. traverse_res k fn c (length us) h = Inr h' \<and> represents h' par (PT c (us @ ms)) \<and>
    map (doc h') ms = concat (map (walked act) (map (doc h) xs)) \<and>
    set (concat (map ptrs ms)) \<subseteq> set (concat (map ptrs xs)) \<and> stays h h' c (set (concat (map ptrs xs)))"
  using assms
proof (induction xs arbitrary: h us k)
  case Nil
  then obtain k' where "k = Suc k'" by (cases k) auto
  moreover have "kids h c = map proot us" using Nil.prems by (simp add: represents_def)
  ultimately have "traverse_res k fn c (length us) h = Inr h" by (simp add: nth_opt_def)
  then show ?case using Nil.prems by (intro exI [of _ h] exI [of _ "[]"]) simp
next
  case (Cons x xs)
  obtain k' where k: "k = Suc k'" using Cons.prems(3) by (cases k) auto
  have lx: "1 \<le> length (ptrs x)" by (cases x) simp
  have "2 * length (ptrs x) \<le> k'" using Cons.prems(3) k by simp
  then obtain h1 ms1 where 1: "traverse_res k fn c (length us) h = traverse_res k' fn c (length us + length ms1) h1"
      "represents h1 par (PT c (us @ ms1 @ xs))" "map (doc h1) ms1 = walked act (doc h x)"
      "set (concat (map ptrs ms1)) \<subseteq> set (ptrs x)" "stays h h1 c (set (ptrs x))"
    using Cons.prems(1) [of x] Cons.prems(2) unfolding visits_def k by (metis list.set_intros(1))
  have r1: "represents h1 par (PT c ((us @ ms1) @ xs))" using 1(2) by simp
  have v: "visits y" if "y \<in> set xs" for y using Cons.prems(1) that by simp
  have "2 * length (concat (map ptrs xs)) + 1 \<le> k'" using Cons.prems(3) k lx by simp
  from Cons.IH [OF v r1 this] obtain h2 ms2 where 2: "traverse_res k' fn c (length (us @ ms1)) h1 = Inr h2"
      "represents h2 par (PT c ((us @ ms1) @ ms2))" "map (doc h2) ms2 = concat (map (walked act) (map (doc h1) xs))"
      "set (concat (map ptrs ms2)) \<subseteq> set (concat (map ptrs xs))" "stays h1 h2 c (set (concat (map ptrs xs)))" by blast
  have "distinct (ptrs (PT c (us @ x # xs)))" using Cons.prems(2) by (simp add: represents_def)
  then have d: "c \<notin> set (concat (map ptrs xs))" "c \<notin> set (ptrs x)" "set (ptrs x) \<inter> set (concat (map ptrs xs)) = {}" by auto
  have "h1 ! r = h ! r" if "r \<in> set (concat (map ptrs xs))" for r
  proof -
    have "r \<notin> set (ptrs x)" "r \<noteq> c" using d that by blast+
    then show ?thesis using 1(5) by (simp add: stays_def)
  qed
  then have "map (doc h1) xs = map (doc h) xs" by (rule docs_frame)
  moreover have "h2 ! r = h1 ! r" if "r \<in> set (concat (map ptrs ms1))" for r
  proof -
    have "r \<notin> set (concat (map ptrs xs))" "r \<noteq> c" using d that 1(4) by blast+
    then show ?thesis using 2(5) by (simp add: stays_def)
  qed
  then have "map (doc h2) ms1 = map (doc h1) ms1" by (rule docs_frame)
  ultimately have "map (doc h2) (ms1 @ ms2) = concat (map (walked act) (map (doc h) (x # xs)))"
    using 1(3) 2(3) by (simp only: map_append list.map concat.simps)
  moreover have "stays h h2 c (set (concat (map ptrs (x # xs))))" using stays_trans [OF 1(5) 2(5)] by simp
  ultimately show ?case using 1(1,4) 2(1,2,4) by (intro exI [of _ h2] exI [of _ "ms1 @ ms2"]) auto
qed

lemma removed:
  assumes "represents h par (PT q (us @ PT c ms # vs))" "h' = fst (removeChild q c False h)"
  shows "represents h' par (PT q (us @ vs)) \<and> parentNode (h' ! c) = None \<and> stays h h' q {c}"
proof -
  have s: "sub q (PT q (us @ PT c ms # vs)) = us @ PT c ms # vs" by (simp add: here_simps)
  note rr = removeChild_rep [OF assms(1) _ s, simplified, folded assms(2)]
  have "parentNode (h' ! c) = None" using rr(3) rep_parent [of h' None "PT c ms"] by (simp add: represents_def)
  moreover have "q \<noteq> c" using assms(1) by (auto simp: represents_def)
  then have "stays h h' q {c}"
    unfolding assms(2) removeChild_def by (auto simp: stays_def link_simps Let_def split: option.splits intro: exI [of _ "children (h ! q)"])
  ultimately show ?thesis using rr(2) by (simp add: here_simps)
qed

lemma changed:
  assumes "represents h par (PT q (us @ PT c ms # vs))" "h' = upd c (\<lambda>n. n\<lparr>attrs := a\<rparr>) h"
  shows "represents h' par (PT q (us @ PT c ms # vs)) \<and> parentNode (h' ! c) = Some q \<and> kids h' c = map proot ms \<and> stays h h' q {c} \<and>
    doc h' (PT c ms) = UT (ntype (h ! c)) (data (h ! c)) (tagName (h ! c)) a (map (doc h) ms)"
proof -
  have c: "c < length h" "parentNode (h ! c) = Some q" "kids h c = map proot ms" and d: "distinct (ptrs (PT q (us @ PT c ms # vs)))"
    using assms(1) by (auto simp: represents_def)
  have e: "h' ! r = (if r = c then (h ! c)\<lparr>attrs := a\<rparr> else h ! r)" for r
    using c assms(2) by (simp add: upd_def nth_list_update)
  have l: "length h' = length h" using assms(2) by (simp add: upd_def)
  have "same_links h h' r" for r by (simp add: same_links_def e l)
  then have "represents h' par (PT q (us @ PT c ms # vs))" using assms(1) rep_frame unfolding represents_def by blast
  moreover have "map (doc h') ms = map (doc h) ms" using d by (intro docs_frame) (auto simp: e)
  moreover have "q \<noteq> c" using d by auto
  ultimately show ?thesis using c by (auto simp: e l stays_def intro: exI [of _ "children (h ! q)"])
qed

lemma visits_node:
  assumes IH: "\<And>x. x \<in> set ts \<Longrightarrow> visits x"
  shows "visits (PT c ts)"
  unfolding visits_def
proof (intro allI impI)
  fix h par q us vs k assume r: "represents h par (PT q (us @ PT c ts # vs))" and kk: "2 * length (ptrs (PT c ts)) \<le> k"
  let ?goal = "\<lambda>h' ms. traverse_res (Suc k) fn q (length us) h = traverse_res k fn q (length us + length ms) h' \<and>
      represents h' par (PT q (us @ ms @ vs)) \<and> map (doc h') ms = walked act (doc h (PT c ts)) \<and>
      set (concat (map ptrs ms)) \<subseteq> set (ptrs (PT c ts)) \<and> stays h h' q (set (ptrs (PT c ts)))"
  have nx: "nth_opt (kids h q) (length us) = Some c" using r by (simp add: represents_def nth_opt_def nth_append)
  note tr = traverse_res.simps(2) [of k fn q "length us" h, unfolded nx option.case]
  obtain k' where k: "k = Suc k'" using kk by (cases k) auto
  have rc: "represents h (Some q) (PT c ([] @ ts))" and kc: "kids h c = map proot ts"
    using r by (auto simp: represents_def)
  have "2 * length (concat (map ptrs ts)) + 1 \<le> k'" using kk k by simp
  then obtain h1 ms where 1: "traverse_res k' fn c 0 h = Inr h1" "represents h1 (Some q) (PT c ms)"
      "map (doc h1) ms = concat (map (walked act) (map (doc h) ts))" "set (concat (map ptrs ms)) \<subseteq> set (concat (map ptrs ts))"
      "stays h h1 c (set (concat (map ptrs ts)))"
    using visits_all [OF IH rc] unfolding append_Nil list.size by blast
  note r1 = represents_within [OF r 1(2,5,4)]
  have c1: "ntype (h1 ! c) = ntype (h ! c)" "data (h1 ! c) = data (h ! c)" "tagName (h1 ! c) = tagName (h ! c)" "attrs (h1 ! c) = attrs (h ! c)"
    using 1(5) by (auto simp: stays_def)
  have k1: "kids h1 c = map proot ms" "parentNode (h1 ! c) = Some q" "q \<notin> insert c (set (concat (map ptrs ts)))"
    using 1(2) r by (auto simp: represents_def)
  have st: "stays h h1 q (set (ptrs (PT c ts)))" using 1(5) k1(3) unfolding stays_def by (auto intro: exI [of _ "children (h ! q)"])
  have nt: "nodeTraversal_res k fn c h = (if ts = [] then fn c h else Inr h1)" using kc 1(1) k by simp
  have fin: "stays h h1 q (set (ptrs (PT c ts))) \<Longrightarrow> stays h1 h2 q {c} \<Longrightarrow> stays h h2 q (set (ptrs (PT c ts)))" for h2
    using stays_trans [of h h1 q "set (ptrs (PT c ts))" h2 "{c}"] by (simp add: insert_absorb)
  have e: "ts = [] \<Longrightarrow> h1 = h \<and> ms = []"
    using 1 kc k kk by (cases k') (auto simp: nth_opt_def)
  show "\<exists>h' ms. ?goal h' ms"
  proof (cases "ts \<noteq> [] \<and> ms = []")
    case True
    then have "doc h1 (PT c []) = UT (ntype (h ! c)) (data (h ! c)) (tagName (h ! c)) (attrs (h ! c)) []" by (simp add: c1)
    moreover have "traverse_res (Suc k) fn q (length us) h = traverse_res k fn q (Suc (length us)) h1" unfolding tr using True nt k1 by simp
    moreover have "walked act (doc h (PT c ts)) = [UT (ntype (h ! c)) (data (h ! c)) (tagName (h ! c)) (attrs (h ! c)) []]"
      using True 1(3) by simp
    ultimately have "?goal h1 [PT c []]" using True r1 st by simp
    then show ?thesis by blast
  next
    case False
    then have w: "walked act (doc h (PT c ts)) = (case act (ntype (h ! c)) (tagName (h ! c)) (attrs (h ! c)) of None \<Rightarrow> []
        | Some a \<Rightarrow> [UT (ntype (h ! c)) (data (h ! c)) (tagName (h ! c)) a (map (doc h1) ms)])"
      unfolding doc.simps walked.simps Let_def 1(3) [symmetric] by (auto split: option.split)
    show ?thesis
    proof (cases "act (ntype (h1 ! c)) (tagName (h1 ! c)) (attrs (h1 ! c))")
      case None
      let ?h2 = "fst (removeChild q c False h1)"
      note rm = removed [OF r1 refl]
      have "fn c h1 = Inr ?h2" using drop None k1 by blast
      then have "traverse_res (Suc k) fn q (length us) h = traverse_res k fn q (length us) ?h2" unfolding tr using False e nt k1 rm by (cases "ts = []") auto
      then have "?goal ?h2 []" using rm w None fin [OF st] by (simp add: c1)
      then show ?thesis by blast
    next
      case (Some a)
      let ?h2 = "upd c (\<lambda>n. n\<lparr>attrs := a\<rparr>) h1"
      note ch = changed [OF r1 refl, of a]
      have "fn c h1 = Inr ?h2" using keep Some by blast
      then have "traverse_res (Suc k) fn q (length us) h = traverse_res k fn q (Suc (length us)) ?h2" unfolding tr using False e nt k1 ch by (cases "ts = []") auto
      then have "?goal ?h2 [PT c ms]" using ch w Some fin [OF st] 1(4) by (auto simp: c1)
      then show ?thesis by blast
    qed
  qed
qed

lemma visits_tree: "visits t"
  by (induction t) (rule visits_node)

lemma traversal_walks:
  assumes "represents h par (PT root ts)"
  shows "\<exists>h' ms. traversal_res (2 * length h) fn root h = Inr h' \<and> represents h' par (PT root ms) \<and>
    map (doc h') ms = concat (map (walked act) (map (doc h) ts)) \<and> stays h h' root (set (concat (map ptrs ts)))"
proof (cases "ts = []")
  case True
  then show ?thesis using assms by (auto simp: traversal_res_def represents_def)
next
  case False
  have kd: "kids h root = map proot ts" using assms by (simp add: represents_def)
  have l: "length (ptrs (PT root ts)) \<le> length h" using represents_size [OF assms] .
  then obtain k where k: "2 * length h = Suc k" by (cases "2 * length h") auto
  have "2 * length (concat (map ptrs ts)) + 1 \<le> k" using l k by simp
  moreover have r: "represents h par (PT root ([] @ ts))" using assms by simp
  ultimately show ?thesis using visits_all [OF visits_tree r, of k] False kd by (auto simp: traversal_res_def k)
qed

end

subsection \<open>The filter as a walk\<close>

definition strip_obj :: "string list \<Rightarrow> attr_map \<Rightarrow> attr_map" where
  "strip_obj allowed ats =
     (let ob = (\<lambda>x. case x of None \<Rightarrow> [] | Some a \<Rightarrow> a) in
      foldl (\<lambda>x key. if key \<in> set allowed then x else if key = [] then None else Some (obj_del key (ob x)))
        ats (obj_keys (ob ats)))"

definition xss_act :: "whitList \<Rightarrow> node_type \<Rightarrow> string \<Rightarrow> attr_map \<Rightarrow> attr_map option" where
  "xss_act wl ty tg ats = (if ty \<noteq> Element then Some ats else map_option (\<lambda>allowed. strip_obj allowed ats) (obj_get wl tg))"

lemma strip_attrs_obj: "strip_attrs allowed n = n\<lparr>attrs := strip_obj allowed (attrs n)\<rparr>"
proof -
  let ?ob = "\<lambda>x. case x of None \<Rightarrow> [] | Some a \<Rightarrow> a"
  have "foldl (\<lambda>n' key. if key \<in> set allowed then n' else setAttr key None n') n ks =
      n\<lparr>attrs := foldl (\<lambda>x key. if key \<in> set allowed then x else if key = [] then None else Some (obj_del key (?ob x))) (attrs n) ks\<rparr>"
    for ks n
    by (induction ks arbitrary: n) (auto simp: setAttr_def delAttrs_def attr_obj_def)
  then show ?thesis by (simp add: strip_attrs_def strip_obj_def attr_obj_def Let_def)
qed

interpretation xw: node_walk "xss_node wl" "xss_act wl" for wl
proof unfold_locales
  fix h :: store and p q assume "parentNode (h ! p) = Some q" "xss_act wl (ntype (h ! p)) (tagName (h ! p)) (attrs (h ! p)) = None"
  then show "xss_node wl p h = Inr (fst (removeChild q p False h))"
    by (auto simp: xss_act_def xss_node_def xss_filter_def delete_node_def split: if_splits option.splits)
next
  fix h :: store and p a assume "xss_act wl (ntype (h ! p)) (tagName (h ! p)) (attrs (h ! p)) = Some a"
  then show "xss_node wl p h = Inr (upd p (\<lambda>n. n\<lparr>attrs := a\<rparr>) h)"
    by (auto simp: xss_act_def xss_node_def xss_filter_def upd_def strip_attrs_obj split: if_splits option.splits)
qed

text \<open>What the white list permits of an element.\<close>

definition permitted :: "whitList \<Rightarrow> string \<Rightarrow> attr_map \<Rightarrow> bool" where
  "permitted wl tg ats \<longleftrightarrow> (\<exists>allowed. obj_get wl tg = Some allowed \<and> (\<forall>a. ats = Some a \<longrightarrow> set (obj_keys a) \<subseteq> set allowed))"

fun all_permitted :: "whitList \<Rightarrow> utree \<Rightarrow> bool" where
  "all_permitted wl (UT ty d tg ats ts) \<longleftrightarrow> (ty = Element \<longrightarrow> permitted wl tg ats) \<and> list_all (all_permitted wl) ts"

fun inner_permitted :: "whitList \<Rightarrow> utree \<Rightarrow> bool" where
  "inner_permitted wl (UT ty d tg ats ts) \<longleftrightarrow>
     (ty = Element \<and> ts \<noteq> [] \<longrightarrow> permitted wl tg ats) \<and> list_all (inner_permitted wl) ts"

text \<open>No node loses all its children.\<close>

fun never_emptied :: "whitList \<Rightarrow> utree \<Rightarrow> bool" where
  "never_emptied wl (UT ty d tg ats ts) \<longleftrightarrow>
     (ts = [] \<or> list_ex (\<lambda>t. walked (xss_act wl) t \<noteq> []) ts) \<and> list_all (never_emptied wl) ts"

lemma keys_del: "fst ` set (obj_del k a) = fst ` set a - {k}"
  by (induction a) auto

lemma strip_obj_keys: "strip_obj allowed ats = Some a \<Longrightarrow> set (obj_keys a) \<subseteq> set allowed"
proof -
  let ?ob = "\<lambda>x. case x of None \<Rightarrow> [] | Some a \<Rightarrow> a"
  let ?f = "\<lambda>x key. if key \<in> set allowed then x else if key = [] then None else Some (obj_del key (?ob x))"
  have "set (obj_keys (?ob (foldl ?f x ks))) \<subseteq> set allowed" if "set (obj_keys (?ob x)) \<subseteq> set allowed \<union> set ks" for ks x
    using that
  proof (induction ks arbitrary: x)
    case (Cons k ks)
    have "set (obj_keys (?ob (?f x k))) \<subseteq> set allowed \<union> set ks" using Cons.prems by (cases x) (auto simp: keys_del)
    then show ?case using Cons.IH by simp
  qed simp
  from this [of ats "obj_keys (?ob ats)"] show "strip_obj allowed ats = Some a \<Longrightarrow> set (obj_keys a) \<subseteq> set allowed"
    by (simp add: strip_obj_def Let_def)
qed

lemma xss_act_permitted: "xss_act wl Element tg ats = Some a \<Longrightarrow> permitted wl tg a"
  using strip_obj_keys by (auto simp: xss_act_def permitted_def)

lemma walked_inner: "list_all (inner_permitted wl) (walked (xss_act wl) t)"
proof (induction t)
  case (UT ty d tg ats ts)
  then have "list_all (inner_permitted wl) (concat (map (walked (xss_act wl)) ts))" by (auto simp: list_all_iff)
  then show ?case using xss_act_permitted by (cases ty) (auto simp: Let_def split: option.split)
qed

lemma walked_permitted: "never_emptied wl t \<Longrightarrow> list_all (all_permitted wl) (walked (xss_act wl) t)"
proof (induction t)
  case (UT ty d tg ats ts)
  then have "list_all (all_permitted wl) (concat (map (walked (xss_act wl)) ts))" by (auto simp: list_all_iff)
  moreover have "\<not> (ts \<noteq> [] \<and> concat (map (walked (xss_act wl)) ts) = [])" using UT.prems by (auto simp: list_ex_iff)
  ultimately show ?case using xss_act_permitted by (cases ty) (auto simp: Let_def split: option.split)
qed

subsection \<open>Properties\<close>

text \<open>C6. The filter on a tree: it always returns, keeps the links consistent, and the document it leaves is the one that the
  specification \<open>walked\<close> gives. Every element with children in the result is on the white list with permitted attributes only, and when
  no element lost all its children, every element of the result is.\<close>

theorem xss_rule_cleans:
  assumes "represents h par (PT root ts)"
  shows "\<exists>h' ms. xss_rule wl root h = Inr h' \<and> represents h' par (PT root ms) \<and>
    map (doc h') ms = concat (map (walked (xss_act wl)) (map (doc h) ts)) \<and>
    list_all (inner_permitted wl) (map (doc h') ms) \<and>
    (list_all (never_emptied wl) (map (doc h) ts) \<longrightarrow> list_all (all_permitted wl) (map (doc h') ms))"
proof -
  obtain h' ms where w: "xss_rule wl root h = Inr h'" "represents h' par (PT root ms)"
      "map (doc h') ms = concat (map (walked (xss_act wl)) (map (doc h) ts))"
    using xw.traversal_walks [OF assms] unfolding xss_rule_def by blast
  moreover have "list_all (inner_permitted wl) (map (doc h') ms)" unfolding w(3) using walked_inner by (auto simp: list_all_iff)
  moreover have "list_all (all_permitted wl) (map (doc h') ms)" if "list_all (never_emptied wl) (map (doc h) ts)"
    unfolding w(3) using that walked_permitted by (fastforce simp: list_all_iff)
  ultimately show ?thesis by blast
qed

definition xss_store :: store where
  "xss_store = [new_uNode Root None undefined_name None None (Some [1, 3]),
     new_uNode Element None ''p'' (Some 0) (Some [(''onclick'', Some ''f()''), (''class'', Some ''c'')]) (Some [2]),
     new_uNode Text (Some ''x'') undefined_name (Some 1) None None,
     new_uNode Element None ''iframe'' (Some 0) (Some [(''src'', Some ''u'')]) (Some [])]"

theorem xss_rule_cleans_witness:
  "\<exists>h' ms. xss_rule [(''p'', [''class''])] 0 xss_store = Inr h' \<and> represents h' None (PT 0 ms) \<and>
    list_all (all_permitted [(''p'', [''class''])]) (map (doc h') ms)"
proof -
  have "represents xss_store None (PT 0 [PT 1 [PT 2 []], PT 3 []])" by (simp add: represents_def xss_store_def new_uNode_def)
  from xss_rule_cleans [OF this, of "[(''p'', [''class''])]"] show ?thesis
    by (auto simp: xss_store_def new_uNode_def xss_act_def strip_obj_def)
qed

text \<open>C7. The gap: an element that is not on the white list and has only children that are deleted is never looked at again after they are
  gone, and stays in the document with all its attributes.\<close>

theorem xss_rule_bypassed:
  assumes "represents h par (PT root [PT p (map (\<lambda>c. PT c []) (c # cs))])"
    and "\<forall>x \<in> set (c # cs). ntype (h ! x) = Element \<and> obj_get wl (tagName (h ! x)) = None"
  shows "\<exists>h' r. xss_rule wl root h = Inr h' \<and> represents h' par (PT root [PT r []]) \<and>
    ntype (h' ! r) = ntype (h ! p) \<and> tagName (h' ! r) = tagName (h ! p) \<and> attrs (h' ! r) = attrs (h ! p)"
proof -
  obtain h' ms where w: "xss_rule wl root h = Inr h'" "represents h' par (PT root ms)"
      "map (doc h') ms = concat (map (walked (xss_act wl)) (map (doc h) [PT p (map (\<lambda>c. PT c []) (c # cs))]))"
    using xw.traversal_walks [OF assms(1)] unfolding xss_rule_def by blast
  have "walked (xss_act wl) (doc h (PT x [])) = []" if "x \<in> set (c # cs)" for x using assms(2) that by (auto simp: xss_act_def)
  then have "concat (map (walked (xss_act wl)) (map (doc h) (map (\<lambda>c. PT c []) (c # cs)))) = []" by auto
  then have "map (doc h') ms = [UT (ntype (h ! p)) (data (h ! p)) (tagName (h ! p)) (attrs (h ! p)) []]"
    using w(3) by (auto simp: Let_def)
  then obtain t where t: "ms = [t]" "doc h' t = UT (ntype (h ! p)) (data (h ! p)) (tagName (h ! p)) (attrs (h ! p)) []" by auto
  obtain r us where "t = PT r us" by (cases t)
  then show ?thesis using w(1,2) t by auto
qed

definition bypass_store :: store where
  "bypass_store = [new_uNode Root None undefined_name None None (Some [1]),
     new_uNode Element None ''iframe'' (Some 0) (Some [(''onload'', Some ''f()'')]) (Some [2]),
     new_uNode Element None ''x'' (Some 1) None (Some [])]"

theorem xss_rule_bypassed_witness:
  "\<exists>h' r. xss_rule [(''p'', [''class''])] 0 bypass_store = Inr h' \<and> represents h' None (PT 0 [PT r []]) \<and>
    tagName (h' ! r) = ''iframe'' \<and> attrs (h' ! r) = Some [(''onload'', Some ''f()'')]"
proof -
  have "represents bypass_store None (PT 0 [PT 1 (map (\<lambda>c. PT c []) [2])])" by (simp add: represents_def bypass_store_def new_uNode_def)
  from xss_rule_bypassed [OF this, of "[(''p'', [''class''])]"] show ?thesis by (auto simp: bypass_store_def new_uNode_def)
qed

end
