(* ===== verification/PluginRules.thy ===== *)
theory PluginRules
  imports XssFilter
begin

text \<open>
  The filter rules of smaller plugins: \<open>plugins/basestyle.js\<close>, \<open>plugins/font.js\<close>, \<open>plugins/anchor.js\<close>, \<open>plugins/charts.js\<close>,
  \<open>plugins/autoupload.js\<close>, \<open>plugins/simpleupload.js\<close> and the drag line of \<open>plugins/table.plugin.js\<close>. They have one
  shape: \<open>utils.each(root.getNodesByTagName(tags), ..)\<close> with a function that rewrites the node (the interface
  \<open>rewriting\<close>) or deletes it under a condition (the interface \<open>deleting\<close>). For each shape the effect on the document
  is proved once.
\<close>

subsection \<open>The shapes\<close>

definition each_tag :: "string \<Rightarrow> (unode \<Rightarrow> unode) \<Rightarrow> ptr \<Rightarrow> store \<Rightarrow> store res" where
  "each_tag tags f root h = bind_res (getNodesByTagName h root tags) (\<lambda>ns. fold_store (\<lambda>n h. Inr (upd n f h)) ns h)"

definition delete_tag :: "string \<Rightarrow> (unode \<Rightarrow> bool) \<Rightarrow> ptr \<Rightarrow> store \<Rightarrow> store res" where
  "delete_tag tags c root h = bind_res (getNodesByTagName h root tags)
     (\<lambda>ns. fold_store (\<lambda>n h. if c (h ! n) then delete_node n h else Inr h) ns h)"

subsection \<open>The rules\<close>

definition basestyle_node :: "unode \<Rightarrow> unode" where
  "basestyle_node n =
     (if tagName n = ''b'' then n\<lparr>tagName := ''strong''\<rparr> else if tagName n = ''i'' then n\<lparr>tagName := ''em''\<rparr> else n)"

definition basestyle_in :: "ptr \<Rightarrow> store \<Rightarrow> store res" where
  "basestyle_in = each_tag ''b i'' basestyle_node"

text \<open>The attributes of a \<open>font\<close>. A value that is \<open>undefined\<close> is spelled out in a concatenation, and empty in a \<open>join\<close>.\<close>

definition shown :: "string option \<Rightarrow> string" where
  "shown v = (case v of Some s \<Rightarrow> s | None \<Rightarrow> undefined_name)"

definition font_sizes :: "(string \<times> string) list" where
  "font_sizes = [(''1'', ''10''), (''2'', ''12''), (''3'', ''16''), (''4'', ''18''), (''5'', ''24''), (''6'', ''32''), (''7'', ''48'')]"

definition font_css :: "string \<times> string option \<Rightarrow> string list" where
  "font_css av = (case av of (p, v) \<Rightarrow>
     if p = ''size'' then [''font-size:'' @ (case map_of font_sizes (shown v) of Some px \<Rightarrow> px | None \<Rightarrow> shown v) @ ''px'']
     else if p = ''color'' then [''color:'' @ shown v]
     else if p = ''face'' then [''font-family:'' @ shown v]
     else if p = ''style'' then [case v of Some s \<Rightarrow> s | None \<Rightarrow> []]
     else [])"

definition font_node :: "unode \<Rightarrow> unode" where
  "font_node n =
     (let style = (if tagName n = ''font'' then join '';'' (concat (map font_css (attr_obj n)))
           else (case getAttr n ''style'' of Some s \<Rightarrow> s | None \<Rightarrow> []) @ ''text-decoration:'' @
             (if tagName n = ''u'' then ''underline'' else ''line-through'') @ '';'')
      in n\<lparr>attrs := Some [(''style'', Some style)], tagName := ''span''\<rparr>)"

definition font_in :: "ptr \<Rightarrow> store \<Rightarrow> store res" where
  "font_in = each_tag ''u s del font strike'' font_node"

definition anchor_in_node :: "unode \<Rightarrow> unode" where
  "anchor_in_node n = (case attr_val n ''name'' of
     Some v \<Rightarrow> if attr_val n ''href'' = None
       then setAttr ''name'' None (setAttr_obj [(''anchorname'', Some v), (''class'', Some ''anchorclass'')] (n\<lparr>tagName := ''img''\<rparr>))
       else n
   | None \<Rightarrow> n)"

definition anchor_in :: "ptr \<Rightarrow> store \<Rightarrow> store res" where
  "anchor_in = each_tag ''a'' anchor_in_node"

definition anchor_out_node :: "unode \<Rightarrow> unode" where
  "anchor_out_node n = (case attr_val n ''anchorname'' of
     Some v \<Rightarrow> setAttr_obj [(''anchorname'', Some []), (''name'', Some v), (''class'', Some [])] (n\<lparr>tagName := ''a''\<rparr>)
   | None \<Rightarrow> n)"

definition anchor_out :: "ptr \<Rightarrow> store \<Rightarrow> store res" where
  "anchor_out = each_tag ''img'' anchor_out_node"

definition charts_node :: "string option \<Rightarrow> unode \<Rightarrow> unode" where
  "charts_node style n = (if getAttr n ''data-chart'' \<noteq> None then setAttr ''style'' style n else n)"

definition charts_in :: "ptr \<Rightarrow> store \<Rightarrow> store res" where
  "charts_in = each_tag ''table'' (charts_node None)"

definition charts_out :: "ptr \<Rightarrow> store \<Rightarrow> store res" where
  "charts_out = each_tag ''table'' (charts_node (Some ''display: none;''))"

definition loaderror_re :: re where
  "loaderror_re = Alt (Seq Wb (Cap 1 (lit ''loaderrorclass''))) (Seq (Cap 2 (lit ''bloaderrorclass'')) Wb)"

definition loadpara_re :: re where
  "loadpara_re = Seq Wb (Seq (lit ''loadpara'') Wb)"

text \<open>\<open>test\<close> of a missing class tests the text \<open>undefined\<close>.\<close>

definition has_loaderror :: "unode \<Rightarrow> bool" where
  "has_loaderror n \<longleftrightarrow> test loaderror_re (shown (getAttr n ''class''))"

definition has_loadpara :: "unode \<Rightarrow> bool" where
  "has_loadpara n \<longleftrightarrow> test loadpara_re (shown (getAttr n ''class''))"

definition simpleupload_out :: "ptr \<Rightarrow> store \<Rightarrow> store res" where
  "simpleupload_out = delete_tag ''img'' has_loaderror"

definition autoupload_out :: "ptr \<Rightarrow> store \<Rightarrow> store res" where
  "autoupload_out root h = bind_res (delete_tag ''img'' has_loaderror root h) (delete_tag ''p'' has_loadpara root)"

definition is_dragline :: "unode \<Rightarrow> bool" where
  "is_dragline n \<longleftrightarrow> getAttr n ''id'' = Some ''ue_tableDragLine''"

definition dragline_out :: "ptr \<Rightarrow> store \<Rightarrow> store res" where
  "dragline_out = delete_tag ''div'' is_dragline"

subsection \<open>Which nodes are found\<close>

definition hit :: "store \<Rightarrow> string \<Rightarrow> ptr \<Rightarrow> bool" where
  "hit h tag p \<longleftrightarrow> ntype (h ! p) = Element \<and> tagName (h ! p) = tag"

lemma find_tag_hits: "rep h par t \<Longrightarrow> length (ptrs t) \<le> k \<Longrightarrow> find_tag k h tag (proot t) = Inr (filter (hit h tag) (ptrs t))"
proof (induction t arbitrary: par k)
  case (PT p ts)
  obtain k' where k: "k = Suc k'" using PT.prems(2) by (cases k) auto
  have kd: "kids h p = map proot ts" using PT.prems(1) by simp
  have "find_tag k' h tag (proot t) = Inr (filter (hit h tag) (ptrs t))" if "t \<in> set ts" for t
  proof (rule PT.IH [OF that])
    show "rep h (Some p) t" using PT.prems(1) that by (simp add: list_all_iff)
    show "length (ptrs t) \<le> k'" using length_ptrs_le [OF that] PT.prems(2) k by simp
  qed
  then have "seq_map (find_tag k' h tag) (map proot ts) = Inr (concat (map (\<lambda>t. filter (hit h tag) (ptrs t)) ts))"
    by (induction ts) auto
  then show ?case by (simp add: k kd filter_concat comp_def flip: hit_def)
qed

definition hits :: "store \<Rightarrow> string list \<Rightarrow> ptree list \<Rightarrow> ptr list" where
  "hits h tags ts = concat (map (\<lambda>tag. filter (hit h tag) (concat (map ptrs ts))) tags)"

lemma seq_map_all: "(\<And>x. x \<in> set xs \<Longrightarrow> f x = Inr (g x)) \<Longrightarrow> seq_map f xs = Inr (concat (map g xs))"
  by (induction xs) auto

lemma getNodes_hits:
  assumes "represents h par (PT root ts)"
  shows "getNodesByTagName h root tags = Inr (hits h (tag_list tags) ts)"
proof -
  have kd: "kids h root = map proot ts" using assms by (simp add: represents_def)
  have "find_tag (Suc (length h)) h tag (proot t) = Inr (filter (hit h tag) (ptrs t))" if "t \<in> set ts" for t tag
  proof (rule find_tag_hits)
    show "rep h (Some root) t" using assms that by (simp add: represents_def list_all_iff)
    show "length (ptrs t) \<le> Suc (length h)" using length_ptrs_le [OF that] represents_size [OF assms] by simp
  qed
  then have "seq_map (find_tag (Suc (length h)) h tag) (map proot ts) = Inr (filter (hit h tag) (concat (map ptrs ts)))" for tag
    by (induction ts) auto
  then show ?thesis unfolding getNodesByTagName_def kd hits_def by (intro seq_map_all) simp
qed

lemma set_hits: "p \<in> set (hits h tags ts) \<longleftrightarrow> p \<in> set (concat (map ptrs ts)) \<and> ntype (h ! p) = Element \<and> tagName (h ! p) \<in> set tags"
  by (auto simp: hits_def hit_def)

lemma distinct_hits: "distinct (concat (map ptrs ts)) \<Longrightarrow> distinct tags \<Longrightarrow> distinct (hits h tags ts)"
  by (induction tags) (auto simp: hits_def hit_def)

subsection \<open>Rewriting\<close>

fun rewritten :: "string list \<Rightarrow> (string \<Rightarrow> attr_map \<Rightarrow> string \<times> attr_map) \<Rightarrow> utree \<Rightarrow> utree" where
  "rewritten tags act (UT ty d tg ats ts) =
     (let (tg', ats') = (if ty = Element \<and> tg \<in> set tags then act tg ats else (tg, ats))
      in UT ty d tg' ats' (map (rewritten tags act) ts))"

lemma fold_upd:
  "distinct ns \<Longrightarrow> \<forall>p \<in> set ns. p < length h \<Longrightarrow>
   \<exists>h'. fold_store (\<lambda>n h. Inr (upd n f h)) ns h = Inr h' \<and> length h' = length h \<and> (\<forall>r. h' ! r = (if r \<in> set ns then f (h ! r) else h ! r))"
proof (induction ns arbitrary: h)
  case (Cons n ns)
  have u: "upd n f h ! r = (if r = n then f (h ! r) else h ! r)" for r using Cons.prems(2) by (simp add: upd_def nth_list_update)
  have "length (upd n f h) = length h" by (simp add: upd_def)
  then obtain h' where "fold_store (\<lambda>n h. Inr (upd n f h)) ns (upd n f h) = Inr h'" "length h' = length h"
      "\<forall>r. h' ! r = (if r \<in> set ns then f (upd n f h ! r) else upd n f h ! r)"
    using Cons.IH [of "upd n f h"] Cons.prems by auto
  then show ?case using Cons.prems(1) u by (intro exI [of _ h']) auto
qed simp

locale rewriting =
  fixes tags :: string and names :: "string list" and f :: "unode \<Rightarrow> unode"
    and act :: "string \<Rightarrow> attr_map \<Rightarrow> string \<times> attr_map"
  assumes names: "tag_list tags = names" "distinct names"
    and act: "f n = n\<lparr>tagName := fst (act (tagName n) (attrs n)), attrs := snd (act (tagName n) (attrs n))\<rparr>"
begin

lemma rewrites_document:
  assumes r: "represents h par (PT root ts)"
  shows "\<exists>h'. each_tag tags f root h = Inr h' \<and> represents h' par (PT root ts) \<and>
    map (doc h') ts = map (rewritten names act) (map (doc h) ts) \<and> h' ! root = h ! root"
proof -
  have d: "distinct (concat (map ptrs ts))" using r by (simp add: represents_def)
  have b: "p < length h" if "p \<in> set (ptrs (PT root ts))" for p using r rep_bound that unfolding represents_def by blast
  let ?ns = "hits h names ts"
  have "\<forall>p \<in> set ?ns. p < length h" using b by (auto simp: set_hits)
  then obtain h' where h': "fold_store (\<lambda>n h. Inr (upd n f h)) ?ns h = Inr h'" "length h' = length h"
      "\<And>r. h' ! r = (if r \<in> set ?ns then f (h ! r) else h ! r)"
    using fold_upd [OF distinct_hits [OF d names(2)], of h h f] by blast
  have "same_links h h' p" for p using h'(2,3) by (simp add: same_links_def act)
  then have "represents h' par (PT root ts)" using r rep_frame unfolding represents_def by blast
  moreover have "doc h' t = rewritten names act (doc h t)" if "set (ptrs t) \<subseteq> set (concat (map ptrs ts))" for t
    using that
  proof (induction t)
    case (PT p us)
    have "p \<in> set (concat (map ptrs ts))" using PT.prems by auto
    then have "p \<in> set ?ns \<longleftrightarrow> ntype (h ! p) = Element \<and> tagName (h ! p) \<in> set names" by (simp add: set_hits)
    moreover have "doc h' u = rewritten names act (doc h u)" if "u \<in> set us" for u using PT that by auto
    ultimately show ?case by (auto simp: h'(3) act split: prod.splits)
  qed
  then have "map (doc h') ts = map (rewritten names act) (map (doc h) ts)" by auto
  moreover have "root \<notin> set ?ns" using r by (auto simp: set_hits represents_def)
  then have "h' ! root = h ! root" by (simp add: h'(3))
  ultimately show ?thesis using h'(1) by (auto simp: each_tag_def getNodes_hits [OF r] names)
qed

end

text \<open>What a function on nodes that looks at the tag and the attributes does to them.\<close>

definition node_act :: "(unode \<Rightarrow> unode) \<Rightarrow> string \<Rightarrow> attr_map \<Rightarrow> string \<times> attr_map" where
  "node_act f tg ats = (let n = f \<lparr>ntype = Element, data = None, tagName = tg, parentNode = None, attrs = ats, children = None\<rparr>
     in (tagName n, attrs n))"

lemmas node_fn_defs = node_act_def basestyle_node_def font_node_def anchor_in_node_def anchor_out_node_def charts_node_def
  attr_val_def getAttr_def setAttr_def setAttr_obj_def attr_obj_def delAttrs_def

interpretation bs: rewriting "''b i''" "[''b'', ''i'']" basestyle_node "node_act basestyle_node"
proof unfold_locales
  show "tag_list ''b i'' = [''b'', ''i'']" by code_simp
qed (simp_all add: node_fn_defs)

interpretation ft: rewriting "''u s del font strike''" "[''u'', ''s'', ''del'', ''font'', ''strike'']" font_node "node_act font_node"
proof unfold_locales
  show "tag_list ''u s del font strike'' = [''u'', ''s'', ''del'', ''font'', ''strike'']" by code_simp
qed (simp_all add: node_fn_defs)

interpretation ai: rewriting "''a''" "[''a'']" anchor_in_node "node_act anchor_in_node"
proof unfold_locales
  show "tag_list ''a'' = [''a'']" by code_simp
qed (simp_all add: node_fn_defs split: option.splits list.splits)

interpretation ao: rewriting "''img''" "[''img'']" anchor_out_node "node_act anchor_out_node"
proof unfold_locales
  show "tag_list ''img'' = [''img'']" by code_simp
qed (simp_all add: node_fn_defs split: option.splits list.splits)

interpretation ch: rewriting "''table''" "[''table'']" "charts_node style" "node_act (charts_node style)" for style
proof unfold_locales
  show "tag_list ''table'' = [''table'']" by code_simp
qed (simp_all add: node_fn_defs)

subsection \<open>Deleting\<close>

fun pruned :: "string list \<Rightarrow> (attr_map \<Rightarrow> bool) \<Rightarrow> utree \<Rightarrow> utree list" where
  "pruned tags c (UT ty d tg ats ts) =
     (if ty = Element \<and> tg \<in> set tags \<and> c ats then [] else [UT ty d tg ats (concat (map (pruned tags c) ts))])"

text \<open>The tree without the subtrees at some nodes, and a store in which the links to these nodes are cut.\<close>

fun cut :: "ptr set \<Rightarrow> ptree \<Rightarrow> ptree" where
  "cut R (PT p ts) = PT p (map (cut R) (filter (\<lambda>t. proot t \<notin> R) ts))"

definition cut_links :: "store \<Rightarrow> ptr set \<Rightarrow> ptr set \<Rightarrow> store \<Rightarrow> bool" where
  "cut_links h0 S R h \<longleftrightarrow> length h = length h0 \<and> carries h0 h \<and>
     (\<forall>p. children (h0 ! p) \<noteq> None \<longrightarrow> children (h ! p) \<noteq> None) \<and>
     (\<forall>p \<in> S. kids h p = filter (\<lambda>c. c \<notin> R) (kids h0 p) \<and> parentNode (h ! p) = (if p \<in> R then None else parentNode (h0 ! p)))"

text \<open>The links of a tree: a child knows its parent, and child lists have no repetitions.\<close>

definition tree_links :: "store \<Rightarrow> ptr set \<Rightarrow> bool" where
  "tree_links h S \<longleftrightarrow> (\<forall>q \<in> S. q < length h \<and> distinct (kids h q) \<and> (\<forall>c \<in> set (kids h q). c \<in> S \<and> parentNode (h ! c) = Some q))"

lemma distinct_roots: "distinct (concat (map ptrs ts)) \<Longrightarrow> distinct (map proot ts)"
proof (induction ts)
  case (Cons t ts)
  have "set (ptrs t) \<inter> set (concat (map ptrs ts)) = {}" using Cons.prems by (simp only: list.map concat.simps distinct_append)
  moreover have "proot ` set ts \<subseteq> set (concat (map ptrs ts))" by (auto intro!: bexI)
  ultimately have "proot t \<notin> proot ` set ts" using proot_in_ptrs [of t] by blast
  then show ?case using Cons by simp
qed simp

lemma represents_links: "represents h par t \<Longrightarrow> tree_links h (set (ptrs t))"
  unfolding tree_links_def
proof (intro ballI)
  fix q assume r: "represents h par t" and q: "q \<in> set (ptrs t)"
  then have d: "distinct (ptrs t)" "rep h par t" by (auto simp: represents_def)
  note k = rep_sub [OF q d]
  have "distinct (map proot (sub q t))" using sub_distinct [OF q d(1)] distinct_roots by simp
  moreover have "proot c \<in> set (ptrs t)" if "c \<in> set (sub q t)" for c using ptrs_sub [OF that] proot_in_ptrs [of c] by blast
  moreover have "parentNode (h ! proot c) = Some q" if "c \<in> set (sub q t)" for c using k that rep_parent by (auto simp: list_all_iff)
  ultimately show "q < length h \<and> distinct (kids h q) \<and> (\<forall>c \<in> set (kids h q). c \<in> set (ptrs t) \<and> parentNode (h ! c) = Some q)"
    using k rep_bound [OF d(2) q] by auto
qed

lemma rep_child_of:
  "rep h par t \<Longrightarrow> p \<in> set (ptrs t) \<Longrightarrow> p \<noteq> proot t \<Longrightarrow> \<exists>q \<in> set (ptrs t). parentNode (h ! p) = Some q \<and> p \<in> set (kids h q)"
proof (induction t arbitrary: par)
  case (PT r ts)
  then obtain c where c: "c \<in> set ts" "p \<in> set (ptrs c)" by auto
  have rc: "rep h (Some r) c" using PT.prems(1) c(1) by (auto simp: list_all_iff)
  show ?case
  proof (cases "p = proot c")
    case True
    have "kids h r = map proot ts" using PT.prems(1) by simp
    then have "p \<in> set (kids h r)" using True c(1) by (simp only: set_map image_eqI)
    moreover have "parentNode (h ! p) = Some r" using rep_parent [OF rc] True by simp
    ultimately show ?thesis by (intro bexI [of _ r]) (simp_all only: ptrs.simps list.set_intros simp_thms)
  next
    case False
    then show ?thesis using PT.IH [OF c(1) rc c(2)] c(1) by auto
  qed
qed

lemma splice_filter: "distinct cs \<Longrightarrow> index_of p cs = Some i \<Longrightarrow> splice_at i (Suc 0) [] cs = filter (\<lambda>c. c \<noteq> p) cs"
proof -
  assume d: "distinct cs" and i: "index_of p cs = Some i"
  have x: "i < length cs" "cs ! i = p" using index_of_SomeD [OF i] by auto
  then obtain xs ys where e: "cs = xs @ p # ys" "length xs = i" using id_take_nth_drop [OF x(1)] by force
  have "filter (\<lambda>c. c \<noteq> p) xs = xs" "filter (\<lambda>c. c \<noteq> p) ys = ys" using d e by (auto intro!: filter_True)
  then show ?thesis using e splice_at_remove [of xs "[]" p ys] by simp
qed

lemma cut_step:
  assumes l: "tree_links h0 S" and c: "cut_links h0 S R h" and p: "p \<in> S" "p \<notin> R" "parentNode (h0 ! p) = Some q" "q \<in> S" "p \<in> set (kids h0 q)"
  shows "\<exists>h'. delete_node p h = Inr h' \<and> cut_links h0 S (insert p R) h'"
proof -
  have pq: "parentNode (h ! p) = Some q" and k: "kids h q = filter (\<lambda>c. c \<notin> R) (kids h0 q)" and len: "length h = length h0" "carries h0 h"
    using c p by (auto simp: cut_links_def)
  have pk: "p \<in> set (kids h q)" using k p by simp
  then obtain cs where cs: "children (h ! q) = Some cs" "p \<in> set cs" by (cases "children (h ! q)") simp_all
  obtain i where i: "index_of p cs = Some i" using cs(2) by (metis index_of_None not_None_eq)
  have "distinct cs" using cs(1) k l p(4) by (auto simp: tree_links_def)
  let ?h = "set_parent p None (set_children q (filter (\<lambda>c. c \<noteq> p) cs) h)"
  have e: "delete_node p h = Inr ?h"
    using pq cs(1) i splice_filter [OF \<open>distinct cs\<close> i] by (simp add: delete_node_def removeChild_def Let_def)
  have b: "p < length h" "q < length h" using l p len by (auto simp: tree_links_def)
  have qp: "kids ?h r = (if r = q then filter (\<lambda>c. c \<noteq> p) cs else kids h r)" for r using b by (simp add: link_simps)
  have pp: "parentNode (?h ! r) = (if r = p then None else parentNode (h ! r))" for r using b by (simp add: link_simps)
  have "kids ?h r = filter (\<lambda>c. c \<notin> insert p R) (kids h0 r)" if r: "r \<in> S" for r
  proof (cases "r = q")
    case True
    have "filter (\<lambda>c. c \<notin> insert p R) xs = filter (\<lambda>c. c \<noteq> p) (filter (\<lambda>c. c \<notin> R) xs)" for xs by (simp add: conj_commute)
    moreover have "cs = filter (\<lambda>c. c \<notin> R) (kids h0 q)" using cs(1) k by simp
    ultimately show ?thesis unfolding qp True by metis
  next
    case False
    then have "p \<notin> set (kids h0 r)" using l r p(3) unfolding tree_links_def by (metis option.inject)
    then have "filter (\<lambda>c. c \<notin> insert p R) (kids h0 r) = filter (\<lambda>c. c \<notin> R) (kids h0 r)" by (intro filter_cong) auto
    then show ?thesis using False c r by (simp add: qp cut_links_def)
  qed
  moreover have "parentNode (?h ! r) = (if r \<in> insert p R then None else parentNode (h0 ! r))" if "r \<in> S" for r
    using c that by (simp add: pp cut_links_def)
  moreover have "carries h0 ?h" using len(2) by (intro carries_set)
  moreover have "children (h0 ! r) \<noteq> None \<longrightarrow> children (?h ! r) \<noteq> None" for r using c by (simp add: cut_links_def link_simps)
  ultimately have "cut_links h0 S (insert p R) ?h" using len by (simp add: cut_links_def)
  then show ?thesis using e by blast
qed

lemma cut_rep: "rep h0 par t \<Longrightarrow> set (ptrs t) \<subseteq> S \<Longrightarrow> proot t \<notin> R \<Longrightarrow> cut_links h0 S R h \<Longrightarrow> rep h par (cut R t)"
proof (induction t arbitrary: par)
  case (PT p ts)
  have p: "p \<in> S" "p \<notin> R" using PT.prems by auto
  have "rep h (Some p) (cut R t)" if "t \<in> set ts" "proot t \<notin> R" for t
    using PT that by (intro PT.IH) (auto simp: list_all_iff)
  moreover have "map proot (map (cut R) us) = map proot us" for us :: "ptree list"
  proof -
    have "proot (cut R u) = proot u" for u by (cases u) simp
    then show ?thesis by simp
  qed
  ultimately show ?case using PT.prems p by (auto simp: cut_links_def list_all_iff filter_map comp_def)
qed

lemma cut_distinct: "distinct (ptrs t) \<Longrightarrow> distinct (ptrs (cut R t)) \<and> set (ptrs (cut R t)) \<subseteq> set (ptrs t)"
proof (induction t)
  case (PT p ts)
  have "distinct (concat (map ptrs (map (cut R) us))) \<and> set (concat (map ptrs (map (cut R) us))) \<subseteq> set (concat (map ptrs us))"
    if "set us \<subseteq> set ts" "distinct (concat (map ptrs us))" for us
    using that
  proof (induction us)
    case (Cons u us)
    then have "distinct (ptrs (cut R u)) \<and> set (ptrs (cut R u)) \<subseteq> set (ptrs u)" using PT.IH [of u] by simp
    then show ?case using Cons by auto blast
  qed simp
  moreover have "distinct (concat (map ptrs (filter (\<lambda>t. proot t \<notin> R) ts)))" using PT.prems by (induction ts) auto
  ultimately have "distinct (concat (map ptrs (map (cut R) (filter (\<lambda>t. proot t \<notin> R) ts)))) \<and>
      set (concat (map ptrs (map (cut R) (filter (\<lambda>t. proot t \<notin> R) ts)))) \<subseteq> set (concat (map ptrs (filter (\<lambda>t. proot t \<notin> R) ts)))"
    by (meson filter_is_subset)
  then show ?case using PT.prems by auto
qed

locale deleting =
  fixes tags :: string and names :: "string list" and c :: "unode \<Rightarrow> bool" and cond :: "attr_map \<Rightarrow> bool"
  assumes names: "tag_list tags = names" "distinct names"
    and cond: "c n = cond (attrs n)"
begin

lemma fold_deletes:
  assumes l: "tree_links h0 S" and par: "\<And>p. p \<in> set ns \<Longrightarrow> \<exists>q \<in> S. parentNode (h0 ! p) = Some q \<and> p \<in> set (kids h0 q)"
    and ns: "distinct ns" "set ns \<subseteq> S" "set ns \<inter> R = {}" and h: "cut_links h0 S R h"
  shows "\<exists>h'. fold_store (\<lambda>n h. if c (h ! n) then delete_node n h else Inr h) ns h = Inr h' \<and>
    cut_links h0 S (R \<union> {p \<in> set ns. cond (attrs (h0 ! p))}) h'"
  using par ns h
proof (induction ns arbitrary: R h)
  case (Cons p ns)
  obtain q where q: "q \<in> S" "parentNode (h0 ! p) = Some q" "p \<in> set (kids h0 q)" using Cons.prems(1) [of p] by auto
  have p: "p \<in> S" "p \<notin> R" "p < length h0" using Cons.prems(3,4) l by (auto simp: tree_links_def)
  then have a: "attrs (h ! p) = attrs (h0 ! p)" using Cons.prems(5) by (simp add: cut_links_def carries_def)
  let ?R = "if cond (attrs (h0 ! p)) then insert p R else R"
  obtain h1 where h1: "(if c (h ! p) then delete_node p h else Inr h) = Inr h1" "cut_links h0 S ?R h1"
    using cut_step [OF l Cons.prems(5) p(1,2) q(2,1,3)] Cons.prems(5) cond [of "h ! p"] a by (cases "c (h ! p)") auto
  have r: "distinct ns" "set ns \<subseteq> S" "set ns \<inter> ?R = {}" using Cons.prems(2-4) by auto
  have par': "\<exists>q \<in> S. parentNode (h0 ! x) = Some q \<and> x \<in> set (kids h0 q)" if "x \<in> set ns" for x
    using Cons.prems(1) [of x] that by simp
  have e: "?R \<union> {x \<in> set ns. cond (attrs (h0 ! x))} = R \<union> {x \<in> set (p # ns). cond (attrs (h0 ! x))}" by auto
  show ?case using Cons.IH [OF par' r h1(2)] h1(1) unfolding e by (simp only: fold_store.simps bind_res_simps)
qed simp

lemma doc_cut:
  assumes "carries h0 h" "\<And>p. p \<in> set (ptrs t) \<Longrightarrow> p < length h0" "proot t \<notin> R"
    and "\<And>p. p \<in> set (ptrs t) \<Longrightarrow> p \<noteq> proot t \<Longrightarrow> p \<in> R \<longleftrightarrow> ntype (h0 ! p) = Element \<and> tagName (h0 ! p) \<in> set names \<and> cond (attrs (h0 ! p))"
    and "distinct (ptrs t)"
  shows "map (doc h) (subs (cut R t)) = concat (map (pruned names cond) (map (doc h0) (subs t)))"
  using assms(2-5)
proof (induction t)
  case (PT p ts)
  have "map (doc h) (map (cut R) (filter (\<lambda>t. proot t \<notin> R) us)) = concat (map (pruned names cond) (map (doc h0) us))"
    if us: "set us \<subseteq> set ts" for us
    using us
  proof (induction us)
    case (Cons u us)
    obtain q qs where u: "u = PT q qs" by (cases u)
    have uts: "u \<in> set ts" "q \<noteq> p" using Cons.prems PT.prems(4) u by auto
    have qu: "q \<in> set (ptrs u)" by (simp add: u)
    have sub: "set (ptrs u) \<subseteq> set (ptrs (PT p ts))" "p \<notin> set (ptrs u)" "distinct (ptrs u)"
      using PT.prems(4) uts(1) distinct_subtree [of ts u] by auto
    have ql: "q < length h0" using PT.prems(1) sub(1) qu by blast
    have rq: "q \<in> R \<longleftrightarrow> ntype (h0 ! q) = Element \<and> tagName (h0 ! q) \<in> set names \<and> cond (attrs (h0 ! q))"
      using PT.prems(3) [of q] sub(1) uts(2) qu by auto
    have step: "doc h (cut R u) = UT (ntype (h0 ! q)) (data (h0 ! q)) (tagName (h0 ! q)) (attrs (h0 ! q))
        (concat (map (pruned names cond) (map (doc h0) qs)))" if "q \<notin> R"
    proof -
      have "map (doc h) (subs (cut R u)) = concat (map (pruned names cond) (map (doc h0) (subs u)))"
      proof (rule PT.IH [OF uts(1)])
        show "proot u \<notin> R" using that u by simp
        show "x \<in> R \<longleftrightarrow> ntype (h0 ! x) = Element \<and> tagName (h0 ! x) \<in> set names \<and> cond (attrs (h0 ! x))"
          if "x \<in> set (ptrs u)" "x \<noteq> proot u" for x using PT.prems(3) [of x] that sub(1,2) by auto
      qed (use PT.prems(1) sub in auto)
      then show ?thesis using assms(1) ql by (simp add: u carries_def)
    qed
    have r: "map (doc h) (map (cut R) (filter (\<lambda>t. proot t \<notin> R) us)) = concat (map (pruned names cond) (map (doc h0) us))"
      using Cons by simp
    have "doc h0 u = UT (ntype (h0 ! q)) (data (h0 ! q)) (tagName (h0 ! q)) (attrs (h0 ! q)) (map (doc h0) qs)" by (simp add: u)
    then have "pruned names cond (doc h0 u) = (if q \<in> R then [] else [doc h (cut R u)])" using rq step by auto
    then show ?case using r by (simp add: u del: doc.simps cut.simps)
  qed simp
  then show ?case by simp
qed

lemma deletes_from_document:
  assumes r: "represents h par (PT root ts)"
  shows "\<exists>h' ms. delete_tag tags c root h = Inr h' \<and> represents h' par (PT root ms) \<and>
    map (doc h') ms = concat (map (pruned names cond) (map (doc h) ts)) \<and>
    ntype (h' ! root) = ntype (h ! root) \<and> (children (h ! root) \<noteq> None \<longrightarrow> children (h' ! root) \<noteq> None)"
proof -
  let ?S = "set (ptrs (PT root ts))" and ?ns = "hits h names ts"
  let ?R = "{p \<in> set ?ns. cond (attrs (h ! p))}"
  have d: "distinct (ptrs (PT root ts))" "rep h par (PT root ts)" using r by (auto simp: represents_def)
  have n: "set ?ns \<subseteq> ?S" "root \<notin> set ?ns" using d by (auto simp: set_hits)
  have par: "\<exists>q \<in> ?S. parentNode (h ! p) = Some q \<and> p \<in> set (kids h q)" if "p \<in> set ?ns" for p
  proof (rule rep_child_of [OF d(2)])
    show "p \<in> ?S" "p \<noteq> proot (PT root ts)" using n that by auto
  qed
  have di: "distinct ?ns" using d distinct_hits [OF _ names(2)] by simp
  have "cut_links h ?S {} h" by (simp add: cut_links_def)
  from fold_deletes [OF represents_links [OF r] par di n(1) _ this]
  obtain h' where h': "fold_store (\<lambda>n h. if c (h ! n) then delete_node n h else Inr h) ?ns h = Inr h'" "cut_links h ?S ?R h'" by auto
  have root: "proot (PT root ts) \<notin> ?R" using n(2) by simp
  have cut: "cut ?R (PT root ts) = PT root (subs (cut ?R (PT root ts)))" by simp
  have "rep h' par (cut ?R (PT root ts))" using cut_rep [OF d(2) order_refl root h'(2)] .
  moreover have "distinct (ptrs (cut ?R (PT root ts)))" using cut_distinct [OF d(1)] by blast
  ultimately have "represents h' par (PT root (subs (cut ?R (PT root ts))))" using cut by (simp add: represents_def)
  moreover have "map (doc h') (subs (cut ?R (PT root ts))) = concat (map (pruned names cond) (map (doc h) (subs (PT root ts))))"
  proof (rule doc_cut)
    show "carries h h'" using h'(2) by (simp add: cut_links_def)
    show "p < length h" if "p \<in> ?S" for p using rep_bound [OF d(2) that] .
    show "p \<in> ?R \<longleftrightarrow> ntype (h ! p) = Element \<and> tagName (h ! p) \<in> set names \<and> cond (attrs (h ! p))"
      if "p \<in> ?S" "p \<noteq> proot (PT root ts)" for p using that by (auto simp: set_hits)
  qed (use root d in auto)
  moreover have "ntype (h' ! root) = ntype (h ! root)" "children (h ! root) \<noteq> None \<longrightarrow> children (h' ! root) \<noteq> None"
    using h'(2) rep_bound [OF d(2), of root] by (auto simp: cut_links_def carries_def)
  moreover have "delete_tag tags c root h = Inr h'" using h'(1) by (simp add: delete_tag_def getNodes_hits [OF r] names)
  ultimately show ?thesis by auto
qed

end

definition node_cond :: "(unode \<Rightarrow> bool) \<Rightarrow> attr_map \<Rightarrow> bool" where
  "node_cond c ats = c \<lparr>ntype = Element, data = None, tagName = [], parentNode = None, attrs = ats, children = None\<rparr>"

lemmas node_cond_defs = node_cond_def has_loaderror_def has_loadpara_def is_dragline_def getAttr_def

interpretation le: deleting "''img''" "[''img'']" has_loaderror "node_cond has_loaderror"
  by unfold_locales (simp_all add: ao.names node_cond_defs)

interpretation lp: deleting "''p''" "[''p'']" has_loadpara "node_cond has_loadpara"
proof unfold_locales
  show "tag_list ''p'' = [''p'']" by code_simp
qed (simp_all add: node_cond_defs)

interpretation dl: deleting "''div''" "[''div'']" is_dragline "node_cond is_dragline"
proof unfold_locales
  show "tag_list ''div'' = [''div'']" by code_simp
qed (simp_all add: node_cond_defs)

text \<open>No element with one of the tags satisfies the condition.\<close>

fun free_of :: "string list \<Rightarrow> (attr_map \<Rightarrow> bool) \<Rightarrow> utree \<Rightarrow> bool" where
  "free_of tags c (UT ty d tg ats ts) \<longleftrightarrow> \<not> (ty = Element \<and> tg \<in> set tags \<and> c ats) \<and> list_all (free_of tags c) ts"

lemma pruned_free: "list_all (free_of tags c) (pruned tags c t)"
proof (induction t)
  case (UT ty d tg ats ts)
  then have "list_all (free_of tags c) (concat (map (pruned tags c) ts))" by (auto simp: list_all_iff)
  then show ?case by simp
qed

lemma pruned_keeps_free: "free_of tags' c' t \<Longrightarrow> list_all (free_of tags' c') (pruned tags c t)"
proof (induction t)
  case (UT ty d tg ats ts)
  then have "list_all (free_of tags' c') (concat (map (pruned tags c) ts))" by (auto simp: list_all_iff)
  then show ?case using UT.prems by simp
qed

lemma list_all_concat_map: "(\<And>x. x \<in> set xs \<Longrightarrow> list_all P (f x)) \<Longrightarrow> list_all P (concat (map f xs))"
  by (induction xs) auto

lemma rewritten_free: "(\<And>tg ats. tg \<in> set tags \<Longrightarrow> fst (act tg ats) \<notin> set tags) \<Longrightarrow> free_of tags (\<lambda>_. True) (rewritten tags act t)"
proof (induction t)
  case (UT ty d tg ats ts)
  then have "list_all (free_of tags (\<lambda>_. True)) (map (rewritten tags act) ts)" by (simp add: list_all_iff)
  moreover obtain tg' ats' where "act tg ats = (tg', ats')" by fastforce
  ultimately show ?case using UT.prems [of tg ats] by (auto split: prod.splits)
qed

text \<open>Equal documents up to the order of attributes.\<close>

definition attr_of :: "attr_map \<Rightarrow> string \<Rightarrow> string option" where
  "attr_of ats k = Option.bind ats (\<lambda>a. Option.bind (obj_get a k) id)"

fun same_doc :: "utree \<Rightarrow> utree \<Rightarrow> bool" where
  "same_doc (UT ty d tg ats ts) (UT ty' d' tg' ats' ts') \<longleftrightarrow> ty = ty' \<and> d = d' \<and> tg = tg' \<and>
     map_option map_of ats = map_option map_of ats' \<and> list_all2 same_doc ts ts'"

fun anchor_ok :: "utree \<Rightarrow> bool" where
  "anchor_ok (UT ty d tg ats ts) \<longleftrightarrow>
     (ty = Element \<longrightarrow> (tg = ''img'' \<longrightarrow> attr_of ats ''anchorname'' = None) \<and>
        (tg = ''a'' \<and> attr_of ats ''name'' \<noteq> None \<longrightarrow>
           (\<forall>a. ats = Some a \<longrightarrow> obj_get a ''anchorname'' = None \<and> obj_get a ''class'' = None))) \<and>
     list_all anchor_ok ts"

lemma anchor_node_back:
  assumes "attr_of ats ''name'' \<noteq> None \<longrightarrow> (\<forall>a. ats = Some a \<longrightarrow> obj_get a ''anchorname'' = None \<and> obj_get a ''class'' = None)"
    and "node_act anchor_in_node ''a'' ats = (tg, ats1)"
  shows "tg = ''a'' \<and> ats1 = ats \<or> tg = ''img'' \<and> fst (node_act anchor_out_node ''img'' ats1) = ''a'' \<and>
    map_option map_of (snd (node_act anchor_out_node ''img'' ats1)) = map_option map_of ats"
proof (cases ats)
  case None
  then show ?thesis using assms(2) by (simp add: node_fn_defs)
next
  case (Some a)
  show ?thesis
  proof (cases "\<exists>v. obj_get a ''name'' = Some (Some v) \<and> v \<noteq> [] \<and> obj_get a ''href'' \<in> {None, Some None, Some (Some [])}")
    case True
    then obtain v where v: "obj_get a ''name'' = Some (Some v)" "v \<noteq> []" "obj_get a ''href'' \<in> {None, Some None, Some (Some [])}" by blast
    let ?a1 = "obj_del ''name'' (obj_set ''class'' (Some ''anchorclass'') (obj_set ''anchorname'' (Some v) a))"
    let ?a2 = "obj_del ''class'' (obj_set ''name'' (Some v) (obj_del ''anchorname'' ?a1))"
    have n: "obj_get a ''anchorname'' = None" "obj_get a ''class'' = None" using assms(1) Some v by (auto simp: attr_of_def)
    have "node_act anchor_in_node ''a'' (Some a) = (''img'', Some ?a1)" using v by (cases v) (auto simp: node_fn_defs lower_eval)
    moreover have "obj_get ?a1 ''anchorname'' = Some (Some v)" by (simp add: obj_get_set obj_get_del)
    then have "node_act anchor_out_node ''img'' (Some ?a1) = (''a'', Some ?a2)" using v(2) by (cases v) (auto simp: node_fn_defs lower_eval)
    moreover have "map_of ?a2 = map_of a" using n v(1) by (auto simp: fun_eq_iff obj_get_set obj_get_del)
    ultimately show ?thesis using assms(2) Some by simp
  next
    case False
    then have "node_act anchor_in_node ''a'' (Some a) = (''a'', Some a)"
      by (auto simp: node_fn_defs lower_eval split: option.splits list.splits)
    then show ?thesis using assms(2) Some by simp
  qed
qed

lemma anchor_doc_back:
  "anchor_ok t \<Longrightarrow> same_doc (rewritten [''img''] (node_act anchor_out_node) (rewritten [''a''] (node_act anchor_in_node) t)) t"
proof (induction t)
  case (UT ty d tg ats ts)
  then have ch: "list_all2 same_doc (map (rewritten [''img''] (node_act anchor_out_node)) (map (rewritten [''a''] (node_act anchor_in_node)) ts)) ts"
    by (simp add: list_all2_map1 list.rel_refl_strong list_all_iff)
  have im: "tg = ''img'' \<Longrightarrow> ty = Element \<Longrightarrow> node_act anchor_out_node ''img'' ats = (''img'', ats)"
    using UT.prems by (auto simp: node_fn_defs attr_of_def lower_eval split: option.splits list.splits)
  show ?case
  proof (cases "ty = Element \<and> tg = ''a''")
    case True
    obtain tg1 ats1 where a: "node_act anchor_in_node ''a'' ats = (tg1, ats1)" by fastforce
    then show ?thesis using True ch UT.prems anchor_node_back [of ats tg1 ats1] by (auto split: prod.splits)
  next
    case False
    then show ?thesis using ch im by (auto split: prod.splits)
  qed
qed

text \<open>A small document: an anchor, an image that failed to load, an underlined text.\<close>

definition rules_store :: store where
  "rules_store = [new_uNode Root None undefined_name None None (Some [1, 2, 3]),
     new_uNode Element None ''a'' (Some 0) (Some [(''name'', Some ''top'')]) (Some []),
     new_uNode Element None ''img'' (Some 0) (Some [(''class'', Some ''loaderrorclass'')]) (Some []),
     new_uNode Element None ''u'' (Some 0) (Some []) (Some [4]),
     new_uNode Text (Some ''x'') undefined_name (Some 3) None None]"

lemma rules_store_ok: "represents rules_store None (PT 0 [PT 1 [], PT 2 [], PT 3 [PT 4 []]])"
  by (simp add: represents_def rules_store_def new_uNode_def)

subsection \<open>Properties\<close>

text \<open>Loading markers never leave the editor: on every tree the output rule of the upload plugin returns, and in the document it leaves no
  image has a class with \<open>loaderrorclass\<close> and no paragraph is a \<open>loadpara\<close>. Exactly these elements, with what is below them, are gone, also
  when one lies inside another that is deleted first.\<close>

theorem autoupload_removes_markers:
  assumes "represents h par (PT root ts)"
  shows "\<exists>h' ms. autoupload_out root h = Inr h' \<and> represents h' par (PT root ms) \<and>
    map (doc h') ms = concat (map (pruned [''p''] (node_cond has_loadpara))
      (concat (map (pruned [''img''] (node_cond has_loaderror)) (map (doc h) ts)))) \<and>
    list_all (free_of [''img''] (node_cond has_loaderror)) (map (doc h') ms) \<and>
    list_all (free_of [''p''] (node_cond has_loadpara)) (map (doc h') ms)"
proof -
  obtain h1 ms1 where 1: "delete_tag ''img'' has_loaderror root h = Inr h1" "represents h1 par (PT root ms1)"
      "map (doc h1) ms1 = concat (map (pruned [''img''] (node_cond has_loaderror)) (map (doc h) ts))"
    using le.deletes_from_document [OF assms] by blast
  obtain h2 ms2 where 2: "delete_tag ''p'' has_loadpara root h1 = Inr h2" "represents h2 par (PT root ms2)"
      "map (doc h2) ms2 = concat (map (pruned [''p''] (node_cond has_loadpara)) (map (doc h1) ms1))"
    using lp.deletes_from_document [OF 1(2)] by blast
  have "list_all (free_of [''p''] (node_cond has_loadpara)) (map (doc h2) ms2)"
    unfolding 2(3) by (rule list_all_concat_map) (rule pruned_free)
  moreover have "list_all (free_of [''img''] (node_cond has_loaderror)) (map (doc h1) ms1)"
    unfolding 1(3) by (rule list_all_concat_map) (rule pruned_free)
  then have "list_all (free_of [''img''] (node_cond has_loaderror)) (map (doc h2) ms2)"
    unfolding 2(3) by (intro list_all_concat_map pruned_keeps_free) (simp only: list_all_iff)
  ultimately show ?thesis using 1 2 by (intro exI [of _ h2] exI [of _ ms2]) (simp add: autoupload_out_def)
qed

theorem autoupload_removes_markers_witness:
  "\<exists>h' ms. autoupload_out 0 rules_store = Inr h' \<and> represents h' None (PT 0 ms) \<and> length ms = 2 \<and>
    list_all (free_of [''img''] (node_cond has_loaderror)) (map (doc h') ms)"
proof -
  have t: "\<not> test loadpara_re undefined_name" "test loaderror_re ''loaderrorclass''" by code_simp+
  obtain h' ms where h: "autoupload_out 0 rules_store = Inr h'" "represents h' None (PT 0 ms)"
      "map (doc h') ms = concat (map (pruned [''p''] (node_cond has_loadpara)) (concat (map (pruned [''img''] (node_cond has_loaderror))
        (map (doc rules_store) [PT 1 [], PT 2 [], PT 3 [PT 4 []]]))))"
      "list_all (free_of [''img''] (node_cond has_loaderror)) (map (doc h') ms)"
    using autoupload_removes_markers [OF rules_store_ok] by blast
  have "length (map (doc h') ms) = 2" unfolding h(3) by (simp add: rules_store_def new_uNode_def node_cond_defs shown_def lower_eval t)
  then have "length ms = 2" by (simp only: length_map)
  then show ?thesis using h(1,2,4) by blast
qed

text \<open>C27. After the input rule of the font plugin no \<open>u\<close>, \<open>s\<close>, \<open>del\<close>, \<open>font\<close> or \<open>strike\<close> is left at any depth: each became a
  \<open>span\<close> with the style that \<open>font_node\<close> computes, and the rest of the document is as before.\<close>

theorem font_in_normalises:
  assumes "represents h par (PT root ts)"
  shows "\<exists>h'. font_in root h = Inr h' \<and> represents h' par (PT root ts) \<and>
    map (doc h') ts = map (rewritten [''u'', ''s'', ''del'', ''font'', ''strike''] (node_act font_node)) (map (doc h) ts) \<and>
    list_all (free_of [''u'', ''s'', ''del'', ''font'', ''strike''] (\<lambda>_. True)) (map (doc h') ts)"
proof -
  obtain h' where h': "font_in root h = Inr h'" "represents h' par (PT root ts)"
      "map (doc h') ts = map (rewritten [''u'', ''s'', ''del'', ''font'', ''strike''] (node_act font_node)) (map (doc h) ts)"
    using ft.rewrites_document [OF assms] unfolding font_in_def by blast
  have "fst (node_act font_node tg ats) \<notin> set [''u'', ''s'', ''del'', ''font'', ''strike'']" for tg ats by (simp add: node_fn_defs)
  then have "list_all (free_of [''u'', ''s'', ''del'', ''font'', ''strike''] (\<lambda>_. True)) (map (doc h') ts)"
    unfolding h'(3) using rewritten_free by (auto simp: list_all_iff)
  then show ?thesis using h' by blast
qed

theorem font_in_normalises_witness:
  "\<exists>h'. font_in 0 rules_store = Inr h' \<and>
    doc h' (PT 3 []) = UT Element None ''span'' (Some [(''style'', Some ''text-decoration:underline;'')]) []"
  using font_in_normalises [OF rules_store_ok] by (auto simp: rules_store_def new_uNode_def node_fn_defs)



text \<open>The style of an underlined element is put before the decoration without a separator: a style without a semicolon at its
  end is damaged.\<close>

theorem font_in_damages_style:
  "getStyle (font_node (new_uNode Element None ''u'' None (Some [(''style'', Some ''color:red'')]) (Some []))) ''color''
     = ''redtext-decoration:underline''"
  by code_simp

end
