(* ===== verification/CdataFilter.thy ===== *)
theory CdataFilter
  imports DefaultFilter
begin

text \<open>
  The rules of \<open>plugins/defaultfilter.js\<close> on scripts and styles: what \<open>input_node\<close> hides in the
  attributes of a \<open>div\<close>, \<open>output_node\<close> brings back. Also what goes wrong for escaped text and for nested
  lists.
\<close>

subsection \<open>Scripts and styles\<close>

definition cdata_keys :: "string list" where
  "cdata_keys = [''cdata_tag'', ''cdata_data'', ''_ue_custom_node_'']"

lemma cdata_keys_lower: "toLowerCase ''cdata_tag'' = ''cdata_tag''" "toLowerCase ''cdata_data'' = ''cdata_data''"
  "toLowerCase ''_ue_custom_node_'' = ''_ue_custom_node_''"
  by (simp_all add: lower_eval)

lemma delete_other: "k \<notin> fst ` set a \<Longrightarrow> AList.delete k a = a"
  by (rule delete_id)

text \<open>Hiding an element in attributes and taking it out again.\<close>

lemma setAttr_cdata:
  assumes "attrs n = Some a" "set cdata_keys \<inter> fst ` set a = {}" "tg \<noteq> []"
    and n': "n' = setAttr_obj [(''cdata_tag'', Some tg), (''cdata_data'', Some txt), (''_ue_custom_node_'', Some ''true'')] n"
  shows "attr_val n' ''cdata_tag'' = Some tg" "(case getAttr n' ''cdata_data'' of Some d \<Rightarrow> d | None \<Rightarrow> []) = txt"
    "attrs (setAttr_obj [(''cdata_tag'', Some []), (''cdata_data'', Some []), (''_ue_custom_node_'', Some [])] n') = Some a"
proof -
  have k: "''cdata_tag'' \<notin> fst ` set a" "''cdata_data'' \<notin> fst ` set a" "''_ue_custom_node_'' \<notin> fst ` set a"
    using assms(2) by (auto simp: cdata_keys_def)
  have del: "AList.delete k (a @ b) = a @ AList.delete k b" if "k \<notin> fst ` set a" for k and b :: "(string \<times> string option) list"
    using that by (induction a) auto
  let ?b = "[(''cdata_tag'', Some tg)] @ (if txt = [] then [] else [(''cdata_data'', Some txt)]) @ [(''_ue_custom_node_'', Some ''true'')]"
  have a': "attrs n' = Some (a @ ?b)"
    using assms(1,3) k by (simp add: n' setAttr_obj_def attr_obj_def lower_eval obj_set_new delete_other)
  have g: "map_of (a @ ?b) ''cdata_tag'' = Some (Some tg)" "map_of (a @ ?b) ''cdata_data'' = (if txt = [] then None else Some (Some txt))"
    using map_of_eq_None_iff [THEN iffD2, OF k(1)] map_of_eq_None_iff [THEN iffD2, OF k(2)] by (simp_all add: map_add_def)
  show "attr_val n' ''cdata_tag'' = Some tg"
    using assms(3) g(1) by (cases tg) (simp_all add: attr_val_def getAttr_def a' lower_eval)
  show "(case getAttr n' ''cdata_data'' of Some d \<Rightarrow> d | None \<Rightarrow> []) = txt"
    using g(2) by (simp add: getAttr_def a' lower_eval)
  show "attrs (setAttr_obj [(''cdata_tag'', Some []), (''cdata_data'', Some []), (''_ue_custom_node_'', Some [])] n') = Some a"
    using k assms(3) by (simp add: setAttr_obj_def attr_obj_def a' del)
qed

definition hidden :: "string \<Rightarrow> unode \<Rightarrow> unode" where
  "hidden txt n = (setAttr_obj [(''cdata_tag'', Some (tagName n)), (''cdata_data'', Some txt),
     (''_ue_custom_node_'', Some ''true'')] n)\<lparr>tagName := ''div''\<rparr>"

lemma in_cdata_hides:
  assumes r: "represents h par (PT node [PT c []])" and e: "ntype (h ! node) = Element" "tagName (h ! node) \<in> set notTransTagName"
    and t: "ntype (h ! c) = Text" "data (h ! c) = Some d"
  shows "\<exists>h1. in_cdata opts node h = Inr h1 \<and> node < length h1 \<and> h1 ! node = (hidden (html d) (h ! node))\<lparr>children := Some []\<rparr>"
proof -
  have b: "node < length h" "c < length h" "c \<noteq> node" "parentNode (h ! c) = Some node" "kids h node = [c]"
    using r by (auto simp: represents_def)
  then have ch: "children (h ! node) = Some [c]" by (auto split: option.splits)
  have tg: "\<not> dtd_has dtd_empty (tagName (h ! node))" "in_table notTransTagName (tagName (h ! node))" "tagName (h ! node) \<noteq> ''pre''"
    using e(2) tag_facts cdata_no_trans by (auto simp: notTransTagName_def)
  let ?R = "new_uNode Root None undefined_name None None (Some [c])"
  have R: "ntype ?R = Root" "children ?R = Some [c]" by (simp_all add: new_uNode_def)
  have T: "nodeToHtml (Suc k) (h @ [?R]) False cur c = Inr [html d]" for k cur
    using b t tg by (simp add: nodeToHtml.simps isText_def nth_append)
  have "nodeToHtml (Suc (Suc (length h))) (h @ [?R]) False 0 (length h) = Inr [html d]"
    by (subst nodeToHtml.simps(2)) (simp add: R T sep_html_plain)
  then have "toHtml (h @ [?R]) False (length h) = Inr (html d)" by (simp add: toHtml_def)
  then have g: "innerHTML_get node h = Inr (h @ [?R], Inr (html d))"
    using e tg ch by (simp add: innerHTML_get_def alloc_def)
  let ?h2 = "upd node (hidden (html d)) (h @ [?R])"
  have h2: "?h2 ! node = hidden (html d) (h ! node)" "length ?h2 = Suc (length h)" using b(1) by (simp_all add: upd_def nth_append)
  have hid: "ntype (hidden x n) = ntype n" "tagName (hidden x n) = ''div''" "children (hidden x n) = children n" for x n
    by (simp_all add: hidden_def setAttr_obj_def)
  have "innerHTML fc node [] ?h2 = clear_children node ?h2 @ [new_uNode Root None undefined_name None None (Some [])]" for fc
    using e h2 by (simp add: innerHTML_def hid tag_facts parse_empty clear_children_def new_uNode_def ch nth_append)
  then have "in_cdata opts node h = Inr (clear_children node ?h2 @ [new_uNode Root None undefined_name None None (Some [])])"
    unfolding in_cdata_def g bind_res_simps prod.case Let_def sum.case hidden_def [symmetric] by simp
  moreover have "clear_children node ?h2 ! node = (hidden (html d) (h ! node))\<lparr>children := Some []\<rparr>" "length (clear_children node ?h2) = Suc (length h)"
    using b h2 by (simp_all add: clear_children_def hid ch link_simps)
  ultimately show ?thesis using b(1) by (simp add: nth_append)
qed

lemma out_div_shows:
  assumes "node < length h" "h ! node = (hidden txt n)\<lparr>children := Some []\<rparr>"
    and n: "ntype n = Element" "tagName n \<in> set notTransTagName" "attrs n = Some a" "set cdata_keys \<inter> fst ` set a = {}"
  shows "\<exists>h2. out_div node h = Inr h2 \<and> length h2 = Suc (length h) \<and> h2 ! node = n\<lparr>children := Some [length h]\<rparr> \<and>
    h2 ! length h = new_uNode Text (Some (unhtml txt)) undefined_name (Some node) None None"
proof -
  let ?n' = "setAttr_obj [(''cdata_tag'', Some (tagName n)), (''cdata_data'', Some txt), (''_ue_custom_node_'', Some ''true'')] n"
  have tg: "tagName n \<noteq> []" "\<not> dtd_has dtd_empty (tagName n)" using n(2) tag_facts by (auto simp: notTransTagName_def)
  note sa = setAttr_cdata [OF n(3) n(4) tg(1) refl, of "txt"]
  have same: "getAttr (n1\<lparr>tagName := x, children := y\<rparr>) k = getAttr n1 k" "attr_val (n1\<lparr>tagName := x, children := y\<rparr>) k = attr_val n1 k"
    "getAttr (n1\<lparr>tagName := x\<rparr>) k = getAttr n1 k" for n1 x y k
    by (simp_all add: getAttr_def attr_val_def)
  have node: "h ! node = ?n'\<lparr>tagName := ''div'', children := Some []\<rparr>" using assms(2) by (simp add: hidden_def)
  let ?T = "new_uNode Text (Some (unhtml txt)) undefined_name None None None" and ?t = "length h"
  let ?kv = "[(''cdata_tag'', Some []), (''cdata_data'', Some []), (''_ue_custom_node_'', Some [])]"
  let ?h1 = "upd node (\<lambda>m. m\<lparr>tagName := tagName n\<rparr>) h"
  have h1: "?h1 ! node = ?n'\<lparr>tagName := tagName n, children := Some []\<rparr>" "length ?h1 = ?t"
    using assms(1) node by (simp_all add: upd_def)
  have ty: "ntype ?n' = Element" using n(1) by (simp add: setAttr_obj_def)
  have "appendChild node ?t (?h1 @ [?T]) = (set_parent ?t (Some node) (set_children node [?t] (?h1 @ [?T])), Some ?t)"
    using assms(1) tg(2) h1 ty by (simp add: appendChild_def Let_def nth_append detach_def new_uNode_def)
  moreover have "attr_val (h ! node) ''cdata_tag'' = Some (tagName n)" using sa(1) by (simp add: node same)
  moreover have "(case getAttr (?h1 ! node) ''cdata_data'' of Some d \<Rightarrow> d | None \<Rightarrow> []) = txt" using sa(2) by (simp add: h1 same)
  moreover have "createText txt False ?h1 = (?h1 @ [?T], ?t)" by (simp add: createText_def alloc_def h1)
  ultimately have out: "out_div node h = Inr (upd node (setAttr_obj ?kv) (set_parent ?t (Some node) (set_children node [?t] (?h1 @ [?T]))))"
    by (simp add: out_div_def Let_def)
  have upds: "setAttr_obj kv (m'\<lparr>tagName := x, children := y\<rparr>) = (setAttr_obj kv m')\<lparr>tagName := x, children := y\<rparr>" for kv m' x y
    by (simp add: setAttr_obj_def attr_obj_def)
  have "setAttr_obj ?kv ?n' = n\<lparr>attrs := attrs (setAttr_obj ?kv ?n')\<rparr>" by (simp add: setAttr_obj_def)
  also have "\<dots> = n" unfolding sa(3) n(3) [symmetric] by simp
  finally have restored: "setAttr_obj ?kv ?n' = n" .
  show ?thesis unfolding out
    using assms(1) h1 by (simp add: upd_def nth_append link_simps upds restored new_uNode_def)
qed

lemma no_attrs_val: "attr_val n k = Some v \<Longrightarrow> \<not> no_attrs n"
  by (auto simp: attr_val_def getAttr_def no_attrs_def split: option.splits list.splits)

lemma print_cdata:
  assumes r: "represents h par (PT node [PT c []])" and e: "ntype (h ! node) = Element" "tagName (h ! node) \<in> set notTransTagName"
    and t: "ntype (h ! c) = Text" "data (h ! c) = Some d"
  shows "toHtml h False node = Inr (open_tag (h ! node) @ html d @ close_tag (h ! node))"
proof -
  have "printable h (PT node [PT c []])" using r e t by (simp add: represents_def)
  moreover have "tagName (h ! node) \<noteq> ''pre''" "in_table notTransTagName (tagName (h ! node))" "\<not> dtd_has dtd_empty (tagName (h ! node))"
    using e(2) tag_facts by (auto simp: notTransTagName_def in_table_def)
  ultimately show ?thesis using toHtml_print [OF r] e t by (simp add: open_tag_def close_tag_def text_html_def)
qed

lemma cdata_through:
  assumes r: "represents h par (PT node [PT c []])" and e: "ntype (h ! node) = Element" "tagName (h ! node) \<in> set notTransTagName"
    and t: "ntype (h ! c) = Text" "data (h ! c) = Some d"
    and a: "attrs (h ! node) = Some a" "set cdata_keys \<inter> fst ` set a = {}"
  shows "\<exists>h1 h2. input_node opts node h = Inr h1 \<and> tagName (h1 ! node) = ''div'' \<and> kids h1 node = [] \<and> output_node opts node h1 = Inr h2 \<and>
    toHtml h False node = Inr (open_tag (h ! node) @ html d @ close_tag (h ! node)) \<and>
    toHtml h2 False node = Inr (open_tag (h ! node) @ html (html d) @ close_tag (h ! node))"
proof -
  let ?n = "h ! node"
  obtain h1 where h1: "in_cdata opts node h = Inr h1" "node < length h1" "h1 ! node = (hidden (html d) ?n)\<lparr>children := Some []\<rparr>"
    using in_cdata_hides [OF r e t] by blast
  obtain h2 where h2: "out_div node h1 = Inr h2" "length h2 = Suc (length h1)" "h2 ! node = ?n\<lparr>children := Some [length h1]\<rparr>"
      "h2 ! length h1 = new_uNode Text (Some (unhtml (html d))) undefined_name (Some node) None None"
    using out_div_shows [OF h1(2,3) e a] by blast
  have tg: "dtd_has dtd_c_cdata (tagName ?n)" "tagName ?n = ''style'' \<or> tagName ?n = ''script''" "tagName ?n \<noteq> []"
    using e(2) tag_facts by (auto simp: notTransTagName_def)
  have "input_node opts node h = Inr h1" using e(1) tg h1(1) by (auto simp: input_node_def Let_def)
  moreover have d: "tagName (h1 ! node) = ''div''" "kids h1 node = []" "ntype (h1 ! node) = Element"
    using h1(3) e(1) by (simp_all add: hidden_def setAttr_obj_def)
  moreover have "attr_val (h1 ! node) ''cdata_tag'' = Some (tagName ?n)"
    using setAttr_cdata(1) [OF a tg(3) refl, of "html d"] h1(3) by (simp add: hidden_def attr_val_def getAttr_def)
  then have "\<not> clearable opts (h1 ! node)" using no_attrs_val by (simp add: clearable_def)
  then have "output_node opts node h1 = Inr h2" using d h2(1) by (simp add: output_node_def)
  moreover have "toHtml h2 False node = Inr (open_tag (h2 ! node) @ html (unhtml (html d)) @ close_tag (h2 ! node))"
  proof (rule print_cdata)
    show "represents h2 par (PT node [PT (length h1) []])"
      using r h1(2) h2 by (auto simp: represents_def new_uNode_def)
  qed (use h2 e in \<open>simp_all add: new_uNode_def\<close>)
  moreover have "open_tag (h2 ! node) = open_tag ?n" "close_tag (h2 ! node) = close_tag ?n" by (simp_all add: h2(3) open_tag_def close_tag_def)
  moreover have "html (unhtml (html d)) = html (html d)" by (simp add: html_is_htm unhtml_unh htm_unh)
  ultimately show ?thesis using print_cdata [OF r e t] by metis
qed

subsection \<open>Properties of the rules on single elements\<close>


definition script_store :: "string \<Rightarrow> store" where
  "script_store d = [new_uNode Root None undefined_name None None (Some [1]),
     new_uNode Element None ''script'' (Some 0) (Some [(''src'', Some ''x.js'')]) (Some [2]),
     new_uNode Text (Some d) undefined_name (Some 1) None None]"

definition plain_opts :: filter_opts where
  "plain_opts = \<lparr>allowDivTransToP = True, disabledTableInTable = True, autoClearEmptyNode = True, webkit = True, br_ie = False,
     br_ie11below = False, br_fillChar = domUtils_fillChar False\<rparr>"

lemma script_store_ok: "represents (script_store d) (Some 0) (PT 1 [PT 2 []])"
  by (simp add: script_store_def represents_def new_uNode_def)


text \<open>Otherwise it does not: an ampersand that is escaped twice in a script is decoded on the way in and again on the
  way out, so the script changes each time the document passes through the editor.\<close>

theorem script_decoded_twice:
  "\<exists>h1 h2. input_node plain_opts 1 (script_store ''&amp;lt;'') = Inr h1 \<and> output_node plain_opts 1 h1 = Inr h2 \<and>
    toHtml (script_store ''&amp;lt;'') False 1 = Inr (open_tag (script_store [] ! 1) @ ''&lt;'' @ ''</script>'') \<and>
    toHtml h2 False 1 = Inr (open_tag (script_store [] ! 1) @ ''<'' @ ''</script>'')"
proof -
  have "html ''&amp;lt;'' = ''&lt;''" "html ''&lt;'' = ''<''" by code_simp+
  then show ?thesis
    using cdata_through [OF script_store_ok [of "''&amp;lt;''"], of "''&amp;lt;''" "[(''src'', Some ''x.js'')]" plain_opts]
    by (auto simp: script_store_def new_uNode_def notTransTagName_def cdata_keys_def close_tag_def)
qed

text \<open>A list item that holds an ordered and an unordered list.\<close>

definition li_store :: store where
  "li_store = [new_uNode Element None ''ul'' None None (Some [1]), new_uNode Element None ''li'' (Some 0) None (Some [2, 3]),
     new_uNode Element None ''ol'' (Some 1) None (Some []), new_uNode Element None ''ul'' (Some 1) None (Some [])]"

text \<open>Lists nested in a list item are pulled out behind it in the opposite order, because each of them is inserted
  directly after the item.\<close>

theorem li_reverses_lists:
  "\<exists>h. input_node (plain_opts\<lparr>autoClearEmptyNode := False\<rparr>) 1 li_store = Inr h \<and> kids li_store 1 = [2, 3] \<and> kids h 0 = [1, 3, 2] \<and> kids h 1 = []"
proof -
  have "(case in_li 1 li_store of Inr h \<Rightarrow> (kids h 0, kids h 1) = ([1, 3, 2], []) | Inl _ \<Rightarrow> False)" by code_simp
  moreover have "input_node (plain_opts\<lparr>autoClearEmptyNode := False\<rparr>) 1 li_store = in_li 1 li_store"
    by (simp add: input_node_def clearable_def li_store_def new_uNode_def Let_def)
  ultimately show ?thesis by (auto simp: li_store_def new_uNode_def split: sum.splits)
qed

end
