(* ===== verification/Content.thy ===== *)
theory Content
  imports PluginRules CdataFilter
begin

text \<open>
  \<open>setContent\<close> and \<open>getContent\<close> of \<open>core/Editor.js\<close>, where the components meet: a text is parsed, passes the input rules in the
  order of their registration, is printed and becomes the body of the document, whose loose text and inline
  elements are put into paragraphs; on the way out the body is parsed, passes the output rules and is printed.
  Rules that keep a printable tree (the interface \<open>content_rule\<close>) can be composed in any order: the rules of the plugins are instances, and
  for every text both functions then return.

  The body is the list of its children. What the browser makes of a text (\<open>parse_inner\<close>) and how it prints a body
  (\<open>print_inner\<close>) are parameters. Names of elements in the document are upper case, as the browser reports them.
\<close>

subsection \<open>The body\<close>

datatype dnode = DText string | DComment string | DElem string "string jsobj" "dnode list"

type_synonym store_rule = "ptr \<Rightarrow> store \<Rightarrow> store res"

record content_env =
  parse_inner :: "string \<Rightarrow> dnode list"
  print_inner :: "dnode list \<Rightarrow> string"
  enterTag_p :: bool
  env_ie :: bool
  env_fillChar :: string
  input_rules :: "store_rule list"
  output_rules :: "store_rule list"

definition filterRule :: "store_rule list \<Rightarrow> ptr \<Rightarrow> store \<Rightarrow> store res" where
  "filterRule rs root h = foldl (\<lambda>x r. bind_res x (r root)) (Inr h) rs"

definition attr_true :: "string \<Rightarrow> string jsobj \<Rightarrow> bool" where
  "attr_true k ats \<longleftrightarrow> (case obj_get ats k of Some v \<Rightarrow> v \<noteq> [] | None \<Rightarrow> False)"

definition isCdataDiv :: "dnode \<Rightarrow> bool" where
  "isCdataDiv n = (case n of DElem tg ats cs \<Rightarrow> tg = ''DIV'' \<and> attr_true ''cdata_tag'' ats | _ \<Rightarrow> False)"

definition isCustomeNode :: "dnode \<Rightarrow> bool" where
  "isCustomeNode n = (case n of DElem tg ats cs \<Rightarrow> attr_true ''_ue_custom_node_'' ats | _ \<Rightarrow> False)"

definition hidden_node :: "dnode \<Rightarrow> bool" where
  "hidden_node n = (case n of DElem tg ats cs \<Rightarrow> dtd_has dtd_c_cdata tg \<or> isCdataDiv n \<or> isCustomeNode n | _ \<Rightarrow> False)"

text \<open>What the inner loop moves into the paragraph.\<close>

definition loose :: "dnode \<Rightarrow> bool" where
  "loose n = (case n of
     DText _ \<Rightarrow> True
   | DElem tg ats cs \<Rightarrow> dtd_has dtd_tag_p tg \<and> \<not> dtd_has dtd_c_cdata tg
   | DComment _ \<Rightarrow> False)"

fun take_loose :: "dnode list \<Rightarrow> dnode list \<Rightarrow> dnode list \<times> dnode list" where
  "take_loose p [] = (p, [])"
| "take_loose p (child # rest) = (if loose child then take_loose (p @ [child]) rest else (p, child # rest))"

lemma take_loose_length: "take_loose p cs = (p', child # rest) \<Longrightarrow> length rest < length cs"
  by (induction cs arbitrary: p) (auto split: if_splits intro: less_SucI)

text \<open>The outer loop: \<open>before\<close> are the children that are already in place, the rest starts at \<open>child\<close>.\<close>

function wrap_loop :: "dnode list \<Rightarrow> dnode list \<Rightarrow> dnode list" where
  "wrap_loop before [] = before"
| "wrap_loop before (c # cs) =
     (case take_loose [] (c # cs) of
        (p, []) \<Rightarrow> before @ [DElem ''P'' [] p]
      | (p, child # rest) \<Rightarrow> wrap_loop (before @ (if p \<noteq> [] then [DElem ''P'' [] p] else []) @ [child]) rest)"
  by pat_completeness auto
termination wrap_loop
  by (relation "measure (\<lambda>(before, cs). length cs)") (auto dest!: take_loose_length [OF sym] simp del: take_loose.simps)

definition wrap_body :: "content_env \<Rightarrow> dnode list \<Rightarrow> dnode list" where
  "wrap_body env body =
     (if body = [] \<or> hidden_node (hd body) \<and> length body = 1
      then parse_inner env (''<p>'' @ (if env_ie env then ''&nbsp;'' else ''<br/>'') @ ''</p>'' @ print_inner env body)
      else wrap_loop [] body)"

subsection \<open>Setting and getting\<close>

text \<open>The new body, and the events that are fired, in order.\<close>

definition setContent :: "content_env \<Rightarrow> string \<Rightarrow> bool \<Rightarrow> bool \<Rightarrow> dnode list \<Rightarrow> (dnode list \<times> string list) res" where
  "setContent env markup isAppendTo notFireSelectionchange body =
     (let (h, root) = htmlparser (env_fillChar env) markup False [] in
      bind_res (filterRule (input_rules env) root h) (\<lambda>h1.
      bind_res (toHtml h1 False root) (\<lambda>markup.
        let b = parse_inner env ((if isAppendTo then print_inner env body else []) @ markup) in
        Inr (if enterTag_p env then wrap_body env b else b,
             [''beforesetcontent'', ''aftersetcontent'', ''contentchange''] @
             (if notFireSelectionchange then [] else [''selectionchange''])))))"

text \<open>\<open>hasContents\<close> is the test of the function \<open>fn\<close>, or of the editor when none is given.\<close>

definition getContent :: "content_env \<Rightarrow> bool \<Rightarrow> bool \<Rightarrow> bool \<Rightarrow> dnode list \<Rightarrow> (string \<times> string list) res" where
  "getContent env hasContents ignoreBlank formatter body =
     (if \<not> hasContents then Inr ([], [])
      else let (h, root) = htmlparser (env_fillChar env) (print_inner env body) ignoreBlank [] in
        bind_res (filterRule (output_rules env) root h) (\<lambda>h1.
        bind_res (toHtml h1 formatter root) (\<lambda>markup. Inr (markup, [''beforegetcontent'', ''aftergetcontent'']))))"

definition nbsp :: string where "nbsp = [CHR 0xC2, CHR 0xA0]"

definition block_gap_re :: re where
  "block_gap_re = (let gap = (\<lambda>t. seqs [lit_i (''<'' @ t), many (ncls ''>''), chr CHR ''>'',
       Alt (seqs [lit_i ''<br'', opt (chr CHR ''/''), chr CHR ''>'']) (lit_i ''&nbsp;''), lit_i (''</'' @ t), chr CHR ''>''])
     in Alt (gap ''p'') (gap ''div''))"

definition close_re :: re where
  "close_re = seqs [opt (Cap 1 (chr newline)), lit ''</'', Cap 2 (some (ncls ''>'')), chr CHR ''>'']"

definition getPlainTxt :: "string \<Rightarrow> string \<Rightarrow> string" where
  "getPlainTxt fillChar inner =
     (let markup = replace (cls [newline, carriage]) (\<lambda>_ _. []) inner;
          markup = replace block_gap_re (\<lambda>_ _. [newline]) markup;
          markup = replace (seqs [lit_i ''<br'', opt (chr CHR ''/''), chr CHR ''>'']) (\<lambda>_ _. [newline]) markup;
          markup = replace (seqs [chr CHR ''<'', some (ncls ''>/''), chr CHR ''>'']) (\<lambda>_ _. []) markup;
          markup = replace close_re (\<lambda>_ cs. if dtd_has dtd_block (case cap 2 cs of Some t \<Rightarrow> t | None \<Rightarrow> []) then [newline]
                else (case cap 1 cs of Some b \<Rightarrow> b | None \<Rightarrow> [])) markup;
          markup = replace (lit fillChar) (\<lambda>_ _. []) markup;
          markup = replace (lit nbsp) (\<lambda>_ _. '' '') markup
      in replace (lit ''&nbsp;'') (\<lambda>_ _. '' '') markup)"

subsection \<open>Paragraphs\<close>

fun unwrapped :: "dnode \<Rightarrow> dnode list" where
  "unwrapped (DElem tg ats cs) = (if tg = ''P'' \<and> ats = [] then cs else [DElem tg ats cs])"
| "unwrapped n = [n]"

lemma take_loose_split:
  "take_loose p cs = (p', rest) \<Longrightarrow> \<exists>q. p' = p @ q \<and> cs = q @ rest \<and> list_all loose q \<and> (rest = [] \<or> \<not> loose (hd rest))"
proof (induction cs arbitrary: p)
  case (Cons c cs)
  show ?case
  proof (cases "loose c")
    case True
    then obtain q where "p' = (p @ [c]) @ q" "cs = q @ rest" "list_all loose q" "rest = [] \<or> \<not> loose (hd rest)"
      using Cons.IH [of "p @ [c]"] Cons.prems by auto
    then show ?thesis using True by (intro exI [of _ "c # q"]) auto
  qed (use Cons.prems in auto)
qed simp

text \<open>The loop as a function on lists: runs of loose nodes become paragraphs.\<close>

fun paragraphs :: "dnode list \<Rightarrow> dnode list \<Rightarrow> dnode list" where
  "paragraphs run [] = (if run = [] then [] else [DElem ''P'' [] run])"
| "paragraphs run (n # ns) = (if loose n then paragraphs (run @ [n]) ns
     else (if run = [] then [] else [DElem ''P'' [] run]) @ n # paragraphs [] ns)"

lemma paragraphs_loose: "list_all loose q \<Longrightarrow> paragraphs run (q @ rest) = paragraphs (run @ q) rest"
  by (induction q arbitrary: run) auto

lemma wrap_loop_paragraphs: "wrap_loop before cs = before @ paragraphs [] cs"
proof (induction before cs rule: wrap_loop.induct)
  case (2 before c cs)
  obtain p rest where t: "take_loose [] (c # cs) = (p, rest)" by fastforce
  from take_loose_split [OF t] have q: "c # cs = p @ rest" "list_all loose p" "rest = [] \<or> \<not> loose (hd rest)" by auto
  have e: "paragraphs [] (c # cs) = paragraphs p rest" unfolding q(1) using paragraphs_loose [OF q(2), of "[]" rest] by simp
  show ?case
  proof (cases rest)
    case Nil
    then have "p \<noteq> []" using q(1) by auto
    then show ?thesis using t Nil e by simp
  next
    case (Cons d ds)
    then show ?thesis using t e q(3) 2 [OF t [symmetric]] by simp
  qed
qed simp

lemma paragraph_not_loose: "\<not> loose (DElem ''P'' [] run)"
proof -
  have "two_case dtd_tag_p ''p''" using closed_level5(5) by (simp add: closed_def lower_eval)
  moreover have "toUpperCase ''p'' = ''P''" by code_simp
  ultimately have "obj_get dtd_tag_p ''P'' = obj_get dtd_tag_p ''p''" by (simp only: two_case_def)
  moreover have "obj_get dtd_tag_p ''p'' = None"
    unfolding dtd_tag_p_def dtd_L_def dtd_J_def dtd_H_def dtd_G_def dtd_F_def dtd_B_def
    by (simp add: extend2_get dtd_up_get lower_keys_def js_eval)
  ultimately have "\<not> dtd_has dtd_tag_p ''P''" by (simp add: dtd_has_def object_prototype_names_def)
  then show ?thesis by (simp add: loose_def)
qed

lemma paragraphs_blocks: "list_all (\<lambda>n. \<not> loose n) (paragraphs run ns)"
  using paragraph_not_loose by (induction ns arbitrary: run) auto

definition no_plain_p :: "dnode \<Rightarrow> bool" where
  "no_plain_p n \<longleftrightarrow> (\<forall>cs. n \<noteq> DElem ''P'' [] cs)"

lemma paragraphs_content:
  "list_all no_plain_p ns \<Longrightarrow> concat (map unwrapped (paragraphs run ns)) = run @ ns"
proof (induction ns arbitrary: run)
  case (Cons n ns)
  then have "unwrapped n = [n]" by (cases n) (auto simp: no_plain_p_def)
  then show ?case using Cons by auto
qed simp

subsection \<open>Rules that can be composed\<close>

fun printable_doc :: "utree \<Rightarrow> bool" where
  "printable_doc (UT ty d tg ats ts) \<longleftrightarrow> ty \<noteq> Root \<and> (ty = Text \<longrightarrow> d \<noteq> None) \<and> list_all printable_doc ts"

definition content_tree :: "store \<Rightarrow> ptr \<Rightarrow> ptree list \<Rightarrow> bool" where
  "content_tree h root ts \<longleftrightarrow> represents h None (PT root ts) \<and> ntype (h ! root) = Root \<and> children (h ! root) \<noteq> None \<and>
     list_all printable_doc (map (doc h) ts)"

lemma doc_printable: "printable_doc (doc h t) \<Longrightarrow> p \<in> set (ptrs t) \<Longrightarrow> ntype (h ! p) \<noteq> Root \<and> (ntype (h ! p) = Text \<longrightarrow> data (h ! p) \<noteq> None)"
  by (induction t) (auto simp: list_all_iff)

lemma content_tree_prints:
  assumes "content_tree h root ts"
  shows "toHtml h False root = Inr (print [] (doc h (PT root ts)))"
proof -
  have r: "represents h None (PT root ts)" and root: "ntype (h ! root) = Root" "children (h ! root) \<noteq> None"
    and d: "list_all printable_doc (map (doc h) ts)" using assms by (auto simp: content_tree_def)
  have "printable h (PT root ts)"
  proof (rule printable_rep)
    show "rep h None (PT root ts)" using r by (simp add: represents_def)
    show "(None :: ptr option) \<noteq> None \<or> ntype (h ! proot (PT root ts)) = Root" using root by simp
    fix p assume p: "p \<in> set (ptrs (PT root ts))"
    show "(ntype (h ! p) = Text \<longrightarrow> data (h ! p) \<noteq> None) \<and> (ntype (h ! p) = Root \<longrightarrow> children (h ! p) \<noteq> None)"
    proof (cases "p = root")
      case False
      then obtain t where "t \<in> set ts" "p \<in> set (ptrs t)" using p by auto
      then show ?thesis using doc_printable [of h t p] d by (auto simp: list_all_iff)
    qed (use root in simp)
  qed
  from toHtml_print [OF r this] show ?thesis by simp
qed

lemma htmlparser_content:
  assumes "htmlparser fc s ib h0 = (h, root)"
  shows "\<exists>ts. content_tree h root ts"
proof -
  obtain t cur where i: "parsing h0 h t cur" "root = length h0" using htmlparser_parsing [of h0 fc s ib] assms by auto
  obtain ts where t: "t = PT root ts" using i by (cases t) (auto simp: parsing_def)
  have n: "ok_node (h ! p)" "ntype (h ! p) = Root \<longleftrightarrow> p = root" if "p \<in> set (ptrs t)" for p using i that by (auto simp: parsing_def)
  have d: "distinct (ptrs t)" "represents h None t" using i by (auto simp: parsing_def represents_def)
  have "printable_doc (doc h x)" if "set (ptrs x) \<subseteq> set (ptrs t) - {root}" for x
    using that
  proof (induction x)
    case (PT p us)
    have p: "p \<in> set (ptrs t)" "p \<noteq> root" using PT.prems by auto
    have "printable_doc (doc h u)" if "u \<in> set us" for u using PT that by auto
    then show ?case using n [OF p(1)] p(2) by (auto simp: ok_node_def list_all_iff)
  qed
  moreover have "set (ptrs x) \<subseteq> set (ptrs t) - {root}" if "x \<in> set ts" for x using d(1) that by (auto simp: t)
  ultimately have "list_all printable_doc (map (doc h) ts)" by (auto simp: list_all_iff)
  moreover have "children (h ! root) \<noteq> None" "ntype (h ! root) = Root" using n [of root] by (auto simp: t ok_node_def takes_children_def)
  ultimately have "content_tree h root ts" using d(2) by (simp add: content_tree_def t)
  then show ?thesis by blast
qed

text \<open>The contract of a rule: it returns, and leaves a tree that can be printed.\<close>

locale content_rule =
  fixes R :: store_rule
  assumes keeps: "content_tree h root ts \<Longrightarrow> \<exists>h' ms. R root h = Inr h' \<and> content_tree h' root ms"

lemma walked_printable: "printable_doc t \<Longrightarrow> list_all printable_doc (walked act t)"
proof (induction t)
  case (UT ty d tg ats ts)
  then have "list_all printable_doc (concat (map (walked act) ts))" by (auto simp: list_all_iff)
  then show ?case using UT.prems by (auto simp: Let_def split: option.split)
qed

lemma rewritten_printable: "printable_doc t \<Longrightarrow> printable_doc (rewritten tags act t)"
  by (induction t) (auto simp: list_all_iff split: prod.splits)

lemma pruned_printable: "printable_doc t \<Longrightarrow> list_all printable_doc (pruned tags c t)"
proof (induction t)
  case (UT ty d tg ats ts)
  then have "list_all printable_doc (concat (map (pruned tags c) ts))" by (auto simp: list_all_iff)
  then show ?case using UT.prems by simp
qed

context node_walk
begin

lemma walk_docs:
  "content_tree h root ts \<Longrightarrow> \<exists>h' ms. traversal_res (2 * length h) fn root h = Inr h' \<and> content_tree h' root ms \<and>
     map (doc h') ms = concat (map (walked act) (map (doc h) ts))"
proof -
  assume c: "content_tree h root ts"
  then obtain h' ms where w: "traversal_res (2 * length h) fn root h = Inr h'" "represents h' None (PT root ms)"
      "map (doc h') ms = concat (map (walked act) (map (doc h) ts))" "stays h h' root (set (concat (map ptrs ts)))"
    using traversal_walks [of h None root ts] unfolding content_tree_def by blast
  have "list_all printable_doc (map (doc h') ms)"
    unfolding w(3) using c walked_printable by (intro list_all_concat_map) (auto simp: content_tree_def list_all_iff)
  moreover have "ntype (h' ! root) = Root" "children (h' ! root) \<noteq> None" using w(4) c by (auto simp: content_tree_def stays_def)
  ultimately have "content_tree h' root ms" using w(2) unfolding content_tree_def by blast
  then show ?thesis using w(1,3) by blast
qed

lemma walk_keeps: "content_tree h root ts \<Longrightarrow> \<exists>h' ms. traversal_res (2 * length h) fn root h = Inr h' \<and> content_tree h' root ms"
  using walk_docs by blast

end

context rewriting
begin

lemma each_keeps: "content_tree h root ts \<Longrightarrow> \<exists>h' ms. each_tag tags f root h = Inr h' \<and> content_tree h' root ms"
proof -
  assume c: "content_tree h root ts"
  then obtain h' where w: "each_tag tags f root h = Inr h'" "represents h' None (PT root ts)"
      "map (doc h') ts = map (rewritten names act) (map (doc h) ts)" "h' ! root = h ! root"
    using rewrites_document [of h None root ts] unfolding content_tree_def by blast
  have "list_all printable_doc (map (doc h') ts)" unfolding w(3) using c rewritten_printable by (auto simp: content_tree_def list_all_iff)
  then have "content_tree h' root ts" using w(2,4) c unfolding content_tree_def by simp
  then show ?thesis using w(1) by blast
qed

end

context deleting
begin

lemma delete_keeps: "content_tree h root ts \<Longrightarrow> \<exists>h' ms. delete_tag tags c root h = Inr h' \<and> content_tree h' root ms"
proof -
  assume t: "content_tree h root ts"
  then obtain h' ms where w: "delete_tag tags c root h = Inr h'" "represents h' None (PT root ms)"
      "map (doc h') ms = concat (map (pruned names cond) (map (doc h) ts))" "ntype (h' ! root) = ntype (h ! root)"
      "children (h ! root) \<noteq> None \<longrightarrow> children (h' ! root) \<noteq> None"
    using deletes_from_document [of h None root ts] unfolding content_tree_def by blast
  have "list_all printable_doc (map (doc h') ms)"
    unfolding w(3) using t pruned_printable by (intro list_all_concat_map) (auto simp: content_tree_def list_all_iff)
  then show ?thesis using w t by (auto simp: content_tree_def)
qed

end

interpretation xss_keeps: content_rule "xss_rule wl" for wl
  by unfold_locales (unfold xss_rule_def, rule xw.walk_keeps)

interpretation basestyle_keeps: content_rule basestyle_in
  by unfold_locales (unfold basestyle_in_def, rule bs.each_keeps)

interpretation font_keeps: content_rule font_in
  by unfold_locales (unfold font_in_def, rule ft.each_keeps)

interpretation anchor_in_keeps: content_rule anchor_in
  by unfold_locales (unfold anchor_in_def, rule ai.each_keeps)

interpretation anchor_out_keeps: content_rule anchor_out
  by unfold_locales (unfold anchor_out_def, rule ao.each_keeps)

interpretation charts_in_keeps: content_rule charts_in
  by unfold_locales (unfold charts_in_def, rule ch.each_keeps)

interpretation charts_out_keeps: content_rule charts_out
  by unfold_locales (unfold charts_out_def, rule ch.each_keeps)

interpretation simpleupload_keeps: content_rule simpleupload_out
  by unfold_locales (unfold simpleupload_out_def, rule le.delete_keeps)

interpretation dragline_keeps: content_rule dragline_out
  by unfold_locales (unfold dragline_out_def, rule dl.delete_keeps)

interpretation autoupload_keeps: content_rule autoupload_out
proof unfold_locales
  fix h root ts assume "content_tree h root ts"
  then obtain h1 ms1 where 1: "delete_tag ''img'' has_loaderror root h = Inr h1" "content_tree h1 root ms1" using le.delete_keeps by blast
  then obtain h2 ms2 where "delete_tag ''p'' has_loadpara root h1 = Inr h2" "content_tree h2 root ms2" using lp.delete_keeps by blast
  then show "\<exists>h' ms. autoupload_out root h = Inr h' \<and> content_tree h' root ms" using 1 by (auto simp: autoupload_out_def)
qed

definition plugin_inputs :: "whitList \<Rightarrow> store_rule set" where
  "plugin_inputs wl = {xss_rule wl, basestyle_in, font_in, anchor_in, charts_in}"

definition plugin_outputs :: "whitList \<Rightarrow> store_rule set" where
  "plugin_outputs wl = {xss_rule wl, anchor_out, charts_out, simpleupload_out, autoupload_out, dragline_out}"

lemma plugin_rules_keep: "r \<in> plugin_inputs wl \<union> plugin_outputs wl \<Longrightarrow> content_rule r"
  unfolding plugin_inputs_def plugin_outputs_def
  using xss_keeps.content_rule_axioms basestyle_keeps.content_rule_axioms font_keeps.content_rule_axioms anchor_in_keeps.content_rule_axioms
    anchor_out_keeps.content_rule_axioms charts_in_keeps.content_rule_axioms charts_out_keeps.content_rule_axioms
    simpleupload_keeps.content_rule_axioms dragline_keeps.content_rule_axioms autoupload_keeps.content_rule_axioms by blast

lemma filterRule_append: "filterRule (rs @ [r]) root h = bind_res (filterRule rs root h) (r root)"
  by (simp add: filterRule_def)

lemma filterRule_keeps:
  "(\<And>r. r \<in> set rs \<Longrightarrow> content_rule r) \<Longrightarrow> content_tree h root ts \<Longrightarrow>
   \<exists>h' ms. filterRule rs root h = Inr h' \<and> content_tree h' root ms"
proof (induction rs rule: rev_induct)
  case (snoc r rs)
  then obtain h1 ms1 where 1: "filterRule rs root h = Inr h1" "content_tree h1 root ms1" by auto
  then show ?case using content_rule.keeps [OF snoc.prems(1) [of r] 1(2)] by (auto simp: filterRule_append)
qed (auto simp: filterRule_def)

lemma setContent_prints:
  assumes "htmlparser (env_fillChar env) markup False [] = (h, root)" "filterRule (input_rules env) root h = Inr h1" "content_tree h1 root ms"
  shows "setContent env markup isAppendTo nofire body = Inr
      (let b = parse_inner env ((if isAppendTo then print_inner env body else []) @ concat (map (print (tagName (h1 ! root))) (map (doc h1) ms)))
       in if enterTag_p env then wrap_body env b else b,
       [''beforesetcontent'', ''aftersetcontent'', ''contentchange''] @ (if nofire then [] else [''selectionchange'']))"
proof -
  have "ntype (h1 ! root) = Root" using assms(3) by (simp add: content_tree_def)
  then have "toHtml h1 False root = Inr (concat (map (print (tagName (h1 ! root))) (map (doc h1) ms)))"
    using content_tree_prints [OF assms(3)] by simp
  then show ?thesis using assms(1,2) by (simp add: setContent_def Let_def)
qed

lemma parse_and_filter:
  assumes "\<And>r. r \<in> set rs \<Longrightarrow> content_rule r"
  obtains h root h1 ms where "htmlparser fc markup ib [] = (h, root)" "filterRule rs root h = Inr h1" "content_tree h1 root ms"
proof -
  obtain h root where p: "htmlparser fc markup ib [] = (h, root)" by fastforce
  then obtain ts where "content_tree h root ts" using htmlparser_content by blast
  then show ?thesis using filterRule_keeps [OF assms] p that by blast
qed

lemma xss_content:
  assumes c: "content_tree h root ts"
  shows "\<exists>h' ms. xss_rule wl root h = Inr h' \<and> content_tree h' root ms \<and> list_all (inner_permitted wl) (map (doc h') ms)"
proof -
  obtain h' ms where w: "xss_rule wl root h = Inr h'" "content_tree h' root ms" "map (doc h') ms = concat (map (walked (xss_act wl)) (map (doc h) ts))"
    using xw.walk_docs [OF c, of wl] unfolding xss_rule_def by blast
  have "list_all (inner_permitted wl) (map (doc h') ms)" unfolding w(3) using walked_inner by (intro list_all_concat_map)
  then show ?thesis using w by blast
qed

definition plain_content_env :: "store_rule list \<Rightarrow> store_rule list \<Rightarrow> content_env" where
  "plain_content_env ins outs = \<lparr>parse_inner = (\<lambda>s. if s = [] then [] else [DText s]), print_inner = (\<lambda>b. case b of [DText s] \<Rightarrow> s | _ \<Rightarrow> []),
     enterTag_p = True, env_ie = False, env_fillChar = domUtils_fillChar False, input_rules = ins, output_rules = outs\<rparr>"

subsection \<open>Properties\<close>

text \<open>C5. Setting and getting never fail: for every text, every body and every selection of the plugins' rules, in any order and
  any number, \<open>setContent\<close> and \<open>getContent\<close> return.\<close>

theorem content_returns:
  assumes "set (input_rules env) \<subseteq> plugin_inputs wl" "set (output_rules env) \<subseteq> plugin_outputs wl"
  shows "(\<exists>b evs. setContent env markup isAppendTo nofire body = Inr (b, evs)) \<and>
    (\<exists>out evs. getContent env has ignoreBlank False body = Inr (out, evs))"
proof
  have "content_rule r" if "r \<in> set (input_rules env)" for r using assms(1) that plugin_rules_keep [of r wl] by blast
  then obtain h root h1 ms where "htmlparser (env_fillChar env) markup False [] = (h, root)" "filterRule (input_rules env) root h = Inr h1"
      "content_tree h1 root ms" by (rule parse_and_filter)
  from setContent_prints [OF this] show "\<exists>b evs. setContent env markup isAppendTo nofire body = Inr (b, evs)" by blast
  have "content_rule r" if "r \<in> set (output_rules env)" for r using assms(2) that plugin_rules_keep [of r wl] by blast
  then obtain h root h1 ms where 1: "htmlparser (env_fillChar env) (print_inner env body) ignoreBlank [] = (h, root)"
      "filterRule (output_rules env) root h = Inr h1" "content_tree h1 root ms" by (rule parse_and_filter)
  then show "\<exists>out evs. getContent env has ignoreBlank False body = Inr (out, evs)"
    using content_tree_prints [OF 1(3)] by (simp add: getContent_def Let_def)
qed

theorem content_returns_witness:
  "(\<exists>b evs. setContent (plain_content_env [font_in, xss_rule [(''p'', [])], anchor_in] [anchor_out]) ''<u>x</u>'' False False [] = Inr (b, evs)) \<and>
   (\<exists>out evs. getContent (plain_content_env [font_in, xss_rule [(''p'', [])], anchor_in] [anchor_out]) True False False [] = Inr (out, evs))"
  by (rule content_returns [where wl = "[(''p'', [])]"]) (simp_all add: plain_content_env_def plugin_inputs_def plugin_outputs_def)



text \<open>C8. What \<open>setContent\<close> shows consists of blocks: unless the body is empty or one hidden element, no text and no inline element stays outside a
  paragraph, the paragraphs collect neighbouring nodes in their order, and nothing is lost.\<close>

theorem wrap_body_blocks:
  assumes "body \<noteq> []" "\<not> (hidden_node (hd body) \<and> length body = 1)"
  shows "wrap_body env body = paragraphs [] body \<and> list_all (\<lambda>n. \<not> loose n) (wrap_body env body) \<and>
    (list_all no_plain_p body \<longrightarrow> concat (map unwrapped (wrap_body env body)) = body)"
proof -
  have "wrap_body env body = paragraphs [] body" using assms by (auto simp: wrap_body_def wrap_loop_paragraphs)
  then show ?thesis using paragraphs_blocks [of "[]" body] paragraphs_content [of body "[]"] by simp
qed

theorem wrap_body_blocks_witness:
  "wrap_body (plain_content_env [] []) [DText ''a'', DComment ''c'', DText ''b''] =
     [DElem ''P'' [] [DText ''a''], DComment ''c'', DElem ''P'' [] [DText ''b'']]"
  using wrap_body_blocks [of "[DText ''a'', DComment ''c'', DText ''b'']" "plain_content_env [] []"] by (simp add: hidden_node_def loose_def)

end
