(* ===== verification/ListRules.thy ===== *)
theory ListRules
  imports PluginRules
begin

text \<open>
  The output rule of \<open>plugins/list.js\<close> that the option \<open>disablePInList\<close> switches on: it takes the paragraphs of a list item away
  and puts their contents, each ended by a line break, in their place. The effect on an item is compared with a
  function on documents, which shows that everything of the item outside of its paragraphs is lost.
\<close>

subsection \<open>The rule\<close>

text \<open>The inner loop: the children of the paragraph \<open>n\<close> are popped (\<open>rcs\<close> are those left, last first) and spliced in at \<open>index\<close>.\<close>

primrec pop_loop :: "ptr \<Rightarrow> ptr \<Rightarrow> nat \<Rightarrow> ptr list \<Rightarrow> ptr list \<Rightarrow> store \<Rightarrow> ptr list \<times> store" where
  "pop_loop li n index [] new h = (new, h)"
| "pop_loop li n index (c # rcs) new h =
     pop_loop li n index rcs (splice_at index 0 [c] new) (set_parent c (Some li) (set_children n (rev rcs) h))"

definition ends_in_br :: "store \<Rightarrow> ptr list \<Rightarrow> bool" where
  "ends_in_br h new \<longleftrightarrow> new \<noteq> [] \<and> ntype (h ! last new) = Element \<and> tagName (h ! last new) = ''br''"

definition unwrap_p :: "ptr \<Rightarrow> ptr \<Rightarrow> ptr list \<times> nat \<times> store \<Rightarrow> (ptr list \<times> nat \<times> store) res" where
  "unwrap_p li n st = (case st of (new, index, h) \<Rightarrow>
     (case children (h ! n) of
        None \<Rightarrow> Inl TypeError
      | Some cs \<Rightarrow>
         (let (new1, h1) = pop_loop li n index (rev cs) new h;
              (new2, h2) = (if ends_in_br h1 new1 then (new1, h1)
                else (let (hb, br) = createElement_tag ''br'' h1 in (new1 @ [br], set_parent br (Some li) hb)))
          in Inr (new2, length new2, h2))))"

primrec unwrap_loop :: "ptr \<Rightarrow> ptr list \<Rightarrow> ptr list \<times> nat \<times> store \<Rightarrow> (ptr list \<times> nat \<times> store) res" where
  "unwrap_loop li [] st = Inr st"
| "unwrap_loop li (n # ns) st =
     bind_res (if tagName (snd (snd st) ! n) = ''p'' then unwrap_p li n st else Inr st) (unwrap_loop li ns)"

definition unwrap_li :: "ptr \<Rightarrow> store \<Rightarrow> store res" where
  "unwrap_li li h = (case children (h ! li) of
     None \<Rightarrow> Inr h
   | Some cs \<Rightarrow> bind_res (unwrap_loop li cs ([], 0, h))
       (\<lambda>(new, index, h1). Inr (if new \<noteq> [] then set_children li new h1 else h1)))"

definition list_out :: "bool \<Rightarrow> ptr \<Rightarrow> store \<Rightarrow> store res" where
  "list_out disablePInList root h =
     (if disablePInList then bind_res (getNodesByTagName h root ''li'') (\<lambda>ns. fold_store unwrap_li ns h) else Inr h)"

subsection \<open>The effect on documents\<close>

definition br_doc :: utree where
  "br_doc = UT Element None ''br'' (Some []) []"

definition br_end :: "utree list \<Rightarrow> bool" where
  "br_end ds \<longleftrightarrow> ds \<noteq> [] \<and> (case last ds of UT ty d tg ats ks \<Rightarrow> ty = Element \<and> tg = ''br'')"

definition with_br :: "utree list \<Rightarrow> utree list" where
  "with_br ds = (if br_end ds then ds else ds @ [br_doc])"

fun item_out :: "utree list \<Rightarrow> utree list \<Rightarrow> utree list" where
  "item_out acc [] = acc"
| "item_out acc (UT ty d tg ats ks # ts) = item_out (if tg = ''p'' then with_br (acc @ ks) else acc) ts"

fun is_p :: "utree \<Rightarrow> bool" where
  "is_p (UT ty d tg ats ks) \<longleftrightarrow> tg = ''p''"

subsection \<open>Moving the children of a paragraph\<close>

lemma pop_loop_moves:
  "n < length h \<Longrightarrow> n \<notin> set rcs \<Longrightarrow> \<forall>c \<in> set rcs. c < length h \<Longrightarrow>
   \<exists>h'. pop_loop li n (length new) rcs (new @ xs) h = (new @ rev rcs @ xs, h') \<and> length h' = length h \<and> carries h h' \<and>
     (\<forall>r. r \<noteq> n \<longrightarrow> children (h' ! r) = children (h ! r)) \<and>
     (\<forall>r. parentNode (h' ! r) = (if r \<in> set rcs then Some li else parentNode (h ! r))) \<and>
     (\<forall>r. r \<noteq> n \<longrightarrow> r \<notin> set rcs \<longrightarrow> h' ! r = h ! r)"
proof (induction rcs arbitrary: h xs)
  case (Cons c rcs)
  let ?h = "set_parent c (Some li) (set_children n (rev rcs) h)"
  have c: "carries h ?h" by (intro carries_set carries_refl)
  obtain h' where h': "pop_loop li n (length new) rcs (new @ c # xs) ?h = (new @ rev rcs @ c # xs, h')" "length h' = length ?h"
    "carries ?h h'" "\<forall>r. r \<noteq> n \<longrightarrow> children (h' ! r) = children (?h ! r)"
    "\<forall>r. parentNode (h' ! r) = (if r \<in> set rcs then Some li else parentNode (?h ! r))"
    "\<forall>r. r \<noteq> n \<longrightarrow> r \<notin> set rcs \<longrightarrow> h' ! r = ?h ! r"
    using Cons.IH [of ?h "c # xs"] Cons.prems by auto
  show ?case
  proof (intro exI [of _ h'] conjI)
    show "pop_loop li n (length new) (c # rcs) (new @ xs) h = (new @ rev (c # rcs) @ xs, h')"
      using h'(1) by (simp add: splice_at_insert)
    show "carries h h'" using c h'(3) by (rule carries_trans)
  qed (use h' Cons.prems in \<open>auto simp: link_simps\<close>)
qed simp

text \<open>Between two paragraphs: the documents collected so far and the children not yet visited are disjoint trees below the item.\<close>

definition collected :: "ptr \<Rightarrow> store \<Rightarrow> ptree list \<Rightarrow> ptree list \<Rightarrow> bool" where
  "collected li h us rest \<longleftrightarrow> distinct (li # concat (map ptrs us) @ concat (map ptrs rest)) \<and> li < length h \<and>
     list_all (rep h (Some li)) us \<and> list_all (rep h (Some li)) rest"

lemma rep_moved:
  assumes "rep h (Some p) k" "distinct (ptrs k)" "p \<notin> set (ptrs k)" "length h \<le> length h'"
    and "\<And>r. r \<in> set (ptrs k) \<Longrightarrow> children (h' ! r) = children (h ! r)"
    and "\<And>r. r \<in> set (ptrs k) \<Longrightarrow> parentNode (h' ! r) = (if r = proot k then Some li else parentNode (h ! r))"
  shows "rep h' (Some li) k"
proof (rule rep_adopt [of h "Some p" k p])
  show "represents h (Some p) k" using assms(1,2) by (simp add: represents_def)
  show "proot k < length h'" using rep_bound [OF assms(1) proot_in_ptrs] assms(4) by simp
qed (use assms proot_in_ptrs [of k] in \<open>auto simp: same_links_def\<close>)


lemma collected_step:
  assumes c: "collected li h us (PT p ks # rest)"
  shows "\<exists>h'. pop_loop li p (length us) (rev (map proot ks)) (map proot us) h = (map proot (us @ ks), h') \<and>
    collected li h' (us @ ks) rest \<and> carries h h' \<and> h' ! li = h ! li \<and> (\<forall>r \<in> set (concat (map ptrs rest)). h' ! r = h ! r)"
proof -
  have d: "distinct (li # concat (map ptrs us) @ p # concat (map ptrs ks) @ concat (map ptrs rest))" using c by (simp add: collected_def)
  have rk: "rep h (Some p) k" if "k \<in> set ks" for k using c that by (auto simp: collected_def list_all_iff)
  have in_ks: "proot k \<in> set (concat (map ptrs ks))" if "k \<in> set ks" for k using that proot_in_ptrs [of k] by (auto intro!: bexI)
  have p: "p < length h" "p \<notin> set (rev (map proot ks))" using c d in_ks by (auto simp: collected_def)
  have b: "\<forall>x \<in> set (rev (map proot ks)). x < length h" using rep_bound [OF rk] by auto
  obtain h' where h': "pop_loop li p (length us) (rev (map proot ks)) (map proot us) h = (map proot (us @ ks), h')" "length h' = length h" "carries h h'"
    "\<And>r. r \<noteq> p \<Longrightarrow> children (h' ! r) = children (h ! r)"
    "\<And>r. parentNode (h' ! r) = (if r \<in> proot ` set ks then Some li else parentNode (h ! r))"
    "\<And>r. r \<noteq> p \<Longrightarrow> r \<notin> proot ` set ks \<Longrightarrow> h' ! r = h ! r"
    using pop_loop_moves [OF p b, of li "map proot us" "[]"] by auto
  have out: "h' ! r = h ! r" if "r = li \<or> r \<in> set (concat (map ptrs us)) \<or> r \<in> set (concat (map ptrs rest))" for r
  proof (rule h'(6))
    show "r \<noteq> p" using that d by (auto simp del: set_concat)
    have "r \<notin> set (concat (map ptrs ks))" using that d by (auto simp del: set_concat)
    then show "r \<notin> proot ` set ks" using in_ks by blast
  qed
  have keep: "rep h' (Some li) u" if "u \<in> set us \<or> u \<in> set rest" for u
  proof (rule rep_frame [of h])
    show "rep h (Some li) u" using c that by (auto simp: collected_def list_all_iff)
    fix r assume "r \<in> set (ptrs u)"
    then have "h' ! r = h ! r" using \<open>u \<in> set us \<or> u \<in> set rest\<close> by (intro out) auto
    then show "same_links h h' r" by (simp add: same_links_def h'(2))
  qed
  have new: "rep h' (Some li) k" if k: "k \<in> set ks" for k
  proof (rule rep_moved [OF rk [OF k]])
    show "distinct (ptrs k)" using d k distinct_subtree [of ks k] by simp
    show pk: "p \<notin> set (ptrs k)" using d k by auto
    show "children (h' ! r) = children (h ! r)" if "r \<in> set (ptrs k)" for r using h'(4) pk that by metis
    have only: "r = proot k" if r: "r \<in> set (ptrs k)" "r \<in> proot ` set ks" for r
    proof -
      obtain k2 where k2: "k2 \<in> set ks" "r = proot k2" using r(2) by blast
      then have "r \<in> set (ptrs k2)" by simp
      then have "k2 = k" using d r(1) k2(1) k disjoint_sub [of ks k2 k] by auto
      then show ?thesis using k2 by simp
    qed
    show "parentNode (h' ! r) = (if r = proot k then Some li else parentNode (h ! r))" if "r \<in> set (ptrs k)" for r
      unfolding h'(5) using only [OF that] k by (metis imageI)
  qed (simp add: h'(2))
  have "collected li h' (us @ ks) rest" using d keep new c h'(2) by (auto simp: collected_def list_all_iff)
  then show ?thesis using h'(1,3) out by blast
qed

lemma collected_br:
  assumes c: "collected li h us rest" and cr: "createElement_tag ''br'' h = (hb, br)"
  shows "collected li (set_parent br (Some li) hb) (us @ [PT br []]) rest \<and> carries h (set_parent br (Some li) hb) \<and>
    doc (set_parent br (Some li) hb) (PT br []) = br_doc \<and> (\<forall>r < length h. set_parent br (Some li) hb ! r = h ! r)"
proof -
  let ?h = "set_parent br (Some li) hb"
  have e: "br = length h" "length ?h = Suc (length h)" "\<forall>r < length h. ?h ! r = h ! r"
    "?h ! length h = (new_uNode Element None ''br'' None None (Some []))\<lparr>parentNode := Some li\<rparr>"
    using cr by (auto simp: createElement_tag_def alloc_def link_simps nth_append)
  have old: "rep ?h (Some li) u" if "u \<in> set us \<or> u \<in> set rest" for u
  proof (rule rep_frame [of h])
    show ru: "rep h (Some li) u" using c that by (auto simp: collected_def list_all_iff)
    show "same_links h ?h r" if "r \<in> set (ptrs u)" for r using rep_bound [OF ru that] e(2,3) by (simp add: same_links_def)
  qed
  have "length h \<notin> set (ptrs u)" if "u \<in> set us \<or> u \<in> set rest" for u
    using that c rep_bound [of h "Some li" u "length h"] by (auto simp: collected_def list_all_iff)
  then have "collected li ?h (us @ [PT br []]) rest"
    using c old e by (auto simp: collected_def list_all_iff new_uNode_def)
  then show ?thesis using e by (auto simp: carries_def new_uNode_def br_doc_def)
qed


lemma br_end_doc: "ends_in_br h (map proot us) = br_end (map (doc h) us)"
proof (cases "us = []")
  case False
  have "last (map (doc h) us) = doc h (last us)" "last (map proot us) = proot (last us)" using False by (simp_all add: last_map)
  then show ?thesis using False by (cases "last us") (simp add: ends_in_br_def br_end_def)
qed (simp add: ends_in_br_def br_end_def)

lemma item_out_keeps: "acc \<noteq> [] \<Longrightarrow> item_out acc ts \<noteq> []"
  by (induction acc ts rule: item_out.induct) (auto simp: with_br_def)

lemma item_out_some: "list_ex is_p ts \<Longrightarrow> item_out acc ts \<noteq> []"
proof (induction acc ts rule: item_out.induct)
  case (2 acc ty d tg ats ks ts)
  have "with_br ds \<noteq> []" for ds by (simp add: with_br_def br_end_def)
  then show ?case using 2 item_out_keeps by auto
qed simp

lemma item_out_none: "\<not> list_ex is_p ts \<Longrightarrow> item_out acc ts = acc"
  by (induction acc ts rule: item_out.induct) auto

lemma unwrap_p_step:
  assumes c: "collected li h us (PT p ks # rest)" and ch: "children (h ! p) \<noteq> None"
  shows "\<exists>us' h'. unwrap_p li p (map proot us, length us, h) = Inr (map proot us', length us', h') \<and> collected li h' us' rest \<and>
    carries h h' \<and> h' ! li = h ! li \<and> (\<forall>r \<in> set (concat (map ptrs rest)). h' ! r = h ! r) \<and>
    map (doc h') us' = with_br (map (doc h) us @ map (doc h) ks)"
proof -
  have r: "list_all (rep h (Some li)) us" "list_all (rep h (Some p)) ks" and cs: "children (h ! p) = Some (map proot ks)"
    using c ch by (auto simp: collected_def)
  obtain h1 where h1: "pop_loop li p (length us) (rev (map proot ks)) (map proot us) h = (map proot (us @ ks), h1)"
    "collected li h1 (us @ ks) rest" "carries h h1" "h1 ! li = h ! li" "\<forall>r \<in> set (concat (map ptrs rest)). h1 ! r = h ! r"
    using collected_step [OF c] by blast
  have d: "map (doc h1) (us @ ks) = map (doc h) us @ map (doc h) ks" using docs_carries [OF h1(3) r(1)] docs_carries [OF h1(3) r(2)] by simp
  show ?thesis
  proof (cases "ends_in_br h1 (map proot (us @ ks))")
    case True
    then have "unwrap_p li p (map proot us, length us, h) = Inr (map proot (us @ ks), length (us @ ks), h1)"
      using h1(1) by (simp add: unwrap_p_def cs)
    moreover have "map (doc h1) (us @ ks) = with_br (map (doc h) us @ map (doc h) ks)"
      using True d by (simp add: br_end_doc with_br_def del: map_append)
    ultimately show ?thesis using h1 by blast
  next
    case False
    obtain hb br where cr: "createElement_tag ''br'' h1 = (hb, br)" by (cases "createElement_tag ''br'' h1")
    let ?h = "set_parent br (Some li) hb"
    note b = collected_br [OF h1(2) cr]
    have "unwrap_p li p (map proot us, length us, h) = Inr (map proot (us @ ks @ [PT br []]), length (us @ ks @ [PT br []]), ?h)"
      using False h1(1) cr by (simp add: unwrap_p_def cs)
    moreover have "map (doc ?h) (us @ ks @ [PT br []]) = with_br (map (doc h) us @ map (doc h) ks)"
    proof -
      have "list_all (rep h1 (Some li)) (us @ ks)" using h1(2) by (simp add: collected_def)
      then have "map (doc ?h) (us @ ks) = map (doc h1) (us @ ks)" using b by (intro docs_carries) auto
      moreover have "\<not> br_end (map (doc h) us @ map (doc h) ks)" using False d by (simp add: br_end_doc del: map_append)
      ultimately show ?thesis using b d by (simp add: with_br_def)
    qed
    moreover have "?h ! r = h ! r" if "r = li \<or> r \<in> set (concat (map ptrs rest))" for r
    proof -
      have "r < length h1" using h1(2) that rep_bound by (auto simp: collected_def list_all_iff)
      then show ?thesis using b h1(4,5) that by auto
    qed
    moreover have "carries h ?h" using b h1(3) carries_trans by blast
    ultimately show ?thesis using b by (intro exI [of _ "us @ ks @ [PT br []]"] exI [of _ ?h]) auto
  qed
qed

lemma unwrap_loop_items:
  "collected li h us rest \<Longrightarrow> \<forall>t \<in> set rest. tagName (h ! proot t) = ''p'' \<longrightarrow> children (h ! proot t) \<noteq> None \<Longrightarrow>
   \<exists>us' h'. unwrap_loop li (map proot rest) (map proot us, length us, h) = Inr (map proot us', length us', h') \<and> collected li h' us' [] \<and>
     carries h h' \<and> h' ! li = h ! li \<and> map (doc h') us' = item_out (map (doc h) us) (map (doc h) rest) \<and>
     (list_all (\<lambda>t. \<not> is_p (doc h t)) rest \<longrightarrow> h' = h)"
proof (induction rest arbitrary: us h)
  case (Cons t rest)
  obtain p ks where t: "t = PT p ks" by (cases t)
  have rr: "list_all (rep h (Some li)) rest" using Cons.prems(1) by (simp add: collected_def)
  show ?case
  proof (cases "tagName (h ! p) = ''p''")
    case True
    then obtain us1 h1 where s: "unwrap_p li p (map proot us, length us, h) = Inr (map proot us1, length us1, h1)" "collected li h1 us1 rest"
      "carries h h1" "h1 ! li = h ! li" "\<forall>r \<in> set (concat (map ptrs rest)). h1 ! r = h ! r"
      "map (doc h1) us1 = with_br (map (doc h) us @ map (doc h) ks)"
      using unwrap_p_step [of li h us p ks rest] Cons.prems by (auto simp: t)
    have same: "h1 ! proot x = h ! proot x" if "x \<in> set rest" for x using s(5) that proot_in_ptrs [of x] by auto
    then have "\<forall>x \<in> set rest. tagName (h1 ! proot x) = ''p'' \<longrightarrow> children (h1 ! proot x) \<noteq> None" using Cons.prems(2) by simp
    from Cons.IH [OF s(2) this] obtain us' h' where
      i: "unwrap_loop li (map proot rest) (map proot us1, length us1, h1) = Inr (map proot us', length us', h')" "collected li h' us' []"
      "carries h1 h'" "h' ! li = h1 ! li" "map (doc h') us' = item_out (map (doc h1) us1) (map (doc h1) rest)" by blast
    have "map (doc h1) rest = map (doc h) rest" using s(3) rr by (rule docs_carries)
    then show ?thesis using i s True carries_trans [OF s(3) i(3)]
      by (intro exI [of _ us'] exI [of _ h']) (simp add: t del: map_eq_conv)
  next
    case False
    have "collected li h us rest" using Cons.prems(1) by (auto simp: collected_def)
    from Cons.IH [OF this] Cons.prems(2) False show ?thesis by (simp add: t)
  qed
qed auto

subsection \<open>Properties\<close>

text \<open>C40. The output rule on a list item ends without throwing and leaves a tree. An item without paragraphs is left as it is. Of an
  item with a paragraph only the contents of the paragraphs remain, in their order and each closed by a line break
  unless it ends in one already; text, nested lists and every other child of such an item are dropped.\<close>

theorem unwrap_li_drops_the_rest:
  assumes r: "represents h par (PT li ts)" and p: "\<forall>t \<in> set ts. is_p (doc h t) \<longrightarrow> children (h ! proot t) \<noteq> None"
  shows "\<exists>h' us. unwrap_li li h = Inr h' \<and> represents h' par (PT li us) \<and>
    map (doc h') us = (if list_ex is_p (map (doc h) ts) then item_out [] (map (doc h) ts) else map (doc h) ts)"
proof (cases "children (h ! li)")
  case None
  then have "ts = []" using r by (simp add: represents_def)
  then show ?thesis using r None by (auto simp: unwrap_li_def)
next
  case (Some cs)
  then have cs: "cs = map proot ts" using r by (simp add: represents_def)
  have c: "collected li h [] ts" using r by (simp add: collected_def represents_def)
  have "\<forall>t \<in> set ts. tagName (h ! proot t) = ''p'' \<longrightarrow> children (h ! proot t) \<noteq> None"
    using p by (metis doc.simps is_p.simps ptree.exhaust ptree.sel(1))
  then obtain us h1 where u: "unwrap_loop li cs ([], 0, h) = Inr (map proot us, length us, h1)" "collected li h1 us []" "h1 ! li = h ! li"
    "map (doc h1) us = item_out [] (map (doc h) ts)" "list_all (\<lambda>t. \<not> is_p (doc h t)) ts \<longrightarrow> h1 = h"
    using unwrap_loop_items [OF c] by (auto simp: cs)
  show ?thesis
  proof (cases "list_ex is_p (map (doc h) ts)")
    case True
    let ?h = "set_children li (map proot us) h1"
    have "us \<noteq> []" using u(4) item_out_some [OF True, of "[]"] by auto
    then have e: "unwrap_li li h = Inr ?h" using Some u(1) by (simp add: unwrap_li_def)
    have li: "li < length h1" "li \<notin> set (concat (map ptrs us))" "list_all (rep h1 (Some li)) us" using u(2) by (simp_all add: collected_def)
    have "rep ?h (Some li) x" if "x \<in> set us" for x
    proof (rule rep_frame [of h1])
      show "rep h1 (Some li) x" using li(3) that by (simp add: list_all_iff)
      fix q assume "q \<in> set (ptrs x)"
      then have "q \<noteq> li" using li(2) that by auto
      then show "same_links h1 ?h q" by (simp add: same_links_def link_simps)
    qed
    moreover have "parentNode (h1 ! li) = par" using u(3) r by (simp add: represents_def)
    ultimately have "represents ?h par (PT li us)" using u(2) li(1) by (simp add: represents_def collected_def link_simps list_all_iff)
    moreover have "map (doc ?h) us = map (doc h1) us" using li(3) by (intro docs_carries [of h1]) simp_all
    ultimately show ?thesis using e u(4) True by auto
  next
    case False
    then have "list_all (\<lambda>t. \<not> is_p (doc h t)) ts" by (simp add: list_ex_iff list_all_iff)
    then have "h1 = h" using u(5) by blast
    moreover have "us = []" using u(4) item_out_none [OF False, of "[]"] by simp
    ultimately show ?thesis using False r Some u(1) by (auto simp: unwrap_li_def)
  qed
qed


text \<open>An item with the text \<open>a\<close> before the paragraph \<open>b\<close>.\<close>

definition demo_item :: store where
  "demo_item = [new_uNode Element None ''li'' None None (Some [1, 2]), new_uNode Text (Some ''a'') undefined_name (Some 0) None None,
     new_uNode Element None ''p'' (Some 0) None (Some [3]), new_uNode Text (Some ''b'') undefined_name (Some 2) None None]"

theorem unwrap_li_drops_the_rest_witness:
  "\<exists>h' us. unwrap_li 0 demo_item = Inr h' \<and> represents h' None (PT 0 us) \<and>
     map (doc h') us = [UT Text (Some ''b'') undefined_name (Some []) [], br_doc]"
  using unwrap_li_drops_the_rest [of demo_item None 0 "[PT 1 [], PT 2 [PT 3 []]]"]
  by (simp add: demo_item_def new_uNode_def represents_def with_br_def br_end_def)

end
