(* ===== verification/Ajax.thy ===== *)
theory Ajax
  imports Utils
begin

text \<open>
  \<open>core/ajax.js\<close> and \<open>getActionUrl\<close> of \<open>core/Editor.js\<close>: how parameters become a query, which request is
  sent, and which callbacks run when. A request is followed through its events: changes of the ready state,
  the timer, the script of a JSONP call. What the browser does on \<open>abort\<close> is a parameter.

  The query is proved to be readable by a decoder of \<open>application/x-www-form-urlencoded\<close>, and every request to be answered by
  one callback; for JSONP, a script that fails and a timer that was not cleared give two. Callbacks of the caller return.
  The string conversion of a value is that of primitive values.
\<close>

subsection \<open>Parameters\<close>

definition ajax_ignored :: "string list" where
  "ajax_ignored = [''method'', ''timeout'', ''async'', ''dataType'', ''callback'']"

definition query_one :: "string \<Rightarrow> jsval \<Rightarrow> string list" where
  "query_one i v =
     (if i \<in> set ajax_ignored then []
      else if v = JUndef \<or> v = JNull then []
      else if \<not> (toLowerCase (typeof v) = ''function'' \<or> toLowerCase (typeof v) = ''object'')
      then [encodeURIComponent i @ ''='' @ encodeURIComponent (to_str v)]
      else (case v of
          JArr xs \<Rightarrow> map (\<lambda>x. encodeURIComponent i @ ''[]='' @ encodeURIComponent (to_str x)) xs
        | _ \<Rightarrow> []))"

text \<open>The keys that \<open>for .. in\<close> visits; those of a text are its positions.\<close>

definition for_in :: "jsval \<Rightarrow> (string \<times> jsval) list" where
  "for_in json = (case json of
     JStr s \<Rightarrow> zip (map nat_str [0..<length s]) (map (\<lambda>c. JStr [c]) s) | _ \<Rightarrow> own_entries json)"

definition json2query :: "jsval \<Rightarrow> string" where
  "json2query json = join ''&'' (concat (map (\<lambda>(i, v). query_one i v) (for_in json)))"

subsection \<open>The request\<close>

record request =
  req_method :: string
  req_target :: string
  req_body :: "string option"

definition defaultAjaxOptions :: "jsval jsobj" where
  "defaultAjaxOptions = [(''method'', JStr ''POST''), (''timeout'', JNum (Some 5000)), (''async'', JBool True), (''data'', JObj []),
     (''onsuccess'', JFun), (''onerror'', JFun)]"

definition url_sep :: "string \<Rightarrow> string" where
  "url_sep url = (if CHR ''?'' \<in> set url then ''&'' else ''?'')"

definition submit_str :: "jsval jsobj \<Rightarrow> string" where
  "submit_str opts =
     (let submitStr = json2query (JObj opts);
          dat = (case obj_get opts ''data'' of Some d \<Rightarrow> d | None \<Rightarrow> JUndef)
      in if \<not> isEmptyObject dat then submitStr @ (if submitStr \<noteq> [] then ''&'' else []) @ json2query dat else submitStr)"

text \<open>\<open>None\<close> is the return without a request; \<open>now\<close> is \<open>+new Date\<close>.\<close>

definition doAjax :: "nat \<Rightarrow> jsval \<Rightarrow> jsval jsobj option \<Rightarrow> request option res" where
  "doAjax now url ajaxOptions =
     (let (url, ajaxOptions) = (case url of
            JObj o1 \<Rightarrow> ((case obj_get o1 ''url'' of Some u \<Rightarrow> u | None \<Rightarrow> JUndef), Some o1)
          | _ \<Rightarrow> (url, ajaxOptions))
      in case url of
        JStr (c # cs) \<Rightarrow>
          (let ajaxOpts = (case ajaxOptions of Some os \<Rightarrow> Utils.extend defaultAjaxOptions os False | None \<Rightarrow> defaultAjaxOptions);
               submitStr = submit_str ajaxOpts
           in case obj_get ajaxOpts ''method'' of
                Some (JStr mt) \<Rightarrow>
                  (let meth = toUpperCase mt in
                   Inr (Some \<lparr>req_method = meth,
                     req_target = (c # cs) @ url_sep (c # cs) @ (if meth = ''POST'' then [] else submitStr @ ''&noCache='' @ nat_str now),
                     req_body = (if meth = ''POST'' then Some submitStr else None)\<rparr>))
              | _ \<Rightarrow> Inl TypeError)
      | _ \<Rightarrow> Inr None)"

definition controller_re :: re where
  "controller_re = seqs [Bol, Cap 1 (Seq (many anychar) (chr CHR ''/'')), some anychar, Cap 2 (Seq (chr CHR ''.'') (some anychar)), Eol]"

definition getActionUrl :: "(string \<Rightarrow> string) \<Rightarrow> string \<Rightarrow> string" where
  "getActionUrl getOpt action =
     (let actionName = (if getOpt action \<noteq> [] then getOpt action else action);
          serverUrl = (if getOpt ''serverUrl'' = [] \<and> getOpt ''imageUrl'' \<noteq> []
            then replace_first controller_re (\<lambda>_ cs. (case cap 1 cs of Some a \<Rightarrow> a | None \<Rightarrow> []) @ ''controller'' @
                   (case cap 2 cs of Some b \<Rightarrow> b | None \<Rightarrow> [])) (getOpt ''imageUrl'')
            else getOpt ''serverUrl'')
      in if serverUrl \<noteq> [] then formatUrl (serverUrl @ url_sep serverUrl @ ''action='' @ actionName) else [])"

subsection \<open>The life of a request\<close>

datatype outcome = OnSuccess | OnError

datatype ajax_event = Ready nat nat | Timeout

record ajax =
  readyState :: nat
  xhr_status :: nat
  timeIsOut :: bool
  timer_set :: bool
  called :: "outcome list"

definition sent :: ajax where
  "sent = \<lparr>readyState = 1, xhr_status = 0, timeIsOut = False, timer_set = True, called = []\<rparr>"

definition onreadystatechange :: "ajax \<Rightarrow> ajax" where
  "onreadystatechange a =
     (if readyState a = 4
      then a\<lparr>called := called a @ [if \<not> timeIsOut a \<and> xhr_status a = 200 then OnSuccess else OnError]\<rparr> else a)"

text \<open>\<open>abort\<close> notifies the handler of the ready states that the parameter gives, with status 0, and leaves the object unsent.\<close>

definition xhr_abort :: "(nat \<Rightarrow> nat list) \<Rightarrow> ajax \<Rightarrow> ajax" where
  "xhr_abort ab a =
     (foldl (\<lambda>a s. onreadystatechange (a\<lparr>readyState := s, xhr_status := 0\<rparr>)) a (ab (readyState a)))\<lparr>readyState := 0\<rparr>"

definition ajax_timeout :: "(nat \<Rightarrow> nat list) \<Rightarrow> ajax \<Rightarrow> ajax" where
  "ajax_timeout ab a =
     (let a = a\<lparr>timer_set := False\<rparr> in if readyState a \<noteq> 4 then xhr_abort ab (a\<lparr>timeIsOut := True\<rparr>) else a)"

fun ajax_step :: "(nat \<Rightarrow> nat list) \<Rightarrow> ajax_event \<Rightarrow> ajax \<Rightarrow> ajax" where
  "ajax_step ab (Ready s st) a = onreadystatechange (a\<lparr>readyState := s, xhr_status := st\<rparr>)"
| "ajax_step ab Timeout a = (if timer_set a then ajax_timeout ab a else a)"

definition ajax_run :: "(nat \<Rightarrow> nat list) \<Rightarrow> ajax_event list \<Rightarrow> ajax" where
  "ajax_run ab es = fold (ajax_step ab) es sent"

text \<open>The order of events: ready states do not go back, nothing follows the last one or an abort, the timer fires once.\<close>

fun possible :: "nat \<Rightarrow> bool \<Rightarrow> ajax_event list \<Rightarrow> bool" where
  "possible s t [] = True"
| "possible s t (Ready n st # es) \<longleftrightarrow> s \<in> {1, 2, 3} \<and> s \<le> n \<and> n \<le> 4 \<and> possible n t es"
| "possible s t (Timeout # es) \<longleftrightarrow> t \<and> possible (if s = 4 then 4 else 0) False es"

subsection \<open>JSONP\<close>

datatype jsonp_call = JSuccess | JError | JComplete

datatype jsonp_event = Loaded | ScriptError | JTimeout

record jsonp =
  cb_defined :: bool
  scr_inserted :: bool
  jtimer :: bool
  jlog :: "jsonp_call list"

text \<open>The state after \<open>doJsonp\<close> for a success handler that is a function; \<open>timeOut\<close> 0 sets no timer.\<close>

definition doJsonp :: "nat \<Rightarrow> jsonp" where
  "doJsonp timeOut = \<lparr>cb_defined = True, scr_inserted = True, jtimer = (timeOut \<noteq> 0), jlog = []\<rparr>"

definition getCallBack :: "bool \<Rightarrow> jsonp \<Rightarrow> jsonp" where
  "getCallBack onTimeOut j =
     (let j = (if onTimeOut then j\<lparr>jlog := jlog j @ [JError]\<rparr> else j\<lparr>jtimer := False, jlog := jlog j @ [JSuccess]\<rparr>)
      in j\<lparr>jlog := jlog j @ [JComplete], scr_inserted := False, cb_defined := False\<rparr>)"

fun jsonp_step :: "jsonp_event \<Rightarrow> jsonp \<Rightarrow> jsonp" where
  "jsonp_step Loaded j = (if cb_defined j then getCallBack False j else j)"
| "jsonp_step ScriptError j = getCallBack True j"
| "jsonp_step JTimeout j = (if jtimer j then getCallBack True (j\<lparr>jtimer := False\<rparr>) else j)"

definition jsonp_run :: "nat \<Rightarrow> jsonp_event list \<Rightarrow> jsonp" where
  "jsonp_run timeOut es = fold jsonp_step es (doJsonp timeOut)"

definition jsonp_re :: "string \<Rightarrow> re" where
  "jsonp_re callbackField =
     seqs [Cap 1 (Alt (chr CHR ''?'') (chr CHR ''&'')), lit (callbackField @ ''=''), Cap 2 (many (ncls ''&''))]"

text \<open>The address of the script, without and then with the parameters of the caller.\<close>

definition jsonp_url :: "string \<Rightarrow> string \<Rightarrow> jsval jsobj \<Rightarrow> string \<Rightarrow> string" where
  "jsonp_url callbackField callbackFnName opts url =
     (let url = replace_first (jsonp_re callbackField)
            (\<lambda>_ cs. (case cap 1 cs of Some a \<Rightarrow> a | None \<Rightarrow> []) @ callbackField @ ''='' @ callbackFnName) url;
          url = (if test (jsonp_re callbackField) url then url else url @ url_sep url @ callbackField @ ''='' @ callbackFnName);
          queryStr = submit_str opts
      in if queryStr \<noteq> [] then replace_first (chr CHR ''?'') (\<lambda>_ _. ''?'' @ queryStr @ ''&'') url else url)"

subsection \<open>Reading a query\<close>

definition hex_digit :: "char \<Rightarrow> nat" where
  "hex_digit c = (if is_digit c then code c - 48 else code c - 55)"

fun decodeURI :: "string \<Rightarrow> string" where
  "decodeURI (c # a # b # s) = (if c = CHR ''%'' then char_of (16 * hex_digit a + hex_digit b) # decodeURI s else c # decodeURI (a # b # s))"
| "decodeURI (c # s) = c # decodeURI s"
| "decodeURI [] = []"

definition read_pair :: "string \<Rightarrow> string \<times> string" where
  "read_pair p = (decodeURI (takeWhile (\<lambda>c. c \<noteq> CHR ''='') p), decodeURI (drop 1 (dropWhile (\<lambda>c. c \<noteq> CHR ''='') p)))"

definition read_query :: "string \<Rightarrow> (string \<times> string) list" where
  "read_query s = map read_pair (filter (\<lambda>p. p \<noteq> []) (split_on CHR ''&'' s))"

text \<open>The parameters that an object stands for.\<close>

definition param_of :: "string \<Rightarrow> jsval \<Rightarrow> (string \<times> string) list" where
  "param_of i v =
     (if i \<in> set ajax_ignored then []
      else case v of
        JArr xs \<Rightarrow> map (\<lambda>x. (i @ ''[]'', to_str x)) xs
      | JBool _ \<Rightarrow> [(i, to_str v)]
      | JNum _ \<Rightarrow> [(i, to_str v)]
      | JStr _ \<Rightarrow> [(i, to_str v)]
      | _ \<Rightarrow> [])"

definition params :: "jsval \<Rightarrow> (string \<times> string) list" where
  "params json = concat (map (\<lambda>(i, v). param_of i v) (for_in json))"

lemma hex_back: "d < 16 \<Longrightarrow> hex_digit (upper_char (hex_char d)) = d \<and> upper_char (hex_char d) \<notin> set ''&=%''"
proof -
  assume d: "d < 16"
  then have c: "code (upper_char (hex_char d)) = (if d < 10 then 48 + d else 55 + d)"
    by (auto simp: upper_char_def hex_char_def is_lower_def code_def)
  have "x \<notin> set ''&=%''" if "code x \<noteq> 37" "code x \<noteq> 38" "code x \<noteq> 61" for x using that by (auto simp: code_def)
  then show ?thesis using c d by (auto simp: hex_digit_def is_digit_def split: if_splits)
qed

lemma hex_split:
  obtains a b where "hex2 (code c) = [a, b]" "char_of (16 * hex_digit a + hex_digit b) = c" "set [a, b] \<inter> set ''&=%'' = {}"
proof -
  have n: "code c div 16 < 16" "code c mod 16 < 16" by (simp_all add: code_def less_mult_imp_div_less)
  have e: "hex2 (code c) = [upper_char (hex_char (code c div 16)), upper_char (hex_char (code c mod 16))]"
    by (simp add: hex2_def toUpperCase_def)
  have "16 * (code c div 16) + code c mod 16 = code c" by simp
  then have "char_of (16 * hex_digit (upper_char (hex_char (code c div 16))) + hex_digit (upper_char (hex_char (code c mod 16)))) = c"
    using hex_back [OF n(1)] hex_back [OF n(2)] by (simp add: code_def)
  moreover have "set [upper_char (hex_char (code c div 16)), upper_char (hex_char (code c mod 16))] \<inter> set ''&=%'' = {}"
    using hex_back [OF n(1)] hex_back [OF n(2)] by auto
  ultimately show ?thesis using that e by blast
qed

lemma unreserved_plain: "uri_unreserved c \<Longrightarrow> c \<notin> set ''&=%''"
  by (auto simp: uri_unreserved_def is_digit_def is_upper_def is_lower_def code_def apos_def)

lemma decode_plain: "c \<noteq> CHR ''%'' \<Longrightarrow> decodeURI (c # s) = c # decodeURI s"
  by (cases s; cases "tl s") auto

lemma decode_encode: "decodeURI (encodeURIComponent s @ t) = s @ decodeURI t"
proof (induction s)
  case (Cons c s)
  show ?case
  proof (cases "uri_unreserved c")
    case True
    then have "c \<noteq> CHR ''%''" using unreserved_plain by auto
    then show ?thesis using True Cons by (simp add: encodeURIComponent_def decode_plain)
  next
    case False
    obtain a b where "hex2 (code c) = [a, b]" "char_of (16 * hex_digit a + hex_digit b) = c" by (rule hex_split)
    then show ?thesis using False Cons by (simp add: encodeURIComponent_def)
  qed
qed (simp add: encodeURIComponent_def)

lemma encode_chars: "x \<in> set (encodeURIComponent s) \<Longrightarrow> x \<noteq> CHR ''&'' \<and> x \<noteq> CHR ''=''"
proof (induction s)
  case (Cons c s)
  obtain a b where h: "hex2 (code c) = [a, b]" "set [a, b] \<inter> set ''&=%'' = {}" by (rule hex_split)
  have "x \<notin> set ''&=''" if "x \<in> set (if uri_unreserved c then [c] else CHR ''%'' # hex2 (code c))"
    using that h unreserved_plain [of c] by (auto split: if_splits)
  then show ?case using Cons by (auto simp: encodeURIComponent_def)
qed (simp add: encodeURIComponent_def)

lemma encode_no_sep [simp]: "CHR ''&'' \<notin> set (encodeURIComponent s)" "CHR ''='' \<notin> set (encodeURIComponent s)"
  using encode_chars by blast+

lemma read_pair_encoded:
  assumes "set suffix \<inter> {CHR ''='', CHR ''%''} = {}" "decodeURI suffix = suffix"
  shows "read_pair (encodeURIComponent k @ suffix @ ''='' @ encodeURIComponent v) = (k @ suffix, v)"
proof -
  let ?p = "\<lambda>c. c \<noteq> CHR ''=''"
  have n: "\<forall>x \<in> set (encodeURIComponent k @ suffix). ?p x" using encode_chars assms(1) by auto
  have t: "takeWhile ?p ((encodeURIComponent k @ suffix) @ ''='' @ encodeURIComponent v) = encodeURIComponent k @ suffix"
    using n by (subst takeWhile_append2) auto
  have d: "dropWhile ?p ((encodeURIComponent k @ suffix) @ ''='' @ encodeURIComponent v) = ''='' @ encodeURIComponent v"
    using n by (subst dropWhile_append2) auto
  have "decodeURI (encodeURIComponent v) = v" using decode_encode [of v "[]"] by simp
  then show ?thesis using t d decode_encode [of k suffix] assms(2) by (simp add: read_pair_def)
qed

lemma read_query_one: "map read_pair (query_one i v) = param_of i v"
proof -
  have "read_pair (encodeURIComponent i @ ''='' @ encodeURIComponent s) = (i, s)" for s using read_pair_encoded [of "[]" i s] by simp
  moreover have "read_pair (encodeURIComponent i @ ''[]='' @ encodeURIComponent s) = (i @ ''[]'', s)" for s
    using read_pair_encoded [of "''[]''" i s] by simp
  ultimately show ?thesis by (cases v) (simp_all add: query_one_def param_of_def lower_char_def is_upper_def code_def)
qed

lemma query_one_chars: "p \<in> set (query_one i v) \<Longrightarrow> CHR ''&'' \<notin> set p \<and> p \<noteq> []"
  by (auto simp: query_one_def split: if_splits jsval.splits)

lemma split_on_whole: "c \<notin> set p \<Longrightarrow> split_on c p = [p]"
  by (induction p) auto

lemma split_on_append: "split_on c (a @ c # b) = split_on c a @ split_on c b"
  by (induction a) (auto split: list.splits)

lemma split_on_join: "(\<And>p. p \<in> set ps \<Longrightarrow> c \<notin> set p) \<Longrightarrow> ps \<noteq> [] \<Longrightarrow> split_on c (join [c] ps) = ps"
proof (induction ps)
  case (Cons p ps)
  show ?case
  proof (cases ps)
    case Nil
    then show ?thesis using Cons.prems by (simp add: split_on_whole)
  next
    case (Cons q qs)
    then show ?thesis using Cons.IH Cons.prems split_on_append [of c p "join [c] ps"] by (simp add: join_Cons split_on_whole)
  qed
qed simp

text \<open>Reading what was joined from the pieces of several objects.\<close>

lemma read_query_join:
  assumes "\<And>p. p \<in> set ps \<Longrightarrow> CHR ''&'' \<notin> set p \<and> p \<noteq> []"
  shows "read_query (join ''&'' ps) = map read_pair ps"
proof (cases "ps = []")
  case False
  then have "split_on CHR ''&'' (join ''&'' ps) = ps" using assms by (intro split_on_join) auto
  moreover have "filter (\<lambda>p. p \<noteq> []) ps = ps" using assms by (simp add: filter_id_conv)
  ultimately show ?thesis by (simp add: read_query_def)
qed (simp add: read_query_def)

lemma read_query_append: "read_query (a @ ''&'' @ b) = read_query a @ read_query b"
  using split_on_append [of "CHR ''&''" a b] by (simp add: read_query_def)

lemma json2query_params: "read_query (json2query json) = params json"
proof -
  have "read_query (json2query json) = map read_pair (concat (map (\<lambda>(i, v). query_one i v) (for_in json)))"
    unfolding json2query_def by (rule read_query_join) (auto dest!: query_one_chars)
  then show ?thesis by (simp add: map_concat comp_def read_query_one split_def params_def)
qed

lemma submit_str_params:
  "read_query (submit_str opts) = params (JObj opts) @
     (case obj_get opts ''data'' of Some d \<Rightarrow> if isEmptyObject d then [] else params d | None \<Rightarrow> [])"
proof -
  let ?q = "json2query (JObj opts)"
  have "read_query (?q @ (if ?q \<noteq> [] then ''&'' else []) @ b) = params (JObj opts) @ read_query b" for b
    using json2query_params [of "JObj opts"] read_query_append [of ?q b] by (cases "?q = []") (auto simp: read_query_def)
  then show ?thesis by (simp add: submit_str_def Let_def json2query_params isEmptyObject_def split: option.splits jsval.splits)
qed

subsection \<open>Which callback runs\<close>

text \<open>The first event that ends the request decides.\<close>

fun verdict :: "ajax_event list \<Rightarrow> outcome option" where
  "verdict [] = None"
| "verdict (Timeout # es) = Some OnError"
| "verdict (Ready s st # es) = (if s = 4 then Some (if st = 200 then OnSuccess else OnError) else verdict es)"

lemma ajax_over:
  "possible s t es \<Longrightarrow> s = 0 \<and> \<not> t \<or> s = 4 \<Longrightarrow> readyState a = s \<Longrightarrow> timer_set a = t \<Longrightarrow>
   called (fold (ajax_step ab) es a) = called a"
proof (induction es arbitrary: s t a)
  case (Cons ev es)
  show ?case
  proof (cases ev)
    case Timeout
    then have s: "s = 4" "t" "possible 4 False es" using Cons.prems by (auto split: if_splits)
    then have "ajax_step ab ev a = a\<lparr>timer_set := False\<rparr>" using Timeout Cons.prems by (simp add: ajax_timeout_def)
    then show ?thesis using Cons.IH [OF s(3), of "a\<lparr>timer_set := False\<rparr>"] Cons.prems s(1) by simp
  qed (use Cons.prems in auto)
qed simp

lemma ajax_pending:
  assumes ab: "\<forall>s \<in> {1, 2, 3}. ab s = [4]"
  shows "possible s True es \<Longrightarrow> s \<in> {1, 2, 3} \<Longrightarrow> readyState a = s \<Longrightarrow> timer_set a \<Longrightarrow> \<not> timeIsOut a \<Longrightarrow> called a = [] \<Longrightarrow>
   called (fold (ajax_step ab) es a) = (case verdict es of None \<Rightarrow> [] | Some r \<Rightarrow> [r])"
proof (induction es arbitrary: s a)
  case (Cons ev es)
  show ?case
  proof (cases ev)
    case Timeout
    have p: "possible 0 False es" using Cons.prems(1,2) Timeout by auto
    have "ab (readyState a) = [4]" using ab Cons.prems(2,3) by auto
    then have "ajax_step ab ev a = a\<lparr>timer_set := False, timeIsOut := True, readyState := 0, xhr_status := 0, called := [OnError]\<rparr>"
      using Timeout Cons.prems by (auto simp: ajax_timeout_def xhr_abort_def onreadystatechange_def)
    then show ?thesis using ajax_over [OF p] Timeout by simp
  next
    case (Ready n st)
    let ?a = "a\<lparr>readyState := n, xhr_status := st\<rparr>"
    have p: "possible n True es" "s \<le> n" "n \<le> 4" using Cons.prems(1) Ready by auto
    show ?thesis
    proof (cases "n = 4")
      case True
      have p4: "possible 4 True es" using p(1) True by simp
      have "ajax_step ab ev a = ?a\<lparr>called := [if st = 200 then OnSuccess else OnError]\<rparr>"
        using Ready True Cons.prems by (simp add: onreadystatechange_def)
      then show ?thesis using ajax_over [OF p4] True Ready Cons.prems(4) by simp
    next
      case False
      then have n: "n \<in> {1, 2, 3}" using p(2,3) Cons.prems(2) by auto
      have "ajax_step ab ev a = ?a" using Ready False by (simp add: onreadystatechange_def)
      then show ?thesis using Cons.IH [OF p(1) n, of ?a] Cons.prems False Ready by simp
    qed
  qed
qed simp

subsection \<open>Properties\<close>

text \<open>C24. Every request that is under way is answered by exactly one callback, and by none before: the first of the last ready state and the timer
  decides, success means status 200 before the timer, and whatever comes after changes nothing. It relies on what a browser documents of
  \<open>abort\<close>: the handler is told of ready state 4.\<close>

theorem ajax_answers_once:
  assumes "\<forall>s \<in> {1, 2, 3}. ab s = [4]" "possible 1 True es"
  shows "called (ajax_run ab es) = (case verdict es of None \<Rightarrow> [] | Some r \<Rightarrow> [r])"
  unfolding ajax_run_def by (rule ajax_pending [OF assms]) (simp_all add: sent_def)

theorem ajax_answers_once_witness:
  "called (ajax_run (\<lambda>s. if s \<in> {1, 2, 3} then [4] else []) [Ready 2 200, Timeout]) = [OnError]"
  using ajax_answers_once [of "\<lambda>s. if s \<in> {1, 2, 3} then [4] else []" "[Ready 2 200, Timeout]"] by simp

text \<open>C25. A POST request carries the parameters of the caller: reading its body as a form gives the options that are plain values or arrays, by
  name and in order, and after them the entries of \<open>data\<close>, whatever characters the names and values have.\<close>

theorem ajax_sends_parameters:
  assumes "url \<noteq> []" "opts = Utils.extend defaultAjaxOptions os False"
    and "obj_get opts ''method'' = Some (JStr mt)" "toUpperCase mt = ''POST''"
  shows "\<exists>r b. doAjax now (JStr url) (Some os) = Inr (Some r) \<and> req_method r = ''POST'' \<and> req_target r = url @ url_sep url \<and>
    req_body r = Some b \<and> read_query b = params (JObj opts) @
      (case obj_get opts ''data'' of Some d \<Rightarrow> if isEmptyObject d then [] else params d | None \<Rightarrow> [])"
proof -
  obtain c cs where "url = c # cs" using assms(1) by (cases url) auto
  then have "doAjax now (JStr url) (Some os) = Inr (Some \<lparr>req_method = ''POST'', req_target = url @ url_sep url, req_body = Some (submit_str opts)\<rparr>)"
    using assms(2-4) by (simp add: doAjax_def Let_def)
  then show ?thesis using submit_str_params [of opts] by simp
qed

theorem ajax_sends_parameters_witness:
  "\<exists>r b. doAjax 0 (JStr ''u'') (Some [(''a b'', JStr ''1&2''), (''xs'', JArr [JBool True])]) = Inr (Some r) \<and>
    req_body r = Some b \<and> read_query b = [(''a b'', ''1&2''), (''xs[]'', ''true'')]"
proof -
  let ?os = "[(''a b'', JStr ''1&2''), (''xs'', JArr [JBool True])]"
  have m: "obj_get (Utils.extend defaultAjaxOptions ?os False) ''method'' = Some (JStr ''POST'')" "toUpperCase ''POST'' = ''POST''" by code_simp+
  have p: "params (JObj (Utils.extend defaultAjaxOptions ?os False)) = [(''a b'', ''1&2''), (''xs[]'', ''true'')]"
    "obj_get (Utils.extend defaultAjaxOptions ?os False) ''data'' = Some (JObj [])" by code_simp+
  from ajax_sends_parameters [OF _ refl m, of "''u''" 0] show ?thesis using p by (auto simp: isEmptyObject_def)
qed

text \<open>A JSONP call with a timer whose script fails: the error branch does not clear the timer, which reports the error and the
  completion a second time.\<close>

theorem jsonp_reports_twice:
  "timeOut \<noteq> 0 \<Longrightarrow> jlog (jsonp_run timeOut [ScriptError, JTimeout]) = [JError, JComplete, JError, JComplete]"
  by (simp add: jsonp_run_def doJsonp_def getCallBack_def)

text \<open>The success handler runs at most once, and never after an error.\<close>

theorem jsonp_success_once:
  "jlog (jsonp_run timeOut es) = [] \<or> (\<exists>l. JSuccess \<notin> set l \<and> jlog (jsonp_run timeOut es) \<in> {l, JSuccess # l})"
proof -
  let ?I = "\<lambda>j. JSuccess \<notin> set (tl (jlog j)) \<and> (cb_defined j \<longleftrightarrow> jlog j = [])"
  have step: "?I (jsonp_step ev j)" if "?I j" for ev j using that by (cases ev; cases "jlog j") (auto simp: getCallBack_def)
  have "?I (fold jsonp_step es j)" if "?I j" for j using that
  proof (induction es arbitrary: j)
    case (Cons ev es)
    then show ?case using step [OF Cons.prems, of ev] by simp
  qed simp
  from this [of "doJsonp timeOut"] have "JSuccess \<notin> set (tl (jlog (jsonp_run timeOut es)))" by (simp add: jsonp_run_def doJsonp_def)
  moreover have "l = [] \<or> (\<exists>k. JSuccess \<notin> set k \<and> l \<in> {k, JSuccess # k})" if "JSuccess \<notin> set (tl l)" for l
    using that by (cases l; cases "hd l = JSuccess") auto
  ultimately show ?thesis by blast
qed

end
