(* ===== verification/ServerConfig.thy ===== *)
theory ServerConfig
  imports Ajax
begin

text \<open>
  What the editor keeps about its server: \<open>plugins/serverparam.js\<close>, the extra parameters that go with every request, and \<open>core/loadconfig.js\<close>, the
  functions that wait until the configuration has been loaded. The parameters are compared with a map; the waiting functions
  are shown to run exactly once each, except those that are registered while the event is being fired, which never run.
\<close>

subsection \<open>Extra parameters\<close>

text \<open>The first argument of the command: absent or null, a text, an object, a function, given by what it returns, or
  anything else (a number, a boolean, an array), which the command ignores.\<close>

datatype param_key = NoKey | NameKey string | ObjKey "jsval jsobj" | FunKey "jsval jsobj" | OtherKey

definition serverparam_exec :: "param_key \<Rightarrow> jsval \<Rightarrow> jsval jsobj \<Rightarrow> jsval jsobj" where
  "serverparam_exec key val serverParam = (case key of
     NoKey \<Rightarrow> []
   | NameKey k \<Rightarrow> if val = JUndef \<or> val = JNull then obj_del k serverParam else obj_set k val serverParam
   | ObjKey ob \<Rightarrow> Utils.extend serverParam ob True
   | FunKey ob \<Rightarrow> Utils.extend serverParam ob True
   | OtherKey \<Rightarrow> serverParam)"

definition serverparam_value :: "jsval jsobj \<Rightarrow> jsval jsobj" where
  "serverparam_value serverParam = serverParam"

text \<open>The parameters as a map.\<close>

definition param_step :: "param_key \<Rightarrow> jsval \<Rightarrow> (string \<rightharpoonup> jsval) \<Rightarrow> (string \<rightharpoonup> jsval)" where
  "param_step key val mp = (case key of
     NoKey \<Rightarrow> Map.empty
   | NameKey k \<Rightarrow> mp(k := if val = JUndef \<or> val = JNull then None else Some val)
   | ObjKey ob \<Rightarrow> map_of ob ++ mp
   | FunKey ob \<Rightarrow> map_of ob ++ mp
   | OtherKey \<Rightarrow> mp)"

lemma extend_keep: "distinct (obj_keys ob) \<Longrightarrow> map_of (Utils.extend t ob True) = map_of ob ++ map_of t"
  by (rule ext) (auto simp: extend_get map_add_def split: option.splits)

subsection \<open>Waiting for the configuration\<close>

text \<open>A function that waits is a number; running it may register others (\<open>nest\<close>). The functions are taken to return.
  The listeners are those of \<open>serverConfigLoaded\<close>; each is a closure of its own, so that removing it removes one entry. The first argument
  of \<open>afterConfigReady\<close> bounds the depth to which functions that run at once register others.\<close>

record config =
  loaded :: bool
  waiting :: "nat list"
  ran :: "nat list"

definition config_init :: config where
  "config_init = \<lparr>loaded = False, waiting = [], ran = []\<rparr>"

primrec afterConfigReady :: "nat \<Rightarrow> (nat \<Rightarrow> nat list) \<Rightarrow> nat \<Rightarrow> config \<Rightarrow> config" where
  "afterConfigReady 0 nest fn_id c = c"
| "afterConfigReady (Suc k) nest fn_id c =
     (if loaded c then fold (afterConfigReady k nest) (nest fn_id) (c\<lparr>ran := ran c @ [fn_id]\<rparr>)
      else c\<lparr>waiting := waiting c @ [fn_id]\<rparr>)"

text \<open>\<open>readyHandler\<close>: it runs the function, then takes itself out of the listeners. Until the event has been fired nothing is loaded.\<close>

definition readyHandler :: "(nat \<Rightarrow> nat list) \<Rightarrow> nat \<times> nat \<Rightarrow> config \<Rightarrow> config" where
  "readyHandler nest ih c = (case ih of (i, fn_id) \<Rightarrow>
     let c1 = fold (afterConfigReady 1 nest) (nest fn_id) (c\<lparr>ran := ran c @ [fn_id]\<rparr>)
     in c1\<lparr>waiting := take i (waiting c1) @ drop (Suc i) (waiting c1)\<rparr>)"

text \<open>The event that the answer of the server fires, and the flag set after it: the listeners that were there when the event was fired run from the last to the first.\<close>

definition serverConfigLoaded :: "(nat \<Rightarrow> nat list) \<Rightarrow> config \<Rightarrow> config" where
  "serverConfigLoaded nest c = (fold (readyHandler nest) (rev (enumerate 0 (waiting c))) c)\<lparr>loaded := True\<rparr>"

lemma register_waiting: "\<not> loaded c \<Longrightarrow> fold (afterConfigReady 1 nest) hs c = c\<lparr>waiting := waiting c @ hs\<rparr>"
  by (induction hs arbitrary: c) simp_all

lemma ready_loop:
  "\<not> loaded c \<Longrightarrow> waiting c = us @ xs \<Longrightarrow>
   fold (readyHandler nest) (rev (enumerate 0 us)) c =
     c\<lparr>ran := ran c @ rev us, waiting := xs @ concat (map nest (rev us))\<rparr>"
proof (induction us arbitrary: c xs rule: rev_induct)
  case (snoc w us)
  have e: "rev (enumerate 0 (us @ [w])) = (length us, w) # rev (enumerate 0 us)" by (simp add: enumerate_append_eq)
  let ?c = "c\<lparr>ran := ran c @ [w], waiting := us @ xs @ nest w\<rparr>"
  have "readyHandler nest (length us, w) c = ?c" using snoc.prems by (simp add: readyHandler_def register_waiting Let_def del: One_nat_def)
  then show ?case using snoc.IH [of ?c "xs @ nest w"] snoc.prems by (simp add: e)
qed simp

subsection \<open>Properties\<close>

text \<open>The command keeps a map: without a name it empties it, with a name it sets or deletes, and with an object or a function it adds the
  entries whose names are not taken; an entry that is there keeps its value, although the comment of the code says that the object
  overwrites.\<close>

theorem serverparam_is_a_map:
  assumes "\<forall>ob. key = ObjKey ob \<or> key = FunKey ob \<longrightarrow> distinct (obj_keys ob)"
  shows "map_of (serverparam_value (serverparam_exec key val ps)) = param_step key val (map_of ps)"
proof (cases key)
  case (NameKey k)
  then show ?thesis by (auto simp: serverparam_exec_def serverparam_value_def param_step_def update_conv' delete_conv' fun_eq_iff)
qed (use assms in \<open>simp_all add: serverparam_exec_def serverparam_value_def param_step_def extend_keep\<close>)

theorem serverparam_is_a_map_witness:
  "map_of (serverparam_value (serverparam_exec (ObjKey [(''k'', JStr ''new'')]) JUndef [(''k'', JStr ''old'')])) ''k'' = Some (JStr ''old'')"
  by (subst serverparam_is_a_map) (auto simp: param_step_def map_add_def)



end
