(* ===== verification/Spec2Isabelle.thy ===== *)
theory Spec2Isabelle
  imports Undo NodeSvr TableSort Login Preferences Plugin Content ListRules ServerConfig
begin

text \<open>
  A verification of the JavaScript that the repository itself carries: the rich text editor of the
  administration pages (\<open>web/system/ueditor_jsp/ueditor.all.js\<close>, one file made of many modules), the login page
  (\<open>web/system/js/login.js\<close>) and the HTTP server in front of the chain (\<open>appcode/nodeSvr\<close>).

  \<^bold>\<open>The parts and how they interact.\<close> A text enters the editor through \<open>UE.htmlparser\<close>, which builds a tree of
  \<open>uNode\<close> objects with the help of the element tables \<open>UE.dom.dtd\<close>; the white list \<open>UE.filterNode\<close> and the input rule
  of \<open>plugins/defaultfilter.js\<close> rewrite the tree with the operations of \<open>core/node.js\<close>, and \<open>toHtml\<close> prints it; on the way out
  the output rule undoes what the input rule hid. \<open>Editor.execCommand\<close> runs a command between two \<open>saveScene\<close>
  events, fired through \<open>core/EventBase.js\<close>; \<open>plugins/undo.js\<close> answers them by saving scenes, whose text goes through the
  parser again. \<open>plugins/table.core.js\<close> keeps an index beside every table, which the editing operations and
  \<open>plugins/table.sort.js\<close> rely on. \<open>core/plugin.js\<close> installs plugins in an editor, and \<open>core/localstorage.js\<close> stores preferences as
  JSON text. The login page and the server are programs of their own.

  \<^bold>\<open>Theories, in the order of the code.\<close>
  \<^item> \<open>Prelude\<close>: JavaScript strings (bytes of UTF-8), plain objects as association lists in insertion order, the results
    of statements that can throw (\<open>'a res\<close>, \<open>Inl\<close> the error), list lemmas.
  \<^item> \<open>JsRegExp\<close>: the regular expressions of the sources with the backtracking semantics of the language.
  \<^item> \<open>Utils\<close>, \<open>Escaping\<close>, \<open>Json\<close>: \<open>core/utils.js\<close> (\<open>each\<close>, \<open>indexOf\<close>, \<open>removeItem\<close>, \<open>trim\<close>, \<open>extend\<close>, \<open>clone\<close>, \<open>sort\<close>,
    \<open>unhtml\<close>, \<open>html\<close>, \<open>json2str\<close>, \<open>str2json\<close> and the smaller helpers).
  \<^item> \<open>EventBase\<close>: \<open>addListener\<close>, \<open>removeListener\<close>, \<open>fireEvent\<close> on a table of listeners.
  \<^item> \<open>Dtd\<close>: the tables of \<open>core/dtd.js\<close>, built by the same in-place extensions of shared sets.
  \<^item> \<open>UNode\<close>, \<open>UTree\<close>: \<open>core/node.js\<close> on an explicit store (a list of objects; a pointer is an index), and the tree
    that a store represents, over which the operations are specified.
  \<^item> \<open>HtmlParser\<close>, \<open>ParserInv\<close>: \<open>core/htmlparser.js\<close> and the invariant of its loop.
  \<^item> \<open>FilterNode\<close>: \<open>core/filternode.js\<close>. \<open>DefaultFilter\<close>, \<open>CdataFilter\<close>: the two rules of \<open>plugins/defaultfilter.js\<close>.
  \<^item> \<open>XssFilter\<close>: \<open>plugins/xssFilter.js\<close>. \<open>PluginRules\<close>: the filter rules of \<open>basestyle\<close>, \<open>font\<close>, \<open>anchor\<close>, \<open>charts\<close>, \<open>autoupload\<close>,
    \<open>simpleupload\<close> and \<open>table.plugin\<close>. \<open>ListRules\<close>: the output rule of \<open>plugins/list.js\<close> for
    \<open>disablePInList\<close>. \<open>Content\<close>: \<open>setContent\<close>, \<open>getContent\<close> and \<open>getPlainTxt\<close> of \<open>core/Editor.js\<close>, which run them.
  \<^item> \<open>Undo\<close>: \<open>UndoManager\<close> with the handlers that feed it, a step relation and its reachable states.
  \<^item> \<open>UETable\<close>, \<open>TableRange\<close>, \<open>TableOps\<close>, \<open>TableSort\<close>: the index of a table, navigation and selection, the editing
    operations, sorting.
  \<^item> \<open>Editor\<close>, \<open>Plugin\<close>, \<open>Preferences\<close>: the dispatching part of \<open>core/Editor.js\<close>, \<open>core/plugin.js\<close> with
    \<open>core/keymap.js\<close>, \<open>core/localstorage.js\<close> with the preferences.
  \<^item> \<open>Ajax\<close>: \<open>core/ajax.js\<close> (\<open>json2str\<close>, \<open>doAjax\<close>, \<open>doJsonp\<close>) and \<open>getActionUrl\<close>. \<open>ServerConfig\<close>: \<open>plugins/serverparam.js\<close>, and of \<open>core/loadconfig.js\<close> the
    functions that wait for the configuration.
  \<^item> \<open>NodeSvr\<close>: \<open>server.js\<close>, \<open>route.js\<close> and the handlers of \<open>appcode/nodeSvr\<close> as transitions of a connection.
  \<^item> \<open>Login\<close>: the page as a record, its buttons, timers and answers as events.

  \<^bold>\<open>What is shown.\<close> Parsing any text ends in a well-formed tree in which void elements have no children; filtering ends
  and leaves only what the white list allows; printing never throws on such a tree, and the composition is
  stated below. The node operations refine operations on trees. Escaping is undone by unescaping, printed JSON is read back,
  hidden scripts and anchors come out again, the parameters of a request are read back, a \<open>div\<close> becomes paragraphs without loss. The undo history is bounded and its index valid in every
  reachable state; undo and redo are inverse; a command takes exactly two scenes whatever it runs inside. Building the
  index of a table covers every position, every sequence of edits keeps it right, sorting permutes and orders
  rows. A connection of the server is answered at most once and independently of the others, and a complete conversation is
  answered. The login page stays within its bounds and its button comes back. \<open>setContent\<close> and \<open>getContent\<close> return for every text with any selection of the plugins' rules, and what the white list lets through
  is characterised exactly. A request gets exactly one callback, a function that waits for the configuration runs exactly once. Where the code falls short of what it is
  for, a theorem says so (an element that empties escapes the white list, corner cells that are missed, a body that stops the server, a throw that switches undo off, functions that wait for ever, list items that lose what is beside their paragraphs).

  \<^bold>\<open>Interfaces.\<close> \<open>listener_registry\<close> (a table of lists under keys, interpreted on the listeners), \<open>isolated\<close> (a system whose
  components only see their own events, interpreted on the server), \<open>kept_by\<close> (operations that keep an invariant,
  interpreted on the table edits), \<open>comparator\<close> (a comparison function that is a preorder, interpreted on the numeric keys of
  the table sort), \<open>node_walk\<close> (a function that deletes a node or changes its attributes, interpreted on the white list filter),
  \<open>rewriting\<close> and \<open>deleting\<close> (the two shapes of filter rules, interpreted on nine rules), \<open>content_rule\<close> (a rule that returns and
  leaves a printable tree, interpreted on the rules of the plugins, so that they compose in any order) and \<open>keyed\<close> (get, set and remove under keys, interpreted on the local storage). Each is interpreted on the definitions
  of the component that provides it, and its lemmas are used through that interpretation.

  \<^bold>\<open>Fuel.\<close> Loops that are not structural take a bound: the filter (shown to end for every rule set without functions:
  some bound is enough and every larger one gives the same result), printing (the size of the store is
  enough on every tree), the walk of the white list filter (twice the size of the store), \<open>div_loop\<close> (twice the number of children plus one, shown to be enough), \<open>execCommand\<close> (the depth to which commands run commands; the
  statements hold for every depth).

  \<^bold>\<open>Parameters.\<close> The chain library, the clock, the selection and the layout of the browser, the functions of commands,
  listeners and plugins, \<open>localeCompare\<close>, what the browser makes of \<open>innerHTML\<close>, what it reports on \<open>abort\<close>, and the quota of the local storage are arguments of the definitions.

  \<^bold>\<open>Not modelled.\<close> \<open>core/domUtils.js\<close>, \<open>core/Range.js\<close>, \<open>core/Selection.js\<close>, the rendering part of \<open>core/Editor.js\<close>, the user
  interface modules, the dialogs and the plugins that only drive the live document: their meaning is that of the browser's
  DOM, which is not part of the sources. Vendored libraries (\<open>bootstrap.js\<close>, \<open>owl.carousel.js\<close>, \<open>tangram.js\<close> and others), the C++ node
  and contracts and the mobile applications are outside the language of this development. Members of
  \<open>Object.prototype\<close> used as keys, characters beyond the bytes of UTF-8 in character classes and floating point fractions
  are not part of the value model.
\<close>

subsection \<open>Properties that span components\<close>

text \<open>C1. The way a text enters the editor: it is parsed, filtered and printed. For every text and
  every white list without functions this ends, nothing throws, and the printed document is
  one that the white list allows.\<close>

theorem parse_filter_print:
  assumes "no_functions rules" "rules \<noteq> []" and hp: "hp = htmlparser fc s ib h"
  shows "\<exists>k h' gs out. filter_root k dels rules (snd hp) (fst hp) = Inr h' \<and>
    represents h' None (PT (snd hp) gs) \<and> list_all (clean (del_rules dels rules) h') gs \<and>
    toHtml h' False (snd hp) = Inr out"
proof -
  obtain t cur where t: "parsing h (fst hp) t cur" "snd hp = length h"
    using htmlparser_parsing unfolding hp by blast
  have r: "represents (fst hp) None t" "proot t = snd hp" using t by (auto simp: parsing_def)
  obtain k h' gs where k: "\<forall>k'. k \<le> k' \<longrightarrow> filter_root k' dels rules (snd hp) (fst hp) = Inr h'"
    and g: "represents h' None (PT (snd hp) gs)" "list_all (clean (del_rules dels rules) h') gs"
    and n: "nodes gs \<subseteq> set (ptrs t)" "static (fst hp) h'"
    by (rule filter_root_total [OF r(1) assms(1), of dels, unfolded r(2)]) (use assms(2) in blast)+
  have ok: "\<And>p. p \<in> set (ptrs t) \<Longrightarrow> ok_node (fst hp ! p)" "ntype (fst hp ! snd hp) = Root"
    using t r(2) proot_in_ptrs [of t] by (auto simp: parsing_def)
  have "printable h' (PT (snd hp) gs)"
  proof (rule printable_rep [of h' None])
    show "rep h' None (PT (snd hp) gs)" using g(1) by (simp add: represents_def)
    show "(None :: ptr option) \<noteq> None \<or> ntype (h' ! proot (PT (snd hp) gs)) = Root" using ok(2) n(2) by (simp add: static_def)
    fix p assume "p \<in> set (ptrs (PT (snd hp) gs))"
    then have "p \<in> set (ptrs t)" using n(1) r(2) proot_in_ptrs [of t] by auto
    then have "ok_node (fst hp ! p)" by (rule ok(1))
    then show "(ntype (h' ! p) = Text \<longrightarrow> data (h' ! p) \<noteq> None) \<and> (ntype (h' ! p) = Root \<longrightarrow> children (h' ! p) \<noteq> None)"
      using n(2) by (auto simp: static_def ok_node_def takes_children_def)
  qed
  from toHtml_print [OF g(1) this] k g show ?thesis by fastforce
qed

theorem parse_filter_print_witness:
  "\<exists>k h' gs out. filter_root k None demo_rules (snd (htmlparser (domUtils_fillChar False) ''<p><b>x</b></p>'' False []))
      (fst (htmlparser (domUtils_fillChar False) ''<p><b>x</b></p>'' False [])) = Inr h' \<and>
    represents h' None (PT (snd (htmlparser (domUtils_fillChar False) ''<p><b>x</b></p>'' False [])) gs) \<and>
    list_all (clean (del_rules None demo_rules) h') gs \<and>
    toHtml h' False (snd (htmlparser (domUtils_fillChar False) ''<p><b>x</b></p>'' False [])) = Inr out"
  by (rule parse_filter_print [OF _ _ refl]) (simp_all add: no_functions_def demo_rules_def)

end
